(* ===== verification/H2_Prelude.thy ===== *)
theory H2_Prelude
  imports Main "HOL-Library.Word" "HOL-Library.List_Lexorder" "HOL-Library.Product_Lexorder"
begin

text \<open>
  The prelude of the h2pp development: names for the machine types of the C++ sources, the
  exceptions they throw, the result type every fallible operation returns, spans (a view of
  memory, as \<open>std::span<const uint8_t>\<close>), and the generic lemmas on words as bit strings and
  on byte order that the components share.

  Sizes that only count the elements of a container are \<open>nat\<close>; a \<open>size_t\<close> on which the code
  subtracts is \<open>u64\<close>, so that its wrap-around stays visible.
\<close>

unbundle bit_operations_syntax

section \<open>Machine types, exceptions, results\<close>

type_synonym byte = "8 word"
type_synonym u16 = "16 word"
type_synonym u32 = "32 word"
type_synonym u64 = "64 word"

text \<open>
  The error codes the library passes around: a value of its own HTTP/2 category (the raw
  32-bit enumerator), one of the \<open>boost::asio::error\<close> values the sources mention, or any other
  failure the transport reports.
\<close>

datatype asio_error = in_progress | not_connected | already_connected | timed_out

datatype error_value = no_error | http2_error u32 | asio_error asio_error | io_error nat

text \<open>
  Exceptions as values. \<open>undefined_behaviour\<close> stands for an execution to which the C++
  standard gives no meaning (a shift by the width of the type, a read outside a span, a
  dereferenced null pointer): no theorem below says anything about what follows it.
\<close>

datatype cpp_error =
    invalid_argument
  | overflow_error
  | runtime_error
  | length_error
  | system_error error_value
  | undefined_behaviour

type_synonym 'a result = "cpp_error + 'a"

definition bind_res :: "'a result \<Rightarrow> ('a \<Rightarrow> 'b result) \<Rightarrow> 'b result" where
  "bind_res m f = (case m of Inl e \<Rightarrow> Inl e | Inr x \<Rightarrow> f x)"

named_theorems res_simps \<open>evaluation of the result monad\<close>
named_theorems bits_simps \<open>words as lists of bits, most significant bit first\<close>

lemma bind_res_Inl [simp, res_simps]: "bind_res (Inl e) f = Inl e"
  by (simp add: bind_res_def)

lemma bind_res_Inr [simp, res_simps]: "bind_res (Inr x) f = f x"
  by (simp add: bind_res_def)

lemma bind_res_Inr_iff: "bind_res m f = Inr y \<longleftrightarrow> (\<exists>x. m = Inr x \<and> f x = Inr y)"
  by (cases m) auto

lemma bind_res_cong [fundef_cong]:
  "m = m' \<Longrightarrow> (\<And>x. m' = Inr x \<Longrightarrow> f x = g x) \<Longrightarrow> bind_res m f = bind_res m' g"
  by (cases m') auto

section \<open>Words as bit strings\<close>

text \<open>The \<open>n\<close> low bits of a word, most significant first.\<close>

definition bits_of :: "nat \<Rightarrow> 'a::len word \<Rightarrow> bool list" where
  "bits_of n w = map (bit w) (rev [0..<n])"

definition bytes_bits :: "byte list \<Rightarrow> bool list" where
  "bytes_bits bs = concat (map (bits_of 8) bs)"

text \<open>The bytes of a word in the order a big-endian store puts them in memory.\<close>

definition be_bytes :: "nat \<Rightarrow> 'a::len word \<Rightarrow> byte list" where
  "be_bytes n w = map (\<lambda>i. ucast (drop_bit (8 * i) w)) (rev [0..<n])"

definition le_bytes :: "nat \<Rightarrow> 'a::len word \<Rightarrow> byte list" where
  "le_bytes n w = map (\<lambda>i. ucast (drop_bit (8 * i) w)) [0..<n]"

definition from_be :: "byte list \<Rightarrow> 'a::len word" where
  "from_be bs = foldl (\<lambda>acc b. push_bit 8 acc OR ucast b) 0 bs"

definition from_le :: "byte list \<Rightarrow> 'a::len word" where
  "from_le bs = from_be (rev bs)"

lemma length_bits_of [simp]: "length (bits_of n w) = n"
  by (simp add: bits_of_def)

lemma nth_bits_of [bits_simps]: "k < n \<Longrightarrow> bits_of n w ! k = bit w (n - 1 - k)"
  by (simp add: bits_of_def rev_nth)

lemma bits_of_0 [simp]: "bits_of 0 w = []"
  by (simp add: bits_of_def)

lemma bits_of_Suc: "bits_of (Suc n) w = bit w n # bits_of n w"
  by (simp add: bits_of_def)

lemma bits_of_eqI: "(\<And>i. i < n \<Longrightarrow> bit v i = bit w i) \<Longrightarrow> bits_of n v = bits_of n w"
  by (simp add: bits_of_def)

lemma bits_of_eq_iff: "bits_of n v = bits_of n w \<longleftrightarrow> (\<forall>i<n. bit v i = bit w i)"
  by (auto simp: bits_of_def)

lemma bits_of_inject:
  fixes v w :: "'a::len word"
  assumes "bits_of LENGTH('a) v = bits_of LENGTH('a) w"
  shows "v = w"
  using assms by (auto simp: bits_of_eq_iff intro: bit_word_eqI)

lemma bits_of_add: "bits_of (m + n) w = bits_of m (drop_bit n w) @ bits_of n w"
  by (rule nth_equalityI) (auto simp: nth_append bits_simps bit_drop_bit_eq intro!: arg_cong [where f = "bit w"])

lemma drop_bits_of: "m \<le> n \<Longrightarrow> drop (n - m) (bits_of n w) = bits_of m w"
  using bits_of_add [of "n - m" m w] by simp

lemma take_bits_of: "m \<le> n \<Longrightarrow> take (n - m) (bits_of n w) = bits_of (n - m) (drop_bit m w)"
  using bits_of_add [of "n - m" m w] by simp

lemma unat_u64_less: "unat w < 2 ^ 64" for w :: u64
  using unsigned_less [of w] by simp

lemma unat_u32_less: "unat w < 2 ^ 32" for w :: u32
  using unsigned_less [of w] by simp

lemma unat_byte_less: "unat w < 256" for w :: byte
  using unsigned_less [of w] by simp

lemma unat_ucast_up: "LENGTH('a) \<le> LENGTH('b) \<Longrightarrow> unat (ucast w :: 'b::len word) = unat w" for w :: "'a::len word"
proof -
  assume "LENGTH('a) \<le> LENGTH('b)"
  then have "unat w < 2 ^ LENGTH('b)"
    by (meson unsigned_less less_le_trans one_le_numeral power_increasing)
  then show ?thesis by (simp add: unsigned_ucast_eq take_bit_nat_eq_self)
qed

lemma unat_ucasts [simp]:
  "unat (ucast b :: u64) = unat b" "unat (ucast b :: u32) = unat b" "unat (ucast v :: u64) = unat v"
  for b :: byte and v :: u32
  by (simp_all add: unat_ucast_up)

lemma unat_drop_bit: "unat (drop_bit n w) = unat w div 2 ^ n" for w :: "'a::len word"
proof -
  have "unat (drop_bit n w) = drop_bit n (take_bit LENGTH('a) (unat w))"
    by (rule unsigned_drop_bit_eq)
  then show ?thesis by (simp only: take_bit_nat_eq_self [OF unsigned_less] drop_bit_eq_div)
qed

lemma ucast_ucast_byte [simp]: "(ucast (ucast b :: u64) :: u32) = ucast b" for b :: byte
  by (rule bit_word_eqI) (simp add: bit_ucast_iff)

lemma ucast_of_int_u32: "(ucast (of_int k :: u64) :: u32) = of_int k"
  by transfer simp

lemma ucast_of_nat_u32: "(ucast (of_nat k :: u64) :: u32) = of_nat k"
  using ucast_of_int_u32 [of "int k"] by simp

text \<open>Shifting a word left and filling the freed bits appends bit strings.\<close>

lemma bits_of_push_or:
  fixes v c :: "'a::len word"
  assumes "m + n \<le> LENGTH('a)" and "\<And>i. n \<le> i \<Longrightarrow> \<not> bit c i"
  shows "bits_of (m + n) (push_bit n v OR c) = bits_of m v @ bits_of n c"
  using assms
  by (intro nth_equalityI)
    (auto simp: nth_append bits_simps bit_push_bit_iff bit_or_iff add.commute [of n m]
      dest: bit_imp_le_length)

lemma bits_of_ucast: "n \<le> LENGTH('b) \<Longrightarrow> bits_of n (ucast w :: 'b::len word) = bits_of n w"
  by (auto intro!: bits_of_eqI simp: bit_ucast_iff)

lemma length_bytes_bits [simp]: "length (bytes_bits bs) = 8 * length bs"
  by (induction bs) (auto simp: bytes_bits_def)

lemma bytes_bits_simps [simp]:
  "bytes_bits [] = []"
  "bytes_bits (b # bs) = bits_of 8 b @ bytes_bits bs"
  "bytes_bits (as @ bs) = bytes_bits as @ bytes_bits bs"
  by (auto simp: bytes_bits_def)

lemma nth_bytes_bits:
  "k < 8 * length bs \<Longrightarrow> bytes_bits bs ! k = bit (bs ! (k div 8)) (7 - k mod 8)"
proof (induction bs arbitrary: k)
  case Nil
  then show ?case by simp
next
  case (Cons b bs)
  show ?case
  proof (cases "k < 8")
    case True
    then show ?thesis by (simp add: nth_append bits_simps)
  next
    case False
    then have "k div 8 = Suc ((k - 8) div 8)" and "(k - 8) mod 8 = k mod 8"
      by (auto simp: le_div_geq le_mod_geq)
    with False Cons show ?thesis by (simp add: nth_append)
  qed
qed

lemma bytes_bits_inject: "length as = length bs \<Longrightarrow> bytes_bits as = bytes_bits bs \<longleftrightarrow> as = bs"
proof (induction as bs rule: list_induct2)
  case (Cons a as b bs)
  then show ?case by (auto intro: bits_of_inject)
qed simp

lemma length_be_bytes [simp]: "length (be_bytes n w) = n"
  by (simp add: be_bytes_def)

lemma length_le_bytes [simp]: "length (le_bytes n w) = n"
  by (simp add: le_bytes_def)

lemma rev_le_bytes: "rev (le_bytes n w) = be_bytes n w"
  by (simp add: le_bytes_def be_bytes_def rev_map)

lemma be_bytes_Suc: "be_bytes (Suc n) w = ucast (drop_bit (8 * n) w) # be_bytes n w"
  by (simp add: be_bytes_def)

lemma bytes_bits_be_bytes: "bytes_bits (be_bytes n w) = bits_of (8 * n) w"
proof (induction n)
  case 0
  show ?case by (simp add: be_bytes_def)
next
  case (Suc n)
  have "bytes_bits (be_bytes (Suc n) w) = bits_of 8 (drop_bit (8 * n) w) @ bits_of (8 * n) w"
    by (simp add: be_bytes_Suc Suc bits_of_ucast)
  then show ?case by (simp flip: bits_of_add)
qed

lemma bits_of_from_be:
  "8 * length bs \<le> LENGTH('a) \<Longrightarrow> bits_of (8 * length bs) (from_be bs :: 'a::len word) = bytes_bits bs"
proof (induction bs rule: rev_induct)
  case Nil
  show ?case by simp
next
  case (snoc b bs)
  have from_snoc: "from_be (bs @ [b]) = (push_bit 8 (from_be bs) OR ucast b :: 'a word)"
    by (simp add: from_be_def)
  let ?f = "from_be bs :: 'a word"
  have "bits_of (8 * length bs + 8) (push_bit 8 ?f OR ucast b) = bits_of (8 * length bs) ?f @ bits_of 8 (ucast b :: 'a word)"
    using snoc.prems by (intro bits_of_push_or) (auto simp: bit_ucast_iff dest: bit_imp_le_length)
  also have "\<dots> = bytes_bits (bs @ [b])"
    using snoc by (simp add: bits_of_ucast)
  finally show ?case by (simp add: add.commute from_snoc)
qed

lemma from_be_be_bytes:
  fixes w :: "'a::len word"
  assumes "LENGTH('a) = 8 * n"
  shows "from_be (be_bytes n w) = w"
proof (rule bits_of_inject)
  have "bits_of (8 * length (be_bytes n w)) (from_be (be_bytes n w) :: 'a word) = bytes_bits (be_bytes n w)"
    using assms by (intro bits_of_from_be) simp
  then show "bits_of LENGTH('a) (from_be (be_bytes n w) :: 'a word) = bits_of LENGTH('a) w"
    by (simp only: length_be_bytes bytes_bits_be_bytes assms)
qed

lemma from_le_le_bytes:
  fixes w :: "'a::len word"
  assumes "LENGTH('a) = 8 * n"
  shows "from_le (le_bytes n w) = w"
  unfolding from_le_def rev_le_bytes by (rule from_be_be_bytes [OF assms])

section \<open>Spans\<close>

text \<open>
  A \<open>std::span<const uint8_t>\<close> is a pointer and a size. The pointer is a view of memory,
  \<open>sp_mem s i\<close> being the byte at offset \<open>i\<close> from the start of the span, also for an \<open>i\<close>
  outside it: one routine of the library reads there.
\<close>

record span =
  sp_mem :: "int \<Rightarrow> byte"
  sp_len :: nat

definition span_bytes :: "span \<Rightarrow> byte list" where
  "span_bytes s = map (\<lambda>i. sp_mem s (int i)) [0..<sp_len s]"

definition subspan :: "nat \<Rightarrow> span \<Rightarrow> span" where
  "subspan k s = \<lparr>sp_mem = (\<lambda>i. sp_mem s (i + int k)), sp_len = sp_len s - k\<rparr>"

definition first_span :: "nat \<Rightarrow> span \<Rightarrow> span" where
  "first_span n s = s\<lparr>sp_len := n\<rparr>"

text \<open>The span over the bytes \<open>bs\<close> when the rest of memory holds \<open>out\<close>.\<close>

definition span_of :: "(int \<Rightarrow> byte) \<Rightarrow> byte list \<Rightarrow> span" where
  "span_of out bs =
     \<lparr>sp_mem = (\<lambda>i. if 0 \<le> i \<and> nat i < length bs then bs ! nat i else out i), sp_len = length bs\<rparr>"

lemma length_span_bytes [simp]: "length (span_bytes s) = sp_len s"
  by (simp add: span_bytes_def)

lemma nth_span_bytes [simp]: "i < sp_len s \<Longrightarrow> span_bytes s ! i = sp_mem s (int i)"
  by (simp add: span_bytes_def)

lemma span_bytes_Nil_iff [simp]: "span_bytes s = [] \<longleftrightarrow> sp_len s = 0"
  by (simp add: span_bytes_def)

lemma span_bytes_subspan [simp]: "span_bytes (subspan k s) = drop k (span_bytes s)"
  by (rule nth_equalityI) (auto simp: subspan_def add.commute)

lemma sp_len_subspan [simp]: "sp_len (subspan k s) = sp_len s - k"
  by (simp add: subspan_def)

lemma span_bytes_first_span [simp]: "n \<le> sp_len s \<Longrightarrow> span_bytes (first_span n s) = take n (span_bytes s)"
  by (rule nth_equalityI) (auto simp: first_span_def)

lemma sp_len_first_span [simp]: "sp_len (first_span n s) = n"
  by (simp add: first_span_def)

lemma span_bytes_span_of [simp]: "span_bytes (span_of out bs) = bs"
  by (rule nth_equalityI) (auto simp: span_of_def)

lemma sp_len_span_of [simp]: "sp_len (span_of out bs) = length bs"
  by (simp add: span_of_def)

end
