(* ===== verification/Utils.thy ===== *)
theory Utils
  imports H2_Prelude
begin

text \<open>
  The free functions of \<open>lib/utils/utils.h\<close> (bit masks, rounding up to a power of two) and
  \<open>lib/utils/endianess.h\<close> (conversion to big-endian order), with the facts the buffers, the
  HPACK coder and the frame layer use of them.
\<close>

section \<open>Masks and rounding (utils.h)\<close>

text \<open>
  \<open>make_mask\<close> is a template over the unsigned type \<open>T\<close>, here the word type of the result. The
  guard makes the shifted value 0 where \<open>1\<close> would be shifted out.
\<close>

definition make_mask :: "nat \<Rightarrow> 'a::len word" where
  "make_mask n =
     (let init_mask = (if n > LENGTH('a) - 1 then 0 else 1)
      in push_bit n init_mask - 1)"

definition ceil_order2 :: "u64 \<Rightarrow> nat \<Rightarrow> u64" where
  "ceil_order2 value order = (value + make_mask order) AND NOT (make_mask order)"

section \<open>Byte order (endianess.h)\<close>

text \<open>The order of the host, \<open>boost::endian::order::native\<close>.\<close>

datatype byte_order = big | little

definition native_to_big32 :: "byte_order \<Rightarrow> u32 \<Rightarrow> u32" where
  "native_to_big32 native x =
     (if native = big then x
      else let step16 = push_bit 16 x OR drop_bit 16 x
           in (push_bit 8 step16 AND 0xff00ff00) OR (drop_bit 8 step16 AND 0x00ff00ff))"

definition native_to_big16 :: "byte_order \<Rightarrow> u16 \<Rightarrow> u16" where
  "native_to_big16 native x =
     (if native = big then x else push_bit 8 x OR drop_bit 8 x)"

text \<open>How the host stores an integer of \<open>n\<close> bytes to memory and loads it again.\<close>

definition store_native :: "byte_order \<Rightarrow> nat \<Rightarrow> 'a::len word \<Rightarrow> byte list" where
  "store_native native n w = (if native = big then be_bytes n w else le_bytes n w)"

definition load_native :: "byte_order \<Rightarrow> byte list \<Rightarrow> 'a::len word" where
  "load_native native bs = (if native = big then from_be bs else from_le bs)"

section \<open>Masks\<close>

lemma make_mask_eq_mask: "make_mask n = (mask n :: 'a::len word)"
proof (cases "n > LENGTH('a) - 1")
  case True
  then have "LENGTH('a) \<le> n" by simp
  then show ?thesis
    by (simp add: make_mask_def mask_eq_decr_exp flip: push_bit_of_1)
next
  case False
  then show ?thesis by (simp add: make_mask_def mask_eq_decr_exp push_bit_of_1)
qed

lemma bit_make_mask [bits_simps]:
  "bit (make_mask n :: 'a::len word) i \<longleftrightarrow> i < LENGTH('a) \<and> i < n"
  by (auto simp: make_mask_eq_mask bit_mask_iff)

lemma unat_make_mask: "n \<le> LENGTH('a) \<Longrightarrow> unat (make_mask n :: 'a::len word) = 2 ^ n - 1"
proof -
  assume n: "n \<le> LENGTH('a)"
  have "unat (mask n :: 'a word) = mask n"
    by (rule bit_eqI) (use n in \<open>auto simp: bit_unsigned_iff bit_mask_iff possible_bit_def\<close>)
  then show ?thesis by (simp add: make_mask_eq_mask mask_eq_exp_minus_1)
qed

lemma and_not_mask_eq: "w AND NOT (mask n) = push_bit n (drop_bit n w)" for w :: "'a::len word"
  by (auto intro!: bit_word_eqI simp: bit_simps dest: bit_imp_le_length)

text \<open>
  Where the addition does not wrap, the bit trick of \<open>ceil_order2\<close> is rounding up to the next
  multiple of \<open>2 ^ order\<close>.
\<close>

lemma unat_ceil_order2:
  assumes "order < 64" and "unat value + (2 ^ order - 1) < 2 ^ 64"
  shows "unat (ceil_order2 value order) = (unat value + (2 ^ order - 1)) div 2 ^ order * 2 ^ order"
proof -
  let ?m = "make_mask order :: u64"
  have sum: "unat (value + ?m) = unat value + (2 ^ order - 1)"
    using assms by (subst unat_add_lem [THEN iffD1]) (simp_all add: unat_make_mask)
  have "unat (ceil_order2 value order) = unat (push_bit order (drop_bit order (value + ?m)))"
    by (simp add: ceil_order2_def make_mask_eq_mask and_not_mask_eq)
  also have "\<dots> = take_bit 64 (push_bit order (drop_bit order (unat (value + ?m))))"
    by (simp add: unsigned_push_bit_eq unsigned_drop_bit_eq take_bit_nat_eq_self [OF unat_u64_less])
  also have "\<dots> = (unat value + (2 ^ order - 1)) div 2 ^ order * 2 ^ order mod 2 ^ 64"
    unfolding sum by (simp add: take_bit_eq_mod push_bit_eq_mult drop_bit_eq_div)
  also have "\<dots> = (unat value + (2 ^ order - 1)) div 2 ^ order * 2 ^ order"
    using assms(2) by (intro mod_less) (metis div_times_less_eq_dividend le_less_trans)
  finally show ?thesis .
qed

lemma ceil_order2_bounds:
  assumes "order < 64" and "unat value + (2 ^ order - 1) < 2 ^ 64"
  shows "unat value \<le> unat (ceil_order2 value order)"
    and "unat (ceil_order2 value order) < unat value + 2 ^ order"
    and "2 ^ order dvd unat (ceil_order2 value order)"
proof -
  let ?p = "2 ^ order :: nat" and ?v = "unat value"
  have p: "0 < ?p" by simp
  have eq: "unat (ceil_order2 value order) = (?v + (?p - 1)) div ?p * ?p"
    by (rule unat_ceil_order2 [OF assms])
  have mod: "(?v + (?p - 1)) div ?p * ?p + (?v + (?p - 1)) mod ?p = ?v + (?p - 1)"
    by (rule div_mult_mod_eq)
  have "(?v + (?p - 1)) mod ?p < ?p" using p by simp
  with mod p show "?v \<le> unat (ceil_order2 value order)" unfolding eq by linarith
  from mod p show "unat (ceil_order2 value order) < ?v + ?p" unfolding eq by linarith
  show "?p dvd unat (ceil_order2 value order)" unfolding eq by simp
qed

section \<open>Byte order\<close>

lemma load_store_native:
  "LENGTH('a) = 8 * n \<Longrightarrow> load_native native (store_native native n w) = (w :: 'a::len word)"
  by (simp add: load_native_def store_native_def from_be_be_bytes from_le_le_bytes)

lemma length_store_native [simp]: "length (store_native native n w) = n"
  by (simp add: store_native_def)

lemma native_to_big32_little_bytes: "le_bytes 4 (native_to_big32 little x) = be_bytes 4 x"
proof -
  have "bit (ucast (drop_bit (8 * i) (native_to_big32 little x)) :: byte) k =
      bit (ucast (drop_bit (8 * (3 - i)) x) :: byte) k" if "i < 4" "k < 8" for i k
  proof -
    from that have "i = 0 \<or> i = 1 \<or> i = 2 \<or> i = 3"
      and "k = 0 \<or> k = 1 \<or> k = 2 \<or> k = 3 \<or> k = 4 \<or> k = 5 \<or> k = 6 \<or> k = 7" by auto
    then show ?thesis
      by (elim disjE; simp add: native_to_big32_def Let_def bit_simps; use bit_imp_le_length [of x] in force)
  qed
  then have "(ucast (drop_bit (8 * i) (native_to_big32 little x)) :: byte) = ucast (drop_bit (8 * (3 - i)) x)"
    if "i < 4" for i using that by (auto intro!: bit_word_eqI)
  then show ?thesis
    by (intro nth_equalityI) (auto simp: le_bytes_def be_bytes_def rev_nth)
qed

lemma native_to_big16_little_bytes: "le_bytes 2 (native_to_big16 little x) = be_bytes 2 x"
proof -
  have "(ucast (native_to_big16 little x) :: byte) = ucast (drop_bit 8 x)"
    by (rule bit_word_eqI) (auto simp: native_to_big16_def bit_simps)
  moreover have "(ucast (drop_bit 8 (native_to_big16 little x)) :: byte) = ucast x"
    by (rule bit_word_eqI) (auto simp: native_to_big16_def bit_simps dest: bit_imp_le_length)
  ultimately show ?thesis by (simp add: le_bytes_def be_bytes_def numeral_2_eq_2)
qed

lemma store_native_to_big:
  "store_native native 4 (native_to_big32 native x) = be_bytes 4 x"
  "store_native native 2 (native_to_big16 native y) = be_bytes 2 y"
  by (cases native; simp add: store_native_def native_to_big32_little_bytes native_to_big16_little_bytes;
      simp add: native_to_big32_def native_to_big16_def)+

lemma native_to_big32_involution: "native_to_big32 native (native_to_big32 native x) = x"
proof (cases native)
  case big
  then show ?thesis by (simp add: native_to_big32_def)
next
  case little
  have "be_bytes 4 (native_to_big32 little (native_to_big32 little x)) = be_bytes 4 x"
    by (metis native_to_big32_little_bytes rev_le_bytes rev_rev_ident)
  then have "from_be (be_bytes 4 (native_to_big32 little (native_to_big32 little x))) = (from_be (be_bytes 4 x) :: u32)"
    by simp
  then show ?thesis using little by (simp add: from_be_be_bytes)
qed

text \<open>Loading big-endian wire bytes on any host and converting them gives their value.\<close>

lemma native_to_big32_load:
  assumes "length bs = 4"
  shows "native_to_big32 native (load_native native bs) = from_be bs"
proof -
  define w :: u32 where "w = from_be bs"
  have "bytes_bits (be_bytes 4 w) = bits_of (8 * length bs) w"
    using assms by (simp add: bytes_bits_be_bytes)
  also have "\<dots> = bytes_bits bs" unfolding w_def using assms by (intro bits_of_from_be) simp
  finally have bs: "be_bytes 4 w = bs" using assms bytes_bits_inject by force
  have "load_native native bs = native_to_big32 native w"
    using load_store_native [of 4 native "native_to_big32 native w"]
    by (simp add: store_native_to_big bs)
  then show ?thesis by (simp add: w_def native_to_big32_involution)
qed

end
