(* ===== verification/Buffer.thy ===== *)
theory Buffer
  imports Utils
begin

text \<open>
  \<open>utils::buffer\<close> (\<open>lib/utils/buffer.h\<close>), a fixed slice of memory with a write position, and
  \<open>utils::streambuf\<close> (\<open>lib/utils/streambuf.{h,cpp}\<close>), an unbounded byte queue made of such
  buffers. \<open>new uint8_t[n]\<close> leaves the memory uninitialised: what it happens to hold is the
  argument \<open>fill\<close> of every operation that allocates.
\<close>

section \<open>utils::buffer\<close>

record buffer =
  buf_offset :: nat
  buf_maxsize :: nat
  buf_memory :: "byte list"

definition buffer_new :: "(nat \<Rightarrow> byte) \<Rightarrow> nat \<Rightarrow> buffer" where
  "buffer_new fill n = \<lparr>buf_offset = 0, buf_maxsize = n, buf_memory = map fill [0..<n]\<rparr>"

text \<open>Moving out of a buffer (constructor and assignment): the new object and what is left of \<open>rhs\<close>.\<close>

definition buffer_move :: "buffer \<Rightarrow> buffer \<times> buffer" where
  "buffer_move rhs =
     (\<lparr>buf_offset = buf_offset rhs, buf_maxsize = buf_maxsize rhs, buf_memory = buf_memory rhs\<rparr>,
      \<lparr>buf_offset = 0, buf_maxsize = 0, buf_memory = []\<rparr>)"

definition prepare :: "buffer \<Rightarrow> byte list" where
  "prepare b = take (buf_maxsize b - buf_offset b) (drop (buf_offset b) (buf_memory b))"

definition commit :: "nat \<Rightarrow> buffer \<Rightarrow> buffer \<times> nat" where
  "commit count b =
     (let delta = min (length (prepare b)) count
      in (b\<lparr>buf_offset := buf_offset b + delta\<rparr>, delta))"

text \<open>\<open>memcpy\<close> to an offset of the memory.\<close>

definition poke :: "nat \<Rightarrow> byte list \<Rightarrow> byte list \<Rightarrow> byte list" where
  "poke off src mem = take off mem @ src @ drop (off + length src) mem"

definition commit_span :: "byte list \<Rightarrow> buffer \<Rightarrow> buffer \<times> nat" where
  "commit_span src b =
     (let to_copy = min (length (prepare b)) (length src)
      in (b\<lparr>buf_memory := poke (buf_offset b) (take to_copy src) (buf_memory b),
            buf_offset := buf_offset b + to_copy\<rparr>, to_copy))"

definition data_view :: "buffer \<Rightarrow> byte list" where
  "data_view b = take (buf_offset b) (buf_memory b)"

definition consume :: "nat \<Rightarrow> buffer \<Rightarrow> buffer" where
  "consume count0 b =
     (let count = min (buf_offset b) count0;
          b' = (if count \<noteq> 0 \<and> count < buf_offset b
                then b\<lparr>buf_memory :=
                       poke 0 (take (buf_offset b - count) (drop count (buf_memory b))) (buf_memory b)\<rparr>
                else b)
      in b'\<lparr>buf_offset := buf_offset b - count\<rparr>)"

definition max_size :: "buffer \<Rightarrow> nat" where
  "max_size b = buf_maxsize b"

text \<open>The class invariant: the write position is inside the memory that was allocated.\<close>

definition buffer_ok :: "buffer \<Rightarrow> bool" where
  "buffer_ok b \<longleftrightarrow> buf_offset b \<le> buf_maxsize b \<and> length (buf_memory b) = buf_maxsize b"

section \<open>utils::streambuf\<close>

type_synonym streambuf = "buffer list"

definition MinBufferSize :: nat where "MinBufferSize = 64"
definition MaxBufferSize :: nat where "MaxBufferSize = 4096"

definition align_size :: "nat \<Rightarrow> nat" where
  "align_size sz =
     (if sz > MaxBufferSize then unat (ceil_order2 (of_nat sz) 12)
      else unat (ceil_order2 (of_nat sz) 6))"

definition check_size :: "(nat \<Rightarrow> byte) \<Rightarrow> nat \<Rightarrow> streambuf \<Rightarrow> streambuf" where
  "check_size fill sz buffers =
     (if buffers = [] then
        let aligned_size = align_size sz;
            new_size = max aligned_size MinBufferSize
        in buffers @ [buffer_new fill new_size]
      else
        let last_buffer = last buffers
        in if prepare last_buffer = [] then
             let next_size = min (max_size last_buffer * 2) MaxBufferSize;
                 aligned_size = align_size sz;
                 new_size = max aligned_size next_size
             in buffers @ [buffer_new fill new_size]
           else buffers)"

text \<open>
  The loop of \<open>streambuf::push_back\<close>, one unfolding per iteration: \<open>src\<close> is what is left of the
  source. It is a \<open>while\<close> on the bytes left, so that the model has it return \<open>None\<close> if it never
  ended; \<open>push_back_loop_returns\<close> shows that it always ends.
\<close>

partial_function (option) push_back_loop ::
  "(nat \<Rightarrow> byte) \<Rightarrow> byte list \<Rightarrow> streambuf \<Rightarrow> streambuf option" where
  "push_back_loop fill src buffers =
     (if src = [] then Some buffers
      else
        let buffers1 = check_size fill (length src) buffers;
            back = last buffers1;
            n = min (length src) (length (prepare back));
            back1 = back\<lparr>buf_memory := poke (buf_offset back) (take n src) (buf_memory back)\<rparr>;
            back2 = fst (commit n back1)
        in push_back_loop fill (drop n src) (butlast buffers1 @ [back2]))"

definition push_back :: "(nat \<Rightarrow> byte) \<Rightarrow> byte list \<Rightarrow> streambuf \<Rightarrow> streambuf" where
  "push_back fill src buffers = the (push_back_loop fill src buffers)"

text \<open>\<open>flush\<close>: the buffers it returns, and the emptied stream.\<close>

definition flush :: "streambuf \<Rightarrow> buffer list \<times> streambuf" where
  "flush buffers = (buffers, [])"

text \<open>What a stream holds, and its invariant: well-formed buffers, none of them of size 0.\<close>

definition contents :: "buffer list \<Rightarrow> byte list" where
  "contents buffers = concat (map data_view buffers)"

definition streambuf_ok :: "streambuf \<Rightarrow> bool" where
  "streambuf_ok buffers \<longleftrightarrow> (\<forall>b\<in>set buffers. buffer_ok b \<and> 0 < buf_maxsize b)"

section \<open>Lemmas on buffers\<close>

named_theorems buffer_defs \<open>the operations of utils::buffer\<close>

lemmas [buffer_defs] = buffer_new_def prepare_def commit_def commit_span_def data_view_def
  consume_def max_size_def poke_def buffer_ok_def

lemma length_poke [simp]: "off + length src \<le> length mem \<Longrightarrow> length (poke off src mem) = length mem"
  by (simp add: poke_def)

lemma length_prepare: "buffer_ok b \<Longrightarrow> length (prepare b) = buf_maxsize b - buf_offset b"
  by (simp add: buffer_defs)

lemma length_data_view: "buffer_ok b \<Longrightarrow> length (data_view b) = buf_offset b"
  by (simp add: buffer_defs)

lemma buffer_ok_new [simp]: "buffer_ok (buffer_new fill n)"
  by (simp add: buffer_defs)

lemma buffer_new_sels [simp]:
  "buf_offset (buffer_new fill n) = 0" "buf_maxsize (buffer_new fill n) = n"
  "data_view (buffer_new fill n) = []"
  by (simp_all add: buffer_defs)

lemma length_prepare_new: "length (prepare (buffer_new fill n)) = n"
  by (simp add: buffer_defs)

lemma buffer_ok_commit: "buffer_ok b \<Longrightarrow> buffer_ok (fst (commit n b))"
  by (auto simp: buffer_defs Let_def)

lemma buffer_ok_commit_span: "buffer_ok b \<Longrightarrow> buffer_ok (fst (commit_span src b))"
  by (auto simp: buffer_defs Let_def)

lemma buffer_ok_consume: "buffer_ok b \<Longrightarrow> buffer_ok (consume n b)"
  by (auto simp: buffer_defs Let_def)

lemma buffer_ok_offset: "buffer_ok b \<Longrightarrow> buf_offset b \<le> buf_maxsize b"
  by (simp add: buffer_ok_def)

lemma snd_commit_span: "snd (commit_span src b) = min (length (prepare b)) (length src)"
  by (simp add: commit_span_def Let_def)

lemma data_view_commit_span:
  "buffer_ok b \<Longrightarrow> data_view (fst (commit_span src b)) =
     data_view b @ take (buf_maxsize b - buf_offset b) src"
  by (auto simp: buffer_defs Let_def min_def)

lemma data_view_consume: "buffer_ok b \<Longrightarrow> data_view (consume n b) = drop n (data_view b)"
  by (auto simp: buffer_defs Let_def min_def take_drop)

lemma consume_sels [simp]:
  "buf_offset (consume n b) = buf_offset b - min (buf_offset b) n"
  "buf_maxsize (consume n b) = buf_maxsize b"
  by (auto simp: consume_def Let_def)

lemma contents_simps [simp]:
  "contents [] = []"
  "contents (b # bs) = data_view b @ contents bs"
  "contents (as @ bs) = contents as @ contents bs"
  by (auto simp: contents_def)

section \<open>The stream loop\<close>

text \<open>After \<open>check_size\<close> the last buffer has room, and nothing stored has moved.\<close>

lemma check_size_room:
  assumes "streambuf_ok bs"
  shows "streambuf_ok (check_size fill sz bs)" and "check_size fill sz bs \<noteq> []"
    and "0 < length (prepare (last (check_size fill sz bs)))"
    and "contents (check_size fill sz bs) = contents bs"
proof -
  have "\<exists>n. 0 < n \<and> check_size fill sz bs = bs @ [buffer_new fill n]"
    if full: "bs = [] \<or> prepare (last bs) = []"
  proof (cases "bs = []")
    case True
    then have "check_size fill sz bs = bs @ [buffer_new fill (max (align_size sz) 64)]"
      by (simp add: check_size_def Let_def MinBufferSize_def)
    then show ?thesis by (intro exI [where x = "max (align_size sz) 64"]) simp
  next
    case False
    let ?n = "max (align_size sz) (min (max_size (last bs) * 2) MaxBufferSize)"
    have "0 < ?n"
      using False assms by (simp add: streambuf_ok_def max_size_def MaxBufferSize_def less_max_iff_disj)
    moreover have "check_size fill sz bs = bs @ [buffer_new fill ?n]"
      using False full by (simp add: check_size_def Let_def)
    ultimately show ?thesis by blast
  qed
  moreover have "check_size fill sz bs = bs" if "\<not> (bs = [] \<or> prepare (last bs) = [])"
    using that by (simp add: check_size_def)
  ultimately consider n where "0 < n" "check_size fill sz bs = bs @ [buffer_new fill n]"
    | "check_size fill sz bs = bs" "bs \<noteq> []" "prepare (last bs) \<noteq> []" by blast
  then have "streambuf_ok (check_size fill sz bs) \<and> check_size fill sz bs \<noteq> [] \<and>
      0 < length (prepare (last (check_size fill sz bs))) \<and>
      contents (check_size fill sz bs) = contents bs"
    using assms by cases (auto simp: streambuf_ok_def length_prepare_new)
  then show "streambuf_ok (check_size fill sz bs)" and "check_size fill sz bs \<noteq> []"
    and "0 < length (prepare (last (check_size fill sz bs)))"
    and "contents (check_size fill sz bs) = contents bs" by blast+
qed

lemma write_back_eq:
  assumes "buffer_ok b" and "n \<le> length (prepare b)" and "n \<le> length src"
  shows "fst (commit n (b\<lparr>buf_memory := poke (buf_offset b) (take n src) (buf_memory b)\<rparr>)) =
    fst (commit_span (take n src) b)"
  using assms by (auto simp: buffer_defs Let_def min_def)

lemma push_back_loop_returns:
  assumes "streambuf_ok bs"
  shows "\<exists>bs'. push_back_loop fill src bs = Some bs' \<and> streambuf_ok bs' \<and> contents bs' = contents bs @ src"
  using assms
proof (induction "length src" arbitrary: src bs rule: less_induct)
  case less
  show ?case
  proof (cases "src = []")
    case True
    then show ?thesis using less.prems by (subst push_back_loop.simps) simp
  next
    case False
    let ?c = "check_size fill (length src) bs"
    let ?b = "last ?c"
    let ?n = "min (length src) (length (prepare ?b))"
    let ?bs = "butlast ?c @ [fst (commit_span (take ?n src) ?b)]"
    note room = check_size_room [OF less.prems, of fill "length src"]
    have split: "?c = butlast ?c @ [?b]" using room(2) by simp
    then have ok_b: "buffer_ok ?b" "0 < buf_maxsize ?b"
      using room(1,2) by (auto simp: streambuf_ok_def)
    have "streambuf_ok ?bs"
    proof -
      have "set ?bs \<subseteq> set ?c \<union> {fst (commit_span (take ?n src) ?b)}"
        by (auto dest: in_set_butlastD)
      moreover have "buf_maxsize (fst (commit_span (take ?n src) ?b)) = buf_maxsize ?b"
        by (simp add: commit_span_def Let_def)
      ultimately show ?thesis
        using room(1) ok_b buffer_ok_commit_span unfolding streambuf_ok_def by fastforce
    qed
    moreover have "length (drop ?n src) < length src"
      using False room(3) by simp
    ultimately obtain bs' where bs': "push_back_loop fill (drop ?n src) ?bs = Some bs'"
      "streambuf_ok bs'" "contents bs' = contents ?bs @ drop ?n src"
      using less.hyps by blast
    have "contents ?bs = contents ?c @ take ?n src"
      using ok_b(1) arg_cong [OF split, of contents]
      by (simp add: data_view_commit_span length_prepare)
    with bs'(3) room(4) have "contents bs' = contents bs @ src"
      by (simp only: append.assoc append_take_drop_id)
    moreover have "push_back_loop fill src bs = push_back_loop fill (drop ?n src) ?bs"
      using False write_back_eq [OF ok_b(1), of ?n src]
      by (subst push_back_loop.simps) (simp add: Let_def)
    ultimately show ?thesis using bs' by auto
  qed
qed

section \<open>The interface of a byte sink\<close>

text \<open>
  What the writers above a stream rely on: storing bytes keeps the sink well formed and appends
  them to what it holds. The sink's representation stays behind these two laws.
\<close>

locale byte_sink =
  fixes put :: "byte list \<Rightarrow> 's \<Rightarrow> 's"
    and held :: "'s \<Rightarrow> byte list"
    and ok :: "'s \<Rightarrow> bool"
  assumes put_ok: "ok s \<Longrightarrow> ok (put bs s)"
    and held_put: "ok s \<Longrightarrow> held (put bs s) = held s @ bs"
begin

lemma fold_put_ok: "ok s \<Longrightarrow> ok (fold put bss s)"
  by (induction bss arbitrary: s) (auto simp: put_ok)

lemma held_fold_put: "ok s \<Longrightarrow> held (fold put bss s) = held s @ concat bss"
  by (induction bss arbitrary: s) (auto simp: put_ok held_put)

end

interpretation sbuf: byte_sink "push_back fill" contents streambuf_ok
proof
  fix s bs
  assume "streambuf_ok s"
  then show "streambuf_ok (push_back fill bs s)" and "contents (push_back fill bs s) = contents s @ bs"
    using push_back_loop_returns [of s fill bs] by (auto simp: push_back_def)
qed

lemma streambuf_ok_Nil [simp]: "streambuf_ok []"
  by (simp add: streambuf_ok_def)

section \<open>Properties\<close>

text \<open>
  \<open>buffer::commit\<close>, \<open>data_view\<close> and \<open>consume\<close> behave as a bounded queue: committing a span
  appends as much of it as fits and reports how much that was, consuming drops from the front,
  and neither leaves the allocated memory.
\<close>

lemma buffer_is_bounded_queue:
  assumes "buffer_ok b"
  shows "data_view (fst (commit_span src b)) = data_view b @ take (length (prepare b)) src
    \<and> snd (commit_span src b) = min (length (prepare b)) (length src)
    \<and> data_view (consume n b) = drop n (data_view b)
    \<and> length (prepare b) + length (data_view b) = buf_maxsize b
    \<and> buffer_ok (fst (commit_span src b)) \<and> buffer_ok (consume n b)"
  using assms
  by (simp add: data_view_commit_span data_view_consume buffer_ok_commit_span buffer_ok_consume
      length_prepare length_data_view snd_commit_span buffer_ok_offset)

text \<open>
  \<open>streambuf::push_back\<close> always returns and appends exactly the given bytes to the stream,
  whatever buffers it has to allocate on the way; \<open>flush\<close> then hands out all of them in order.
\<close>

lemma push_back_appends:
  assumes "streambuf_ok bs"
  shows "\<exists>bs'. push_back_loop fill src bs = Some bs' \<and> push_back fill src bs = bs'
    \<and> streambuf_ok bs' \<and> contents (fst (flush bs')) = contents bs @ src \<and> snd (flush bs') = []"
  using push_back_loop_returns [OF assms, of fill src] by (auto simp: push_back_def flush_def)

end
