(* ===== verification/Http2_Protocol.thy ===== *)
theory Http2_Protocol
  imports Utils
begin

text \<open>
  The constants of the protocol (\<open>lib/protocol.h\<close>), the error codes with their category
  (\<open>lib/error.{h,cpp}\<close>) and the request methods (\<open>lib/method.{h,cpp}\<close>). Enumerators that the source
  stores in network order have their value as a function of the byte order of the host.
\<close>

section \<open>protocol.h\<close>

definition INITIAL_WINDOW_SIZE :: u32 where "INITIAL_WINDOW_SIZE = 65535"

datatype frame_type =
    DATA | HEADERS | PRIORITY | RST_STREAM | SETTINGS | PUSH_PROMISE | PING | GOAWAY | WINDOW_UPDATE | CONTINUATION

primrec frame_type_value :: "frame_type \<Rightarrow> byte" where
  "frame_type_value DATA = 0x0"
| "frame_type_value HEADERS = 0x1"
| "frame_type_value PRIORITY = 0x2"
| "frame_type_value RST_STREAM = 0x3"
| "frame_type_value SETTINGS = 0x4"
| "frame_type_value PUSH_PROMISE = 0x5"
| "frame_type_value PING = 0x6"
| "frame_type_value GOAWAY = 0x7"
| "frame_type_value WINDOW_UPDATE = 0x8"
| "frame_type_value CONTINUATION = 0x9"

datatype settings_type =
    SETTINGS_HEADER_TABLE_SIZE
  | SETTINGS_ENABLE_PUSH
  | SETTINGS_MAX_CONCURRENT_STREAMS
  | SETTINGS_INITIAL_WINDOW_SIZE
  | SETTINGS_MAX_FRAME_SIZE
  | SETTINGS_MAX_HEADER_LIST_SIZE
  | SETTINGS_ENABLE_CONNECT_PROTOCOL

primrec settings_type_code :: "settings_type \<Rightarrow> u16" where
  "settings_type_code SETTINGS_HEADER_TABLE_SIZE = 1"
| "settings_type_code SETTINGS_ENABLE_PUSH = 2"
| "settings_type_code SETTINGS_MAX_CONCURRENT_STREAMS = 3"
| "settings_type_code SETTINGS_INITIAL_WINDOW_SIZE = 4"
| "settings_type_code SETTINGS_MAX_FRAME_SIZE = 5"
| "settings_type_code SETTINGS_MAX_HEADER_LIST_SIZE = 6"
| "settings_type_code SETTINGS_ENABLE_CONNECT_PROTOCOL = 8"

definition settings_type_value :: "byte_order \<Rightarrow> settings_type \<Rightarrow> u16" where
  "settings_type_value native t = native_to_big16 native (settings_type_code t)"

datatype push_state = push_DISABLED | push_ENABLED

primrec push_state_value :: "byte_order \<Rightarrow> push_state \<Rightarrow> u32" where
  "push_state_value native push_DISABLED = 0"
| "push_state_value native push_ENABLED = native_to_big32 native 1"

datatype connection_protocol_state = connection_DISABLED | connection_ENABLED

record settings =
  set_header_table_size :: u32
  set_enable_push :: push_state
  set_max_concurrent_streams :: u32
  set_initial_window_size :: u32
  set_max_frame_size :: u32
  set_max_header_list_size :: u32
  set_connection_protocol :: connection_protocol_state

definition settings_default :: settings where
  "settings_default = \<lparr>
     set_header_table_size = 4096,
     set_enable_push = push_DISABLED,
     set_max_concurrent_streams = 100,
     set_initial_window_size = INITIAL_WINDOW_SIZE,
     set_max_frame_size = 16384,
     set_max_header_list_size = - 1,
     set_connection_protocol = connection_DISABLED\<rparr>"

definition END_STREAM :: byte where "END_STREAM = 0x1"
definition ACK :: byte where "ACK = 0x1"
definition END_HEADERS :: byte where "END_HEADERS = 0x4"
definition PADDED :: byte where "PADDED = 0x8"
definition PRIORITY_FLAG :: byte where "PRIORITY_FLAG = 0x20"

definition has_flag :: "byte \<Rightarrow> byte \<Rightarrow> bool" where
  "has_flag flags f \<longleftrightarrow> flags AND f \<noteq> 0"

section \<open>error.h, error.cpp\<close>

datatype error_code =
    IS_OK
  | PROTOCOL_ERROR
  | INTERNAL_ERROR
  | FLOW_CONTROL_ERROR
  | SETTINGS_TIMEOUT
  | STREAM_CLOSED
  | FRAME_SIZE_ERROR
  | REFUSED_STREAM
  | CANCEL
  | COMPRESSION_ERROR
  | CONNECT_ERROR
  | ENHANCE_YOUR_CALM
  | INADEQUATE_SECURITY
  | HTTP_1_1_REQUIRED

primrec error_code_number :: "error_code \<Rightarrow> u32" where
  "error_code_number IS_OK = 0"
| "error_code_number PROTOCOL_ERROR = 1"
| "error_code_number INTERNAL_ERROR = 2"
| "error_code_number FLOW_CONTROL_ERROR = 3"
| "error_code_number SETTINGS_TIMEOUT = 4"
| "error_code_number STREAM_CLOSED = 5"
| "error_code_number FRAME_SIZE_ERROR = 6"
| "error_code_number REFUSED_STREAM = 7"
| "error_code_number CANCEL = 8"
| "error_code_number COMPRESSION_ERROR = 9"
| "error_code_number CONNECT_ERROR = 10"
| "error_code_number ENHANCE_YOUR_CALM = 11"
| "error_code_number INADEQUATE_SECURITY = 12"
| "error_code_number HTTP_1_1_REQUIRED = 13"

text \<open>The enumerators are in network order, so that they can be copied to and from frames.\<close>

definition error_code_value :: "byte_order \<Rightarrow> error_code \<Rightarrow> u32" where
  "error_code_value native e = native_to_big32 native (error_code_number e)"

definition make_error_code :: "u32 \<Rightarrow> error_value" where
  "make_error_code e = http2_error e"

definition category_failed :: "u32 \<Rightarrow> bool" where
  "category_failed ev \<longleftrightarrow> ev \<noteq> 0"

text \<open>\<open>boost::system::error_code::operator bool\<close>: the category decides whether a value is a failure.\<close>

primrec ec_failed :: "error_value \<Rightarrow> bool" where
  "ec_failed no_error = False"
| "ec_failed (http2_error ev) = category_failed ev"
| "ec_failed (asio_error e) = True"
| "ec_failed (io_error e) = True"

definition str_errors :: "(error_code \<times> string) list" where
  "str_errors = [
     (IS_OK, ''No error''),
     (PROTOCOL_ERROR, ''Protocol error''),
     (INTERNAL_ERROR, ''Internal error''),
     (FLOW_CONTROL_ERROR, ''Flow control error''),
     (SETTINGS_TIMEOUT, ''Settings timeout''),
     (STREAM_CLOSED, ''Stream closed''),
     (FRAME_SIZE_ERROR, ''Frame size error''),
     (REFUSED_STREAM, ''Refused stream''),
     (CANCEL, ''Canceled''),
     (COMPRESSION_ERROR, ''Compression error''),
     (CONNECT_ERROR, ''Connect error''),
     (ENHANCE_YOUR_CALM, ''Enhace your calm''),
     (INADEQUATE_SECURITY, ''Inadequate security''),
     (HTTP_1_1_REQUIRED, ''HTTP1.1 required'')]"

text \<open>The conversion \<open>%d\<close> of \<open>snprintf\<close>.\<close>

fun show_nat :: "nat \<Rightarrow> string" where
  "show_nat n = (if n < 10 then [char_of (48 + n)] else show_nat (n div 10) @ [char_of (48 + n mod 10)])"

definition show_int :: "int \<Rightarrow> string" where
  "show_int i = (if i < 0 then ''-'' @ show_nat (nat (- i)) else show_nat (nat i))"

definition overwrite :: "string \<Rightarrow> string \<Rightarrow> string" where
  "overwrite src buf = src @ drop (length src) buf"

definition snprintf :: "string \<Rightarrow> nat \<Rightarrow> string \<Rightarrow> string" where
  "snprintf buf len str = (if len = 0 then buf else overwrite (take (len - 1) str @ [CHR 0x00]) buf)"

text \<open>\<open>message\<close> into a buffer of \<open>len\<close> characters; the switch is a search for the enumerator.\<close>

definition message_buffer :: "byte_order \<Rightarrow> u32 \<Rightarrow> string \<Rightarrow> nat \<Rightarrow> string" where
  "message_buffer native ev buf len =
     (case find (\<lambda>(e, str). error_code_value native e = ev) str_errors of
        None \<Rightarrow> snprintf buf len (''Unknown HTTP2 error '' @ show_int (sint ev))
      | Some (e, str_error) \<Rightarrow> overwrite (take (min len (length str_error)) str_error) buf)"

definition error_message :: "byte_order \<Rightarrow> u32 \<Rightarrow> string" where
  "error_message native ev = message_buffer native ev (replicate 64 (CHR 0x00)) 64"

section \<open>method.h, method.cpp\<close>

datatype (plugins only:) http_method =
    ACL | BASELINE_CONTROL | BIND | CHECKIN | CHECKOUT | CONNECT | COPY | Delete | GET | HEAD | LABEL | LINK
  | LOCK | MERGE | MKACTIVITY | MKCALENDAR | MKCOL | MKREDIRECTREF | MKWORKSPACE | MOVE | OPTIONS | ORDERPATCH
  | PATCH | POST | PRI | PROPFIND | PROPPATCH | PUT | REBIND | REPORT | SEARCH | TRACE | UNBIND | UNCHECKOUT
  | UNLINK | UNLOCK | UPDATE | UPDATEREDIRECTREF | VERSION_CONTROL

definition methods :: "http_method list" where
  "methods = [
     ACL, BASELINE_CONTROL, BIND, CHECKIN, CHECKOUT, CONNECT, COPY, Delete, GET, HEAD, LABEL, LINK,
     LOCK, MERGE, MKACTIVITY, MKCALENDAR, MKCOL, MKREDIRECTREF, MKWORKSPACE, MOVE, OPTIONS, ORDERPATCH,
     PATCH, POST, PRI, PROPFIND, PROPPATCH, PUT, REBIND, REPORT, SEARCH, TRACE, UNBIND, UNCHECKOUT,
     UNLINK, UNLOCK, UPDATE, UPDATEREDIRECTREF, VERSION_CONTROL]"

definition method_strings :: "string list" where
  "method_strings = [
     ''ACL'', ''BASELINE_CONTROL'', ''BIND'', ''CHECKIN'', ''CHECKOUT'', ''CONNECT'', ''COPY'', ''DELETE'',
     ''GET'', ''HEAD'', ''LABEL'', ''LINK'', ''LOCK'', ''MERGE'', ''MKACTIVITY'', ''MKCALENDAR'', ''MKCOL'',
     ''MKREDIRECTREF'', ''MKWORKSPACE'', ''MOVE'', ''OPTIONS'', ''ORDERPATCH'', ''PATCH'', ''POST'', ''PRI'',
     ''PROPFIND'', ''PROPPATCH'', ''PUT'', ''REBIND'', ''REPORT'', ''SEARCH'', ''TRACE'', ''UNBIND'',
     ''UNCHECKOUT'', ''UNLINK'', ''UNLOCK'', ''UPDATE'', ''UPDATEREDIRECTREF'', ''VERSION_CONTROL'']"

text \<open>\<open>static_cast<unsigned>(cmd)\<close>: the position of the enumerator in its declaration.\<close>

fun position :: "'a list \<Rightarrow> 'a \<Rightarrow> nat" where
  "position [] x = 0"
| "position (y # ys) x = (if x = y then 0 else Suc (position ys x))"

definition to_string :: "http_method \<Rightarrow> string" where
  "to_string cmd = method_strings ! position methods cmd"

section \<open>Error codes and messages\<close>

lemma native_to_big32_inject: "native_to_big32 native x = native_to_big32 native y \<longleftrightarrow> x = y"
  by (metis native_to_big32_involution)

lemma native_to_big32_0 [simp]: "native_to_big32 native 0 = 0"
  by (simp add: native_to_big32_def)

lemma error_code_number_inject: "error_code_number e = error_code_number e' \<longleftrightarrow> e = e'"
  by (cases e; cases e'; simp)

lemma error_code_value_inject: "error_code_value native e = error_code_value native e' \<longleftrightarrow> e = e'"
  by (simp add: error_code_value_def native_to_big32_inject error_code_number_inject)

lemma category_failed_value [simp]: "category_failed (error_code_value native e) \<longleftrightarrow> e \<noteq> IS_OK"
  using error_code_value_inject [of native e IS_OK] by (simp add: category_failed_def error_code_value_def)

lemma str_errors_find:
  "find (\<lambda>(e, str). error_code_value native e = error_code_value native e') str_errors =
     find (\<lambda>(e, str). e = e') str_errors"
  by (simp add: error_code_value_inject)

declare show_nat.simps [simp del]

text \<open>Reading a decimal numeral back.\<close>

definition read_nat :: "string \<Rightarrow> nat" where
  "read_nat s = foldl (\<lambda>a c. a * 10 + (of_char c - 48)) 0 s"

lemma of_char_digit: "d < 10 \<Longrightarrow> of_char (char_of (48 + d) :: char) = (48 + d :: nat)"
  by (simp add: of_char_of)

lemma read_show_nat: "read_nat (show_nat n) = n"
proof (induction n rule: show_nat.induct)
  case (1 n)
  show ?case
  proof (cases "n < 10")
    case True
    then show ?thesis by (subst show_nat.simps) (simp add: read_nat_def of_char_digit)
  next
    case False
    then show ?thesis using 1 by (subst show_nat.simps) (simp add: read_nat_def of_char_digit)
  qed
qed

lemma show_nat_digits: "c \<in> set (show_nat n) \<Longrightarrow> 48 \<le> (of_char c :: nat) \<and> (of_char c :: nat) < 58"
proof (induction n rule: show_nat.induct)
  case (1 n)
  then show ?case
    by (subst (asm) (2) show_nat.simps) (auto simp: of_char_digit split: if_splits)
qed

lemma show_nat_nonempty: "show_nat n \<noteq> []"
  by (subst show_nat.simps) simp

lemma show_int_inject: "show_int i = show_int j \<longleftrightarrow> i = j"
proof -
  have neg: "show_nat m \<noteq> CHR ''-'' # s" for m s using show_nat_digits [of "CHR ''-''" m] by auto
  have "show_nat m = show_nat n \<longleftrightarrow> m = n" for m n by (metis read_show_nat)
  then show ?thesis using neg [symmetric] neg by (auto simp: show_int_def)
qed

lemma show_nat_length: "n < 10 ^ Suc k \<Longrightarrow> length (show_nat n) \<le> Suc k"
proof (induction k arbitrary: n)
  case 0
  then show ?case by (subst show_nat.simps) simp
next
  case (Suc k)
  then have "n div 10 < 10 ^ Suc k" by (simp add: div_less_iff_less_mult)
  from Suc.IH [OF this] show ?case by (subst show_nat.simps) simp
qed

text \<open>The text of a value, without the padding of the buffer.\<close>

definition error_text :: "byte_order \<Rightarrow> u32 \<Rightarrow> string" where
  "error_text native ev =
     (case find (\<lambda>(e, str). error_code_value native e = ev) str_errors of
        None \<Rightarrow> ''Unknown HTTP2 error '' @ show_int (sint ev)
      | Some (e, str_error) \<Rightarrow> str_error)"

lemma sint_u32_bounds: "- 2147483648 \<le> sint ev \<and> sint ev < 2147483648" for ev :: u32
  using sint_greater_eq [of ev] sint_less [of ev] by simp

lemma show_int_length: "length (show_int (sint ev)) \<le> 11" for ev :: u32
proof -
  have "nat (sint ev) < 10 ^ Suc 9" "nat (- sint ev) < 10 ^ Suc 9" using sint_u32_bounds [of ev] by auto
  then show ?thesis using show_nat_length [of "nat (sint ev)" 9] show_nat_length [of "nat (- sint ev)" 9]
    by (simp add: show_int_def)
qed

lemma show_int_no_nul: "c \<in> set (show_int i) \<Longrightarrow> c \<noteq> CHR 0x00"
  using show_nat_digits [of "CHR 0x00"] by (auto simp: show_int_def split: if_splits)

lemma str_errors_text:
  assumes "(e, str) \<in> set str_errors"
  shows "length str \<le> 19" "CHR 0x00 \<notin> set str" "str \<noteq> ''Unknown HTTP2 error '' @ s"
  using assms by (auto simp: str_errors_def)

lemma find_str_error: "find p str_errors = Some x \<Longrightarrow> x \<in> set str_errors"
  by (auto simp: find_Some_iff)

lemma error_message_text:
  "error_message native ev = error_text native ev @ replicate (64 - length (error_text native ev)) (CHR 0x00)"
  "CHR 0x00 \<notin> set (error_text native ev)" "length (error_text native ev) < 32"
proof -
  have "length (error_text native ev) < 32 \<and> CHR 0x00 \<notin> set (error_text native ev) \<and>
    error_message native ev = error_text native ev @ replicate (64 - length (error_text native ev)) (CHR 0x00)"
  proof (cases "find (\<lambda>(e, str). error_code_value native e = ev) str_errors")
    case None
    let ?t = "''Unknown HTTP2 error '' @ show_int (sint ev)"
    have t: "length ?t \<le> 31" "CHR 0x00 \<notin> set ?t" using show_int_length [of ev] show_int_no_nul by auto
    have "error_message native ev = (?t @ [CHR 0x00]) @ drop (length ?t + 1) (replicate 64 (CHR 0x00))"
      using t(1) None by (simp add: error_message_def message_buffer_def snprintf_def overwrite_def)
    also have "\<dots> = ?t @ replicate (64 - length ?t) (CHR 0x00)"
      using t(1) by (simp flip: replicate_Suc add: Suc_diff_Suc)
    finally show ?thesis using None t by (simp add: error_text_def)
  next
    case (Some x)
    obtain e str where x: "x = (e, str)" by (cases x)
    have "(e, str) \<in> set str_errors" using find_str_error Some x by blast
    note str_errors_text [OF this]
    then show ?thesis using Some x by (simp add: error_text_def error_message_def message_buffer_def overwrite_def)
  qed
  then show "error_message native ev = error_text native ev @ replicate (64 - length (error_text native ev)) (CHR 0x00)"
    "CHR 0x00 \<notin> set (error_text native ev)" "length (error_text native ev) < 32" by blast+
qed

lemma find_str_errorD:
  "find (\<lambda>(e, str). error_code_value native e = ev) str_errors = Some (e', s) \<Longrightarrow>
    (e', s) \<in> set str_errors \<and> error_code_value native e' = ev"
  using find_str_error [of _ "(e', s)"] by (auto simp: find_Some_iff)

lemma error_text_cases:
  obtains (unknown) "error_text native ev = ''Unknown HTTP2 error '' @ show_int (sint ev)"
  | (known) e str where "error_text native ev = str" "(e, str) \<in> set str_errors" "ev = error_code_value native e"
proof (cases "find (\<lambda>(e, str). error_code_value native e = ev) str_errors")
  case None
  then have "error_text native ev = ''Unknown HTTP2 error '' @ show_int (sint ev)" by (simp add: error_text_def)
  then show ?thesis by (rule unknown)
next
  case (Some x)
  obtain e s where x: "x = (e, s)" by (cases x)
  from Some x have f: "find (\<lambda>(e, str). error_code_value native e = ev) str_errors = Some (e, s)" by simp
  then have "error_text native ev = s" by (simp add: error_text_def)
  then show ?thesis using find_str_errorD [OF f] by (intro known [of s e]) auto
qed

lemma str_errors_inject:
  assumes "(e, s) \<in> set str_errors" "(e', s) \<in> set str_errors"
  shows "e = e'"
proof -
  have "distinct (map snd str_errors)" by (simp add: str_errors_def)
  then have "inj_on snd (set str_errors)" by (simp add: distinct_map)
  from inj_onD [OF this _ assms] show ?thesis by simp
qed

lemma error_text_inject:
  assumes eq: "error_text native ev = error_text native ev'"
  shows "ev = ev'"
proof (rule error_text_cases [of native ev]; rule error_text_cases [of native ev'])
  assume "error_text native ev = ''Unknown HTTP2 error '' @ show_int (sint ev)"
    "error_text native ev' = ''Unknown HTTP2 error '' @ show_int (sint ev')"
  then have "show_int (sint ev) = show_int (sint ev')" using eq by simp
  then show ?thesis by (simp add: show_int_inject signed_word_eqI)
next
  fix e str assume "error_text native ev = str" "(e, str) \<in> set str_errors"
    "error_text native ev' = ''Unknown HTTP2 error '' @ show_int (sint ev')"
  with eq str_errors_text(3) [of e str "show_int (sint ev')"] show ?thesis by argo
next
  fix e str assume "error_text native ev' = str" "(e, str) \<in> set str_errors"
    "error_text native ev = ''Unknown HTTP2 error '' @ show_int (sint ev)"
  with eq str_errors_text(3) [of e str "show_int (sint ev)"] show ?thesis by argo
next
  fix e str e' str'
  assume "error_text native ev = str" "(e, str) \<in> set str_errors" "ev = error_code_value native e"
    and "error_text native ev' = str'" "(e', str') \<in> set str_errors" "ev' = error_code_value native e'"
  with eq str_errors_inject [of e str e'] show ?thesis by simp
qed

section \<open>Methods\<close>

lemma position_nth: "x \<in> set xs \<Longrightarrow> position xs x < length xs \<and> xs ! position xs x = x"
  by (induction xs) auto

lemma methods_UNIV: "set methods = UNIV"
proof -
  have "m \<in> set methods" for m by (cases m) (simp_all add: methods_def)
  then show ?thesis by auto
qed

lemma to_string_inject: "to_string m = to_string m' \<longleftrightarrow> m = m'"
proof -
  have len: "length methods = length method_strings" by (simp add: methods_def method_strings_def)
  have dist: "distinct method_strings" by (simp add: method_strings_def)
  have pos: "position methods m < length method_strings \<and> methods ! position methods m = m" for m
    using position_nth [of m methods] by (simp add: methods_UNIV len)
  show ?thesis unfolding to_string_def using pos [of m] pos [of m'] dist by (metis nth_eq_iff_index_eq)
qed

lemma to_string_ascii: "c \<in> set (to_string m) \<Longrightarrow> (of_char c :: nat) < 128"
  by (cases m) (auto simp: to_string_def methods_def method_strings_def)

section \<open>Properties\<close>

text \<open>
  The error category tells every value apart: the message of a code is 64 characters, the text
  and then NULs, and two 32-bit values have the same message only if they are the same value, the
  ones the enumeration does not name included. A code counts as a failure exactly when it is not
  \<open>IS_OK\<close>, on hosts of either byte order.
\<close>

lemma error_messages_distinct:
  "(error_message native ev = error_message native ev') = (ev = ev') \<and> length (error_message native ev) = 64 \<and>
   ec_failed (make_error_code (error_code_value native e)) = (e \<noteq> IS_OK)"
proof -
  have "takeWhile (\<lambda>c. c \<noteq> CHR 0x00) (error_message native v) = error_text native v" for v
    using error_message_text(2) [of native v] unfolding error_message_text(1)
    by (subst takeWhile_append2) (auto simp: takeWhile_eq_Nil_iff intro: ccontr)
  then have "error_message native ev = error_message native ev' \<longleftrightarrow> ev = ev'" using error_text_inject by metis
  then show ?thesis using error_message_text(3) [of native ev]
    by (simp add: error_message_text(1) make_error_code_def)
qed

end
