(* ===== verification/Http2_Frame.thy ===== *)
theory Http2_Frame
  imports Buffer Http2_Protocol
begin

text \<open>
  Frames as they are read (\<open>lib/frame.{h,cpp}\<close>). The source casts the bytes of a buffer to packed
  structs; here a frame is the span it starts at, and every member is read from its offset. A
  \<open>uint32_t\<close> member is loaded in the order of the host, a \<open>boost::endian::big_uint\<close> in network order.
  Members behind the payload are read from whatever memory follows, as in the source.
\<close>

section \<open>Headers\<close>

definition header_size :: nat where "header_size = 9"

definition slice :: "span \<Rightarrow> nat \<Rightarrow> nat \<Rightarrow> byte list" where
  "slice s off n = map (\<lambda>i. sp_mem s (int (off + i))) [0..<n]"

record frame_header =
  fh_length :: u32
  fh_type :: byte
  fh_flags :: byte
  fh_stream_id :: u32

definition frame_header :: "byte_order \<Rightarrow> span \<Rightarrow> frame_header" where
  "frame_header native s = \<lparr>
     fh_length = from_be (slice s 0 3),
     fh_type = sp_mem s 3,
     fh_flags = sp_mem s 4,
     fh_stream_id = load_native native (slice s 5 4)\<rparr>"

definition payload_size :: "byte_order \<Rightarrow> span \<Rightarrow> nat" where
  "payload_size native s = unat (fh_length (frame_header native s))"

section \<open>Payloads\<close>

text \<open>\<open>{begin + offset, size}\<close> with \<open>begin\<close> behind the header; the size is a \<open>size_t\<close> and may have wrapped.\<close>

definition payload_view :: "span \<Rightarrow> nat \<Rightarrow> u64 \<Rightarrow> span" where
  "payload_view s offset n = \<lparr>sp_mem = (\<lambda>i. sp_mem s (i + int (header_size + offset))), sp_len = unat n\<rparr>"

definition headers_block :: "byte_order \<Rightarrow> span \<Rightarrow> span" where
  "headers_block native s =
     (let flags = fh_flags (frame_header native s);
          (offset1, pad_length) = (if has_flag flags PADDED then (1, unat (sp_mem s (int header_size))) else (0, 0));
          offset2 = (if has_flag flags PRIORITY_FLAG then offset1 + 5 else offset1)
      in payload_view s offset2 (of_nat (payload_size native s) - of_nat offset2 - of_nat pad_length))"

definition frame_data :: "byte_order \<Rightarrow> span \<Rightarrow> span" where
  "frame_data native s =
     (let flags = fh_flags (frame_header native s);
          (offset, pad_length) = (if has_flag flags PADDED then (1, unat (sp_mem s (int header_size))) else (0, 0))
      in payload_view s offset (of_nat (payload_size native s) - of_nat offset - of_nat pad_length))"

definition continuation_block :: "byte_order \<Rightarrow> span \<Rightarrow> span" where
  "continuation_block native s = payload_view s 0 (of_nat (payload_size native s))"

definition reset_code :: "byte_order \<Rightarrow> span \<Rightarrow> u32" where
  "reset_code native s = load_native native (slice s header_size 4)"

definition window_size :: "span \<Rightarrow> u32" where
  "window_size s = from_be (slice s header_size 4)"

definition goaway_last_stream_id :: "byte_order \<Rightarrow> span \<Rightarrow> u32" where
  "goaway_last_stream_id native s = load_native native (slice s header_size 4)"

definition goaway_error :: "byte_order \<Rightarrow> span \<Rightarrow> u32" where
  "goaway_error native s = load_native native (slice s (header_size + 4) 4)"

definition goaway_additional :: "byte_order \<Rightarrow> span \<Rightarrow> span" where
  "goaway_additional native s = payload_view s 8 (of_nat (payload_size native s + header_size) - 17)"

record settings_item =
  si_type :: u16
  si_value :: u32

definition settings_item_size :: nat where "settings_item_size = 6"

definition settings_item_new :: "byte_order \<Rightarrow> settings_type \<Rightarrow> u32 \<Rightarrow> settings_item" where
  "settings_item_new native t v = \<lparr>si_type = settings_type_value native t, si_value = native_to_big32 native v\<rparr>"

definition settings_items :: "byte_order \<Rightarrow> span \<Rightarrow> settings_item list" where
  "settings_items native s =
     map (\<lambda>i. \<lparr>si_type = load_native native (slice s (header_size + settings_item_size * i) 2),
               si_value = load_native native (slice s (header_size + settings_item_size * i + 2) 4)\<rparr>)
       [0..<payload_size native s div settings_item_size]"

section \<open>frame_analyzer\<close>

definition frame_analyzer_new :: "byte_order \<Rightarrow> span \<Rightarrow> span" where
  "frame_analyzer_new native b = first_span (min (header_size + payload_size native b) (sp_len b)) b"

definition from_buffer :: "byte_order \<Rightarrow> span \<Rightarrow> span result" where
  "from_buffer native b = (if sp_len b < header_size then Inl length_error else Inr (frame_analyzer_new native b))"

definition frame_size :: "byte_order \<Rightarrow> span \<Rightarrow> nat" where
  "frame_size native fa = header_size + payload_size native fa"

definition is_complete :: "byte_order \<Rightarrow> span \<Rightarrow> bool" where
  "is_complete native fa \<longleftrightarrow> frame_size native fa \<le> sp_len fa"

text \<open>The members of \<open>check_table\<close> have empty bodies; the table has one for every known type.\<close>

definition check_table :: "unit result list" where
  "check_table = replicate 10 (Inr ())"

definition frame_check :: "byte_order \<Rightarrow> nat \<Rightarrow> span \<Rightarrow> unit result" where
  "frame_check native max_frame_size fa =
     (let h = frame_header native fa
      in if fh_type h > frame_type_value CONTINUATION
         then Inl (system_error (make_error_code (error_code_value native PROTOCOL_ERROR)))
         else if payload_size native fa > max_frame_size
         then Inl (system_error (make_error_code (error_code_value native FRAME_SIZE_ERROR)))
         else check_table ! unat (fh_type h))"

definition get_frame :: "byte_order \<Rightarrow> frame_type \<Rightarrow> span \<Rightarrow> span result" where
  "get_frame native t fa =
     (if fh_type (frame_header native fa) \<noteq> frame_type_value t then Inl runtime_error else Inr fa)"

definition frame_payload :: "span \<Rightarrow> span" where
  "frame_payload fa = subspan header_size fa"

section \<open>The wire format\<close>

text \<open>The bytes of a frame; \<open>sid\<close> is the stream identifier as the host has it in the struct.\<close>

definition wire_frame :: "byte_order \<Rightarrow> byte \<Rightarrow> byte \<Rightarrow> u32 \<Rightarrow> byte list \<Rightarrow> byte list" where
  "wire_frame native t flags sid payload =
     be_bytes 3 (of_nat (length payload) :: u32) @ [t, flags] @ store_native native 4 sid @ payload"

lemma length_wire_frame [simp]: "length (wire_frame native t flags sid payload) = header_size + length payload"
  by (simp add: wire_frame_def header_size_def)

lemma slice_eq: "off + n \<le> sp_len s \<Longrightarrow> slice s off n = take n (drop off (span_bytes s))"
  by (rule nth_equalityI) (auto simp: slice_def)

lemma length_slice [simp]: "length (slice s off n) = n"
  by (simp add: slice_def)

lemma slice_first_span [simp]: "slice (first_span k s) off n = slice s off n"
  by (simp add: slice_def first_span_def)

lemma sp_mem_first_span [simp]: "sp_mem (first_span k s) = sp_mem s"
  by (simp add: first_span_def)

lemma frame_header_first_span [simp]: "frame_header native (first_span k s) = frame_header native s"
  by (simp add: frame_header_def)

lemma payload_size_first_span [simp]: "payload_size native (first_span k s) = payload_size native s"
  by (simp add: payload_size_def)

lemma sp_mem_nth: "i < sp_len s \<Longrightarrow> sp_mem s (int i) = span_bytes s ! i"
  by simp

lemma from_be_3:
  assumes "n < 2 ^ 24"
  shows "(from_be (be_bytes 3 (of_nat n :: u32)) :: u32) = of_nat n"
proof -
  have "be_bytes 4 (of_nat n :: u32) = 0 # be_bytes 3 (of_nat n :: u32)"
  proof -
    have "drop_bit 24 (of_nat n :: u32) = 0"
      using assms by (intro word_unat_eq_iff [THEN iffD2]) (simp add: unat_drop_bit unat_of_nat)
    then show ?thesis using be_bytes_Suc [of 3 "of_nat n :: u32"] by (simp add: numeral_eq_Suc)
  qed
  moreover have "(from_be (0 # bs) :: u32) = from_be bs" for bs by (simp add: from_be_def)
  ultimately show ?thesis using from_be_be_bytes [of 4 "of_nat n :: u32"] by simp
qed

text \<open>The header of a frame is in its first nine bytes.\<close>

lemma wire_frame_prefix:
  assumes "take header_size (span_bytes s) = take header_size (wire_frame native t flags sid payload)" "header_size \<le> sp_len s"
    and "length payload < 2 ^ 24"
  shows "frame_header native s = \<lparr>fh_length = of_nat (length payload), fh_type = t, fh_flags = flags, fh_stream_id = sid\<rparr>"
    and "payload_size native s = length payload"
proof -
  have len: "9 \<le> sp_len s" using assms(2) by (simp add: header_size_def)
  let ?w = "be_bytes 3 (of_nat (length payload) :: u32)"
  have b: "take 9 (span_bytes s) = ?w @ [t, flags] @ store_native native 4 sid"
    using assms(1) by (simp add: wire_frame_def header_size_def)
  have sl: "slice s off n = take n (drop off (take 9 (span_bytes s)))" if "off + n \<le> 9" for off n
    using that len by (simp add: slice_eq take_drop min_def)
  have "slice s 0 3 = ?w" "slice s 5 4 = store_native native 4 sid"
    by (simp_all add: sl del: take_take) (simp_all add: b)
  moreover have "sp_mem s (int i) = take 9 (span_bytes s) ! i" if "i < 9" for i using that len by simp
  from this [of 3] this [of 4] have "sp_mem s (int 3) = t" "sp_mem s (int 4) = flags"
    by (simp_all add: b nth_append del: nth_take)
  ultimately show h: "frame_header native s = \<lparr>fh_length = of_nat (length payload), fh_type = t, fh_flags = flags, fh_stream_id = sid\<rparr>"
    using assms(3) by (simp add: frame_header_def from_be_3 load_store_native)
  show "payload_size native s = length payload"
    using assms(3) by (simp add: payload_size_def h unat_of_nat)
qed

lemma wire_frame_header:
  assumes "span_bytes s = wire_frame native t flags sid payload @ rest" "length payload < 2 ^ 24"
  shows "frame_header native s = \<lparr>fh_length = of_nat (length payload), fh_type = t, fh_flags = flags, fh_stream_id = sid\<rparr>"
    and "payload_size native s = length payload"
proof -
  have "sp_len s = header_size + length payload + length rest" using arg_cong [OF assms(1), of length] by simp
  then show "frame_header native s = \<lparr>fh_length = of_nat (length payload), fh_type = t, fh_flags = flags, fh_stream_id = sid\<rparr>"
    and "payload_size native s = length payload"
    using wire_frame_prefix [of s native t flags sid payload] assms by simp_all
qed

lemma payload_size_less: "payload_size native s < 2 ^ 24"
proof -
  have "fh_length (frame_header native s) = (from_be (slice s 0 3) :: u32)" by (simp add: frame_header_def)
  moreover have "unat (from_be bs :: u32) < 2 ^ 24" if len: "length bs = 3" for bs
  proof -
    obtain a b c where "bs = [a, b, c]" using len by (auto simp: numeral_3_eq_3 length_Suc_conv)
    moreover have small: "bit x i \<Longrightarrow> i < 8" for x :: byte and i using bit_imp_le_length [of x i] by simp
    ultimately have "bit (from_be bs :: u32) i \<Longrightarrow> i < 24" for i
      by (auto simp: from_be_def bit_simps dest!: small)
    then have "(from_be bs :: u32) = take_bit 24 (from_be bs)" by (auto intro!: bit_word_eqI simp: bit_take_bit_iff)
    then show ?thesis
      using take_bit_nat_less_exp [of 24 "unat (from_be bs :: u32)"] by (metis unsigned_take_bit_eq)
  qed
  ultimately show ?thesis by (simp add: payload_size_def)
qed

section \<open>Views of the payload\<close>

text \<open>The padding and the priority fields a frame announces: offset of the content and length of the padding.\<close>

definition content_offset :: "byte_order \<Rightarrow> bool \<Rightarrow> span \<Rightarrow> nat" where
  "content_offset native prio s =
     (if has_flag (fh_flags (frame_header native s)) PADDED then 1 else 0) +
     (if prio \<and> has_flag (fh_flags (frame_header native s)) PRIORITY_FLAG then 5 else 0)"

definition padding :: "byte_order \<Rightarrow> span \<Rightarrow> nat" where
  "padding native s =
     (if has_flag (fh_flags (frame_header native s)) PADDED then unat (sp_mem s (int header_size)) else 0)"

lemma payload_views:
  "headers_block native s = payload_view s (content_offset native True s)
     (of_nat (payload_size native s) - of_nat (content_offset native True s) - of_nat (padding native s))"
  "frame_data native s = payload_view s (content_offset native False s)
     (of_nat (payload_size native s) - of_nat (content_offset native False s) - of_nat (padding native s))"
  by (simp_all add: headers_block_def frame_data_def content_offset_def padding_def Let_def)

lemma content_small: "content_offset native prio s \<le> 6" "padding native s < 256"
  using unat_byte_less [of "sp_mem s (int header_size)"] by (simp_all add: content_offset_def padding_def)

lemma unat_sub2:
  assumes "n < 2 ^ 24" "k \<le> 6" "p < 256"
  shows "k + p \<le> n \<Longrightarrow> unat (of_nat n - of_nat k - of_nat p :: u64) = n - (k + p)"
    and "n < k + p \<Longrightarrow> 2 ^ 64 - 262 < unat (of_nat n - of_nat k - of_nat p :: u64)"
proof -
  have sub: "(of_nat n - of_nat k - of_nat p :: u64) = of_nat n - of_nat (k + p)" by simp
  have u: "unat (of_nat m :: u64) = m" if "m < 2 ^ 24" for m using that by (simp add: unat_of_nat)
  have kp: "k + p < 2 ^ 24" using assms by simp
  show "unat (of_nat n - of_nat k - of_nat p :: u64) = n - (k + p)" if "k + p \<le> n"
    unfolding sub using that assms(1) kp by (subst unat_sub) (simp_all add: u word_le_nat_alt del: of_nat_add)
  show "2 ^ 64 - 262 < unat (of_nat n - of_nat k - of_nat p :: u64)" if "n < k + p"
  proof -
    have "of_nat n - of_nat (k + p) = (- of_nat (k + p - n) :: u64)" using that by (simp add: of_nat_diff)
    moreover have "unat (- of_nat (k + p - n) :: u64) = 2 ^ 64 - (k + p - n)"
    proof -
      have "(- of_nat (k + p - n) :: u64) = of_nat (2 ^ 64 - (k + p - n))"
        using kp by (subst of_nat_diff) (simp_all del: of_nat_diff)
      then show ?thesis using that by (simp only: unat_of_nat) simp
    qed
    ultimately show ?thesis unfolding sub using that assms by simp
  qed
qed

lemma payload_view_bytes:
  assumes "header_size + off + unat n \<le> sp_len s"
  shows "span_bytes (payload_view s off n) = take (unat n) (drop (header_size + off) (span_bytes s))"
  using assms by (intro nth_equalityI) (auto simp: payload_view_def add.commute)

lemma sp_len_payload_view [simp]: "sp_len (payload_view s off n) = unat n"
  by (simp add: payload_view_def)

lemma payload_view_cases:
  assumes "is_complete native s"
  defines "v \<equiv> \<lambda>prio. payload_view s (content_offset native prio s)
     (of_nat (payload_size native s) - of_nat (content_offset native prio s) - of_nat (padding native s))"
  shows "if content_offset native prio s + padding native s \<le> payload_size native s
    then span_bytes (v prio) = take (payload_size native s - (content_offset native prio s + padding native s))
           (drop (header_size + content_offset native prio s) (span_bytes s))
    else 2 ^ 64 - 262 < sp_len (v prio)"
proof -
  note u = unat_sub2 [OF payload_size_less [of native s] content_small(1) [of native prio s] content_small(2) [of native s]]
  show ?thesis
    using u assms(1) by (auto simp: v_def payload_view_bytes is_complete_def frame_size_def)
qed

section \<open>Frames in a stream of bytes\<close>

text \<open>The first frame of a list of bytes, when all of it is there, and the rest.\<close>

definition next_frame :: "byte list \<Rightarrow> (byte list \<times> byte list) option" where
  "next_frame bs =
     (let n = header_size + unat (from_be (take 3 bs) :: u32)
      in if header_size \<le> length bs \<and> n \<le> length bs then Some (take n bs, drop n bs) else None)"

lemma payload_size_bytes:
  "header_size \<le> sp_len s \<Longrightarrow> payload_size native s = unat (from_be (take 3 (span_bytes s)) :: u32)"
  by (simp add: payload_size_def frame_header_def slice_eq header_size_def)

lemma from_buffer_next_frame:
  assumes "from_buffer native b = Inr fa"
  shows "header_size \<le> sp_len fa" "sp_len fa \<le> sp_len b" "sp_mem fa = sp_mem b"
    "frame_header native fa = frame_header native b"
    "is_complete native fa \<longleftrightarrow> frame_size native b \<le> sp_len b"
    "is_complete native fa \<Longrightarrow> next_frame (span_bytes b) = Some (span_bytes fa, drop (sp_len fa) (span_bytes b))"
    "\<not> is_complete native fa \<Longrightarrow> fa = b \<and> next_frame (span_bytes b) = None"
proof -
  have len: "header_size \<le> sp_len b" and fa: "fa = first_span (min (frame_size native b) (sp_len b)) b"
    using assms by (auto simp: from_buffer_def frame_analyzer_new_def frame_size_def split: if_splits)
  show "header_size \<le> sp_len fa" "sp_len fa \<le> sp_len b" "sp_mem fa = sp_mem b"
    "frame_header native fa = frame_header native b"
    using len by (simp_all add: fa frame_size_def)
  show c: "is_complete native fa \<longleftrightarrow> frame_size native b \<le> sp_len b"
    by (auto simp: is_complete_def frame_size_def fa)
  have n: "header_size + unat (from_be (take 3 (span_bytes b)) :: u32) = frame_size native b"
    by (simp add: frame_size_def payload_size_bytes [OF len])
  show "next_frame (span_bytes b) = Some (span_bytes fa, drop (sp_len fa) (span_bytes b))" if "is_complete native fa"
    using that len unfolding c by (simp add: next_frame_def Let_def n fa)
  show "fa = b \<and> next_frame (span_bytes b) = None" if "\<not> is_complete native fa"
    using that unfolding c by (simp add: next_frame_def Let_def n fa first_span_def)
qed

lemma next_frame_wire:
  "length payload < 2 ^ 24 \<Longrightarrow> next_frame (wire_frame native t flags sid payload @ rest) =
     Some (wire_frame native t flags sid payload, rest)"
proof -
  assume len: "length payload < 2 ^ 24"
  have "take 3 (wire_frame native t flags sid payload @ rest) = be_bytes 3 (of_nat (length payload) :: u32)"
    by (simp add: wire_frame_def)
  then have "unat (from_be (take 3 (wire_frame native t flags sid payload @ rest)) :: u32) = length payload"
    using len by (simp only: from_be_3) (simp add: unat_of_nat)
  then show ?thesis by (simp add: next_frame_def Let_def)
qed

section \<open>Properties\<close>

text \<open>
  \<open>frame_analyzer::from_buffer\<close> on the beginning of a stream of frames. With fewer than nine
  bytes it throws. Otherwise it finds the first frame: it has its header fields and its full
  size, is complete exactly when all of its bytes are there, and holds those bytes and none of
  the next frame.
\<close>

lemma frame_analyzer_exact:
  assumes "span_bytes b = take k (wire_frame native t flags sid payload @ rest)"
    and "length payload < 2 ^ 24" "k \<le> header_size + length payload + length rest"
  shows "if k < header_size then from_buffer native b = Inl length_error
    else \<exists>fa. from_buffer native b = Inr fa \<and> span_bytes fa = take k (wire_frame native t flags sid payload) \<and>
      frame_header native fa = \<lparr>fh_length = of_nat (length payload), fh_type = t, fh_flags = flags, fh_stream_id = sid\<rparr> \<and>
      frame_size native fa = header_size + length payload \<and>
      is_complete native fa = (header_size + length payload \<le> k)"
proof (cases "k < header_size")
  case True
  have "sp_len b = k" using arg_cong [OF assms(1), of length] assms(3) by simp
  with True show ?thesis by (simp add: from_buffer_def)
next
  case False
  have len: "sp_len b = k" using arg_cong [OF assms(1), of length] assms(3) by simp
  have "take header_size (span_bytes b) = take header_size (wire_frame native t flags sid payload)"
    using False assms(1) by (simp add: min_def)
  note h = wire_frame_prefix [OF this _ assms(2)]
  let ?fa = "first_span (min (header_size + length payload) k) b"
  have fa: "from_buffer native b = Inr ?fa"
    using False len h(2) by (simp add: from_buffer_def frame_analyzer_new_def)
  moreover have "span_bytes ?fa = take k (wire_frame native t flags sid payload)"
    using False len assms(1) by (simp add: min_def)
  ultimately show ?thesis using False h len
    by (simp only: if_False, intro exI [where x = ?fa]) (simp add: frame_size_def is_complete_def)
qed

text \<open>
  C29: the content of a complete HEADERS or DATA frame. When padding and priority fields fit in the
  payload, \<open>header_block\<close> and \<open>data\<close> return exactly the bytes between them. When they do not, the
  length wraps and the span reaches past the end of memory, since no check refuses such a frame.
\<close>

theorem payload_content:
  assumes "is_complete native s"
  shows "(if content_offset native True s + padding native s \<le> payload_size native s
      then span_bytes (headers_block native s) =
        take (payload_size native s - (content_offset native True s + padding native s))
          (drop (header_size + content_offset native True s) (span_bytes s))
      else 2 ^ 64 - 262 < sp_len (headers_block native s)) \<and>
    (if content_offset native False s + padding native s \<le> payload_size native s
      then span_bytes (frame_data native s) =
        take (payload_size native s - (content_offset native False s + padding native s))
          (drop (header_size + content_offset native False s) (span_bytes s))
      else 2 ^ 64 - 262 < sp_len (frame_data native s))"
  using payload_view_cases [OF assms, of True] payload_view_cases [OF assms, of False] unfolding payload_views
  by blast

theorem payload_content_witness:
  "2 ^ 64 - 262 < sp_len (frame_data little (span_of (\<lambda>_. 0) (wire_frame little 0 PADDED 0 [5])))"
proof -
  let ?s = "span_of (\<lambda>_. 0) (wire_frame little 0 PADDED 0 [5])"
  note h = wire_frame_header [of ?s little 0 PADDED 0 "[5]" "[]"]
  have "sp_mem ?s (int 9) = wire_frame little 0 PADDED 0 [5] ! 9" by (simp add: span_of_def header_size_def)
  also have "\<dots> = 5" by (simp add: wire_frame_def nth_append)
  finally have "padding little ?s = 5" using h by (simp add: padding_def has_flag_def PADDED_def header_size_def)
  moreover have "content_offset little False ?s = 1" using h by (simp add: content_offset_def has_flag_def PADDED_def)
  moreover have "is_complete little ?s" using h by (simp add: is_complete_def frame_size_def)
  ultimately show ?thesis using payload_content [of little ?s] h by simp
qed

end
