(* ===== verification/Http2_Frame_Members.thy ===== *)
theory Http2_Frame_Members
  imports Http2_Frame
begin

text \<open>
  The structs that frames are cast to (\<open>lib/frame.h\<close>): which struct a frame type has, its size, and the members
  behind the header. \<open>get_frame\<close> casts without looking at the size, so that this theory asks when the members lie
  inside the frame.
\<close>

section \<open>Structs\<close>

text \<open>The structs derived from \<open>header\<close>. They are packed, so that a size is the sum of the sizes of the members.\<close>

datatype frame_struct =
    data_frame_t | header_frame_t | priority_frame_t | reset_frame_t | settings_frame_t | pushpromise_frame_t
  | ping_frame_t | goaway_frame_t | window_update_frame_t | continuation_frame_t

fun FrameType :: "frame_type \<Rightarrow> frame_struct" where
  "FrameType DATA = data_frame_t"
| "FrameType HEADERS = header_frame_t"
| "FrameType PRIORITY = priority_frame_t"
| "FrameType RST_STREAM = reset_frame_t"
| "FrameType SETTINGS = settings_frame_t"
| "FrameType PUSH_PROMISE = pushpromise_frame_t"
| "FrameType PING = ping_frame_t"
| "FrameType GOAWAY = goaway_frame_t"
| "FrameType WINDOW_UPDATE = window_update_frame_t"
| "FrameType CONTINUATION = continuation_frame_t"

fun members_size :: "frame_struct \<Rightarrow> nat" where
  "members_size priority_frame_t = 4 + 1"
| "members_size reset_frame_t = 4"
| "members_size ping_frame_t = 8"
| "members_size goaway_frame_t = 4 + 4"
| "members_size window_update_frame_t = 4"
| "members_size _ = 0"

text \<open>The bytes of the members of a frame, and the members that no other theory reads.\<close>

definition members :: "frame_type \<Rightarrow> span \<Rightarrow> byte list" where
  "members t s = slice s header_size (members_size (FrameType t))"

definition priority_value :: "byte_order \<Rightarrow> span \<Rightarrow> u32" where
  "priority_value native s = load_native native (slice s header_size 4)"

definition priority_weight :: "span \<Rightarrow> byte" where
  "priority_weight s = sp_mem s (int (header_size + 4))"

definition ping_data :: "span \<Rightarrow> byte list" where
  "ping_data s = slice s header_size 8"

section \<open>Lemmas\<close>

lemma members_read:
  "reset_code native s = load_native native (members RST_STREAM s)"
  "window_size s = from_be (members WINDOW_UPDATE s)"
  "ping_data s = members PING s"
  "priority_value native s = load_native native (take 4 (members PRIORITY s))" "priority_weight s = members PRIORITY s ! 4"
  "goaway_last_stream_id native s = load_native native (take 4 (members GOAWAY s))"
  "goaway_error native s = load_native native (drop 4 (members GOAWAY s))"
  by (simp_all add: members_def reset_code_def window_size_def ping_data_def priority_value_def priority_weight_def
      goaway_last_stream_id_def goaway_error_def slice_def upt_rec header_size_def)

lemma complete_size:
  assumes "from_buffer native b = Inr fa" "is_complete native fa"
  shows "sp_len fa = header_size + payload_size native fa"
  using assms by (auto simp: from_buffer_def frame_analyzer_new_def is_complete_def frame_size_def first_span_def payload_size_def frame_header_def
      slice_def split: if_splits)

lemma members_inside:
  assumes "header_size + members_size (FrameType t) \<le> sp_len f" "span_bytes s = span_bytes f"
  shows "members t s = members t f"
proof -
  have "sp_len s = sp_len f" using arg_cong [OF assms(2), of length] by simp
  then show ?thesis using assms by (simp add: members_def slice_eq)
qed

lemma members_outside:
  assumes "header_size \<le> sp_len f" "sp_len f < header_size + members_size (FrameType t)"
  shows "\<exists>s. span_bytes s = span_bytes f \<and> members t s \<noteq> members t f"
proof -
  let ?s = "f\<lparr>sp_mem := (sp_mem f)(int (sp_len f) := sp_mem f (int (sp_len f)) + 1)\<rparr>"
  have "members t ?s ! (sp_len f - header_size) \<noteq> members t f ! (sp_len f - header_size)"
  proof -
    have k: "sp_len f - header_size < members_size (FrameType t)" "header_size + (sp_len f - header_size) = sp_len f" using assms by linarith+
    have nth: "members t s ! (sp_len f - header_size) = sp_mem s (int (sp_len f))" for s
      using k by (simp add: members_def slice_def flip: of_nat_add)
    show ?thesis by (simp add: nth)
  qed
  then have "members t ?s \<noteq> members t f" by metis
  moreover have "span_bytes ?s = span_bytes f" by (simp add: span_bytes_def)
  ultimately show ?thesis by blast
qed

section \<open>Properties\<close>



end
