(* ===== verification/Codec.thy ===== *)
theory Codec
  imports H2_Prelude
begin

text \<open>
  The contract of a self-delimiting byte encoding, as the HPACK decoder relies on it: what a
  decoder returns on input that starts with an encoded value. The integer and string codecs of
  the library provide it.
\<close>

locale codec =
  fixes encodes :: "'a \<Rightarrow> byte list \<Rightarrow> bool"
    and bytes :: "'i \<Rightarrow> byte list"
    and dec :: "'i \<Rightarrow> (nat \<times> 'a) result"
  assumes dec_encodes: "encodes x bs \<Longrightarrow> bytes s = bs @ rest \<Longrightarrow> dec s = Inr (length bs, x)"
    and bytes_surj: "\<exists>s. bytes s = xs"
begin

text \<open>No encoding is a proper prefix of another, so a concatenation splits in one way only.\<close>

lemma unambiguous:
  assumes "encodes x bs" and "encodes y cs" and "bs @ r = cs @ r'"
  shows "x = y \<and> bs = cs \<and> r = r'"
proof -
  obtain s where s: "bytes s = bs @ r" using bytes_surj by blast
  have "dec s = Inr (length bs, x)" by (rule dec_encodes [OF assms(1) s])
  moreover have "dec s = Inr (length cs, y)" using s assms(3) by (intro dec_encodes [OF assms(2)]) simp
  ultimately have "length bs = length cs" and "x = y" by auto
  with assms(3) show ?thesis by simp
qed

lemma encodes_inj: "encodes x bs \<Longrightarrow> encodes y bs \<Longrightarrow> x = y"
  using unambiguous [of x bs y bs "[]" "[]"] by simp

end

end
