(* ===== verification/Hpack_Integer.thy ===== *)
theory Hpack_Integer
  imports Utils Codec
begin

text \<open>
  HPACK's constants (\<open>lib/hpack/constants.h\<close>) and its variable-length integers
  (\<open>lib/hpack/integer.{h,cpp}\<close>): the command bytes, \<open>integer::encode\<close> and \<open>integer::decode\<close>,
  their round trip, and the bounds that keep the encoder inside its five-byte array.
\<close>

section \<open>Constants\<close>

datatype string_flag = INPLACE | ENCODED

fun string_flag_value :: "string_flag \<Rightarrow> byte" where
  "string_flag_value INPLACE = 0"
| "string_flag_value ENCODED = 0x80"

datatype command =
    INDEX
  | LITERAL_INCREMENTAL_INDEX
  | CHANGE_TABLE_SIZE
  | LITERAL_WITHOUT_INDEX
  | LITERAL_NEVER_INDEX

record cmd_info =
  ci_value :: byte
  ci_bitlen :: nat
  ci_mask :: byte

fun cmd_info_get :: "command \<Rightarrow> cmd_info" where
  "cmd_info_get INDEX = \<lparr>ci_value = 0x80, ci_bitlen = 1, ci_mask = 0x80\<rparr>"
| "cmd_info_get LITERAL_INCREMENTAL_INDEX = \<lparr>ci_value = 0x40, ci_bitlen = 2, ci_mask = 0xc0\<rparr>"
| "cmd_info_get CHANGE_TABLE_SIZE = \<lparr>ci_value = 0x20, ci_bitlen = 3, ci_mask = 0xe0\<rparr>"
| "cmd_info_get LITERAL_WITHOUT_INDEX = \<lparr>ci_value = 0x00, ci_bitlen = 4, ci_mask = 0xf0\<rparr>"
| "cmd_info_get LITERAL_NEVER_INDEX = \<lparr>ci_value = 0x10, ci_bitlen = 4, ci_mask = 0xf0\<rparr>"

section \<open>integer::encode\<close>

definition MAX_HPACK_INT :: "'a::len word" where
  "MAX_HPACK_INT = 2 ^ 24 - 16"

text \<open>
  An \<open>encoded_result\<close> is the list of the \<open>length\<close> bytes its \<open>as_span\<close> shows. The \<open>while\<close> loop
  with the final byte after it:
\<close>

function int_encode_loop :: "u32 \<Rightarrow> byte list" where
  "int_encode_loop src_value =
     (if src_value \<ge> 0x80
      then ((ucast src_value AND 0x7f) OR 0x80) # int_encode_loop (src_value div 128)
      else [ucast src_value AND 0x7f])"
  by pat_completeness auto
termination
proof (relation "measure unat")
  fix v :: u32
  assume "0x80 \<le> v"
  then have "128 \<le> unat v" by (simp add: word_le_nat_alt)
  then show "(v div 128, v) \<in> measure unat" by (simp add: unat_div_distrib)
qed simp

definition int_encode :: "byte \<Rightarrow> nat \<Rightarrow> u32 \<Rightarrow> byte list result" where
  "int_encode init bitlen src_value =
     (if src_value > MAX_HPACK_INT then Inl overflow_error
      else
        let mask = make_mask (8 - bitlen) :: byte
        in if src_value < ucast mask
           then Inr [init OR (ucast src_value AND mask)]
           else Inr ((init OR mask) # int_encode_loop (src_value - ucast mask)))"

definition int_encode_cmd :: "command \<Rightarrow> u32 \<Rightarrow> byte list result" where
  "int_encode_cmd cmd src_value =
     int_encode (ci_value (cmd_info_get cmd)) (ci_bitlen (cmd_info_get cmd)) src_value"

definition int_encode_flag :: "string_flag \<Rightarrow> u32 \<Rightarrow> byte list result" where
  "int_encode_flag f src_value = int_encode (string_flag_value f) 1 src_value"

section \<open>integer::decode\<close>

text \<open>
  The \<open>do ... while\<close> loop over the continuation bytes; \<open>used\<close> is the distance from the first
  byte. A shift of a \<open>uint64_t\<close> by 64 or more has no defined value.
\<close>

fun int_decode_loop :: "byte list \<Rightarrow> u64 \<Rightarrow> nat \<Rightarrow> nat \<Rightarrow> (nat \<times> u32) result" where
  "int_decode_loop [] value m used = Inl invalid_argument"
| "int_decode_loop (b # src) value m used =
     (if m \<ge> 64 then Inl undefined_behaviour
      else
        let value' = value + push_bit m (ucast (b AND 0x7f))
        in if value' > MAX_HPACK_INT then Inl overflow_error
           else if b AND 0x80 \<noteq> 0 then int_decode_loop src value' (m + 7) (used + 1)
           else Inr (used + 1, ucast value'))"

definition int_decode :: "nat \<Rightarrow> byte list \<Rightarrow> (nat \<times> u32) result" where
  "int_decode bit_suffix_len init_src =
     (if init_src = [] \<or> bit_suffix_len > 4 \<or> bit_suffix_len = 0 then Inl invalid_argument
      else
        let mask = make_mask (8 - bit_suffix_len) :: byte;
            value = ucast (hd init_src AND mask) :: u64
        in if value < ucast mask then Inr (1, ucast value)
           else int_decode_loop (tl init_src) value 0 1)"

section \<open>Arithmetic of the two loops\<close>

declare int_encode_loop.simps [simp del]

lemma unat_MAX_HPACK_INT: "unat (MAX_HPACK_INT :: u32) = 16777200" "unat (MAX_HPACK_INT :: u64) = 16777200"
  by (simp_all add: MAX_HPACK_INT_def)

lemma unat_push_bit_u64: "unat w * 2 ^ m < 2 ^ 64 \<Longrightarrow> unat (push_bit m w) = unat w * 2 ^ m" for w :: u64
proof -
  assume less: "unat w * 2 ^ m < 2 ^ 64"
  have "unat (push_bit m w) = take_bit 64 (push_bit m (unat w))"
    using unsigned_push_bit_eq [where n = m and w = w] by simp
  with less show ?thesis by (simp add: push_bit_eq_mult take_bit_nat_eq_self)
qed

lemma unat_add_u64: "unat v + unat w < 2 ^ 64 \<Longrightarrow> unat (v + w) = unat v + unat w" for v w :: u64
  by (subst unat_add_lem [THEN iffD1]) simp_all

lemma and_7f_mod: "unat (b AND 0x7f) = unat b mod 128" for b :: byte
proof -
  have "b AND 0x7f = take_bit 7 b" by (simp add: take_bit_eq_mask mask_eq_exp_minus_1)
  then show ?thesis by (simp add: take_bit_eq_mod unat_mod_distrib)
qed

lemma and_80_iff: "b AND 0x80 = 0 \<longleftrightarrow> unat b < 128" for b :: byte
proof -
  have "b AND 0x80 = 0 \<longleftrightarrow> \<not> bit b 7"
    using and_exp_eq_0_iff_not_bit [of b 7] by simp
  also have "\<dots> \<longleftrightarrow> unat b < 128"
  proof -
    have "bit b 7 = bit (unat b) 7" by (simp add: bit_unsigned_iff)
    also have "\<dots> \<longleftrightarrow> odd (unat b div 128)" by (simp only: bit_iff_odd) simp
    finally show ?thesis
      using unat_byte_less [of b] by (cases "unat b < 128") (simp_all add: le_div_geq)
  qed
  finally show ?thesis .
qed

lemma unat_ucast_byte_7f: "unat ((ucast v :: byte) AND 0x7f) = unat v mod 128" for v :: u32
  by (simp add: and_7f_mod unsigned_ucast_eq take_bit_eq_mod mod_mod_cancel)

lemma cont_byte:
  "((c AND 0x7f) OR 0x80) AND 0x7f = c AND 0x7f" "((c AND 0x7f) OR 0x80) AND 0x80 = 0x80" for c :: byte
  by (simp_all add: bit.conj_disj_distrib2 and.assoc)

section \<open>The loops undo each other\<close>

lemma decode_encode_loop:
  assumes "unat acc + unat v * 2 ^ m \<le> 16777200" and "m \<le> 28"
  shows "int_decode_loop (int_encode_loop v @ rest) acc m used =
    Inr (used + length (int_encode_loop v), of_nat (unat acc + unat v * 2 ^ m))"
  using assms
proof (induction v arbitrary: acc m used rule: int_encode_loop.induct)
  case (1 v)
  note p = "1.prems"
  define b where "b = (ucast v AND 0x7f :: byte)"
  have ub: "unat b = unat v mod 128" by (simp add: b_def unat_ucast_byte_7f)
  let ?acc = "acc + push_bit m (ucast b :: u64)"
  have split: "unat v = unat v div 128 * 128 + unat b" by (simp add: ub)
  have le: "unat b * 2 ^ m \<le> unat v * 2 ^ m" by (simp add: ub)
  have bound: "unat acc + unat b * 2 ^ m \<le> 16777200" using le p by linarith
  then have "unat b * 2 ^ m < 2 ^ 64" by simp
  then have "unat (push_bit m (ucast b :: u64)) = unat b * 2 ^ m"
    using unat_push_bit_u64 [of "ucast b" m] by simp
  then have acc: "unat ?acc = unat acc + unat b * 2 ^ m"
    using bound by (subst unat_add_u64) simp_all
  then have small: "\<not> ?acc > MAX_HPACK_INT"
    using bound by (simp add: word_less_nat_alt unat_MAX_HPACK_INT)
  show ?case
  proof (cases "v \<ge> 0x80")
    case True
    have 7: "(2::nat) ^ (m + 7) = 2 ^ m * 128" by (simp add: power_add)
    have v': "unat (v div 128) = unat v div 128" by (simp add: unat_div_distrib)
    have "unat v * 2 ^ m = (unat v div 128 * 128 + unat b) * 2 ^ m"
      using split by simp
    then have sum: "unat ?acc + unat (v div 128) * 2 ^ (m + 7) = unat acc + unat v * 2 ^ m"
      unfolding acc v' 7 by (simp add: algebra_simps)
    have "m + 7 \<le> 28"
    proof (rule ccontr)
      assume "\<not> m + 7 \<le> 28"
      then have "(2::nat) ^ 22 \<le> 2 ^ m" by (intro power_increasing) simp_all
      moreover have "128 \<le> unat v" using True by (simp add: word_le_nat_alt)
      ultimately have "128 * 2 ^ 22 \<le> unat v * 2 ^ m" by (rule mult_le_mono [rotated])
      with p show False by simp
    qed
    moreover have "unat ?acc + unat (v div 128) * 2 ^ (m + 7) \<le> 16777200"
      using p(1) unfolding sum .
    ultimately have "int_decode_loop (int_encode_loop (v div 128) @ rest) ?acc (m + 7) (used + 1) =
        Inr (used + 1 + length (int_encode_loop (v div 128)), of_nat (unat acc + unat v * 2 ^ m))"
      using "1.IH" [OF True, of ?acc "m + 7" "used + 1"] unfolding sum by blast
    moreover have "int_encode_loop v = (b OR 0x80) # int_encode_loop (v div 128)"
      using True by (subst int_encode_loop.simps) (simp add: b_def)
    moreover have "(b OR 0x80) AND 0x7f = b" and "(b OR 0x80) AND 0x80 \<noteq> 0"
      by (simp_all add: b_def cont_byte)
    ultimately show ?thesis
      using small p(2) by (simp add: Let_def)
  next
    case False
    then have "unat v < 128" by (simp add: word_le_nat_alt)
    then have uv: "unat b = unat v" by (simp add: ub)
    have "b AND 0x80 = 0" using uv \<open>unat v < 128\<close> by (simp add: and_80_iff)
    moreover have "b AND 0x7f = b" by (simp add: b_def and.assoc)
    moreover have "(ucast ?acc :: u32) = of_nat (unat acc + unat v * 2 ^ m)"
      unfolding uv [symmetric] acc [symmetric] by simp
    moreover have "int_encode_loop v = [b]"
      using False by (subst int_encode_loop.simps) (simp add: b_def)
    ultimately show ?thesis
      using small p(2) by (simp add: Let_def)
  qed
qed

lemma length_int_encode_loop: "unat v < 128 ^ Suc n \<Longrightarrow> length (int_encode_loop v) \<le> Suc n"
proof (induction v arbitrary: n rule: int_encode_loop.induct)
  case (1 v)
  show ?case
  proof (cases "v \<ge> 0x80")
    case True
    then have "128 \<le> unat v" by (simp add: word_le_nat_alt)
    with "1.prems" obtain k where n: "n = Suc k" by (cases n) auto
    have "unat (v div 128) < 128 ^ Suc k"
      using "1.prems" n by (simp add: unat_div_distrib less_mult_imp_div_less mult.commute)
    with True have "length (int_encode_loop (v div 128)) \<le> Suc k" by (rule "1.IH")
    with True n show ?thesis by (subst int_encode_loop.simps) simp
  next
    case False
    then show ?thesis by (subst int_encode_loop.simps) simp
  qed
qed

section \<open>encode and decode\<close>

lemma unat_prefix_mask: "unat (make_mask (8 - k) :: byte) = 2 ^ (8 - k) - 1"
  by (simp add: unat_make_mask)

lemma int_encode_ok: "v \<le> MAX_HPACK_INT \<longleftrightarrow> (\<exists>bs. int_encode init k v = Inr bs)"
  by (auto simp: int_encode_def Let_def not_less)

lemma int_encode_nonempty: "int_encode init k v = Inr bs \<Longrightarrow> bs \<noteq> []"
  by (auto simp: int_encode_def Let_def split: if_splits)

lemma int_encode_length:
  assumes "int_encode init k v = Inr bs"
  shows "length bs \<le> 5"
proof -
  have v: "unat v \<le> 16777200"
    using assms by (auto simp: int_encode_def word_less_nat_alt unat_MAX_HPACK_INT split: if_splits)
  have "length (int_encode_loop (v - w)) \<le> Suc 3" if "w \<le> v" for w
    using v that unat_sub [OF that] by (intro length_int_encode_loop) simp
  then show ?thesis
    using assms by (auto simp: int_encode_def Let_def not_less split: if_splits)
qed

text \<open>The first byte keeps the command bits of \<open>init\<close> above the prefix.\<close>

lemma int_encode_first:
  assumes "int_encode init k v = Inr bs"
  shows "\<exists>p. hd bs = init OR p AND make_mask (8 - k)"
  using assms
  by (auto simp: int_encode_def Let_def split: if_splits intro: exI [where x = "make_mask (8 - k)"])

lemma or_and_mask: "init AND m = 0 \<Longrightarrow> (init OR (x AND m)) AND m = x AND m" for init m x :: byte
  by (simp add: bit.conj_disj_distrib2 and.assoc)

lemma int_decode_encode:
  assumes enc: "int_encode init k v = Inr bs" and k: "1 \<le> k" "k \<le> 4"
    and init: "init AND make_mask (8 - k) = 0"
  shows "int_decode k (bs @ rest) = Inr (length bs, v)"
proof -
  define m where "m = (make_mask (8 - k) :: byte)"
  have m: "unat m = 2 ^ (8 - k) - 1" unfolding m_def by (rule unat_prefix_mask)
  have init_m: "init AND m = 0" using init by (simp add: m_def)
  have v: "unat v \<le> 16777200"
    using enc by (auto simp: int_encode_def word_less_nat_alt unat_MAX_HPACK_INT split: if_splits)
  show ?thesis
  proof (cases "v < ucast m")
    case True
    then have uv: "unat v < 2 ^ (8 - k) - 1" using m by (simp add: word_less_nat_alt)
    have "(2::nat) ^ (8 - k) \<le> 2 ^ 8" using k by (intro power_increasing) simp_all
    with uv have v256: "unat v < 256" by simp
    have "unat ((ucast v :: byte) AND m) = unat v"
    proof -
      have "(ucast v :: byte) AND m = take_bit (8 - k) (ucast v)"
        by (simp add: m_def make_mask_eq_mask take_bit_eq_mask)
      then show ?thesis
        using uv v256 by (simp add: unsigned_take_bit_eq unsigned_ucast_eq take_bit_nat_eq_self)
    qed
    moreover have "bs = [init OR (ucast v AND m)]"
      using enc True by (auto simp: int_encode_def Let_def m_def split: if_splits)
    moreover have "(init OR (ucast v AND m)) AND m = ucast v AND m"
      by (rule or_and_mask [OF init_m])
    moreover have "(ucast ((ucast v :: byte) AND m) :: u32) = v"
      if "unat ((ucast v :: byte) AND m) = unat v"
      by (rule word_unat_eq_iff [THEN iffD2]) (simp add: that)
    ultimately show ?thesis
      using k uv m by (simp add: int_decode_def Let_def word_less_nat_alt flip: m_def)
  next
    case False
    then have le: "ucast m \<le> v" by simp
    have bs: "bs = (init OR m) # int_encode_loop (v - ucast m)"
      using enc False by (auto simp: int_encode_def Let_def m_def split: if_splits)
    have first: "(init OR m) AND m = m" using or_and_mask [OF init_m, of m] by simp
    have uv: "unat (v - ucast m) = unat v - unat m" using unat_sub [OF le] by simp
    have um: "unat m \<le> unat v" using le by (simp add: word_le_nat_alt)
    have "int_decode_loop (int_encode_loop (v - ucast m) @ rest) (ucast m) 0 1 =
        Inr (1 + length (int_encode_loop (v - ucast m)), of_nat (unat (ucast m :: u64) + unat (v - ucast m) * 2 ^ 0))"
      by (rule decode_encode_loop) (use uv um v in simp_all)
    then show ?thesis
      using k uv um by (simp add: bs int_decode_def Let_def first flip: m_def)
  qed
qed

lemma int_decode_loop_used:
  "int_decode_loop src val m used = Inr (n, v) \<Longrightarrow>
     used < n \<and> n \<le> used + length src \<and> unat v \<le> 16777200 \<and>
     int_decode_loop (take (n - used) src @ rest) val m used = Inr (n, v)"
proof (induction src val m used rule: int_decode_loop.induct)
  case (1 val m used)
  then show ?case by simp
next
  case (2 b src val m used)
  let ?v = "val + push_bit m (ucast (b AND 0x7f))"
  from "2.prems" have ok: "m < 64" "\<not> ?v > MAX_HPACK_INT"
    by (auto simp: Let_def split: if_splits)
  then have v: "unat ?v \<le> 16777200"
    by (simp add: word_less_nat_alt unat_MAX_HPACK_INT)
  show ?case
  proof (cases "b AND 0x80 = 0")
    case True
    have "unat (ucast ?v :: u32) = unat ?v"
      using v by (simp add: unsigned_ucast_eq take_bit_nat_eq_self)
    with True ok v "2.prems" show ?thesis by (auto simp: Let_def)
  next
    case False
    with ok "2.prems" have rec: "int_decode_loop src ?v (m + 7) (used + 1) = Inr (n, v)"
      by (auto simp: Let_def)
    with 2 False ok have "used + 1 < n \<and> n \<le> used + 1 + length src \<and> unat v \<le> 16777200 \<and>
        int_decode_loop (take (n - (used + 1)) src @ rest) ?v (m + 7) (used + 1) = Inr (n, v)"
      by (auto simp: Let_def)
    moreover from this have "n - used = Suc (n - (used + 1))" by linarith
    ultimately show ?thesis using False ok by (auto simp: Let_def)
  qed
qed

lemma int_decode_used:
  assumes "int_decode k src = Inr (n, v)"
  shows "1 \<le> n" and "n \<le> length src" and "unat v \<le> 16777200"
    and "int_decode k (take n src @ rest) = Inr (n, v)"
proof -
  obtain b bs where src: "src = b # bs" using assms by (cases src) (auto simp: int_decode_def)
  let ?m = "make_mask (8 - k) :: byte"
  have k: "k \<le> 4" "k \<noteq> 0" using assms by (auto simp: int_decode_def split: if_splits)
  have "1 \<le> n \<and> n \<le> length src \<and> unat v \<le> 16777200 \<and> int_decode k (take n src @ rest) = Inr (n, v)"
  proof (cases "(ucast (b AND ?m) :: u64) < ucast ?m")
    case True
    then have "n = 1" and v: "v = ucast (b AND ?m)"
      using assms k src by (auto simp: int_decode_def Let_def)
    moreover have "unat v \<le> 16777200" using unat_byte_less [of "b AND ?m"] by (simp add: v)
    ultimately show ?thesis
      using True k src by (auto simp: int_decode_def Let_def)
  next
    case False
    then have "int_decode_loop bs (ucast (b AND ?m)) 0 1 = Inr (n, v)"
      using assms k src by (auto simp: int_decode_def Let_def)
    from int_decode_loop_used [OF this, of rest] False k src
    show ?thesis by (auto simp: int_decode_def Let_def take_Cons')
  qed
  then show "1 \<le> n" and "n \<le> length src" and "unat v \<le> 16777200"
    and "int_decode k (take n src @ rest) = Inr (n, v)" by blast+
qed

lemma int_decode_loop_defined:
  "m + 7 * length src \<le> 70 \<Longrightarrow> int_decode_loop src val m used \<noteq> Inl undefined_behaviour"
  by (induction src val m used rule: int_decode_loop.induct) (auto simp: Let_def)

section \<open>The codec contract\<close>

lemma cmd_prefix_free_bits:
  "1 \<le> ci_bitlen (cmd_info_get cmd)" "ci_bitlen (cmd_info_get cmd) \<le> 4"
  "ci_value (cmd_info_get cmd) AND make_mask (8 - ci_bitlen (cmd_info_get cmd)) = 0"
  by (cases cmd; simp add: make_mask_eq_mask mask_eq_exp_minus_1)+

lemma flag_prefix_free_bits: "string_flag_value f AND make_mask (8 - 1) = 0"
  by (cases f) (simp_all add: make_mask_eq_mask mask_eq_exp_minus_1)

interpretation cmd_codec: codec "\<lambda>v bs. int_encode_cmd cmd v = Inr bs" "\<lambda>s. s"
  "int_decode (ci_bitlen (cmd_info_get cmd))"
  by unfold_locales
    (auto simp: int_encode_cmd_def intro: int_decode_encode [OF _ cmd_prefix_free_bits])

interpretation flag_codec: codec "\<lambda>v bs. int_encode_flag f v = Inr bs" "\<lambda>s. s" "int_decode 1"
  using flag_prefix_free_bits [of f]
  by unfold_locales (auto simp: int_encode_flag_def intro: int_decode_encode)

section \<open>Properties\<close>

text \<open>
  C21: HPACK integers round-trip. For every prefix of one to four command bits and every value up
  to \<open>MAX_HPACK_INT\<close>, \<open>integer::encode\<close> succeeds, its result fits the five-byte array of
  \<open>encoded_result\<close>, and \<open>integer::decode\<close> reads back the value and the number of bytes used,
  whatever follows them.
\<close>

theorem int_roundtrip:
  assumes "1 \<le> k" and "k \<le> 4" and "init AND make_mask (8 - k) = 0" and "v \<le> MAX_HPACK_INT"
  shows "\<exists>bs. int_encode init k v = Inr bs \<and> 1 \<le> length bs \<and> length bs \<le> 5 \<and>
    (\<forall>rest. int_decode k (bs @ rest) = Inr (length bs, v))"
proof -
  obtain bs where "int_encode init k v = Inr bs"
    using assms(4) int_encode_ok by blast
  then show ?thesis
    using assms(1-3) int_decode_encode int_encode_length int_encode_nonempty
    by (metis One_nat_def Suc_leI length_greater_0_conv)
qed

theorem int_roundtrip_witness:
  "int_encode 0x20 3 1337 = Inr [0x3f, 0x9a, 0x0a] \<and> int_decode 3 [0x3f, 0x9a, 0x0a] = Inr (3, 1337)"
proof -
  have enc: "int_encode 0x20 3 1337 = Inr [0x3f, 0x9a, 0x0a]"
    by (simp add: int_encode_def MAX_HPACK_INT_def make_mask_def int_encode_loop.simps)
  obtain bs where "int_encode 0x20 3 1337 = Inr bs" "int_decode 3 (bs @ []) = Inr (length bs, 1337)"
    using int_roundtrip [of 3 "0x20" 1337]
    by (auto simp: MAX_HPACK_INT_def make_mask_eq_mask mask_eq_exp_minus_1 dest!: spec [where x = "[]"])
  with enc show ?thesis by simp
qed

text \<open>
  What \<open>integer::decode\<close> returns is bounded: it uses at least one and at most all of the
  given bytes, its value is at most \<open>MAX_HPACK_INT\<close>, and no byte after the used ones matters.
\<close>

lemma int_decode_bounded:
  assumes "int_decode k src = Inr (n, v)"
  shows "1 \<le> n \<and> n \<le> length src \<and> v \<le> MAX_HPACK_INT \<and> int_decode k (take n src @ rest) = Inr (n, v)"
  using int_decode_used [OF assms] by (simp add: word_le_nat_alt unat_MAX_HPACK_INT)

text \<open>
  \<open>integer::decode\<close> has defined behaviour on every input of up to eleven bytes, and not
  beyond: with ten zero continuation bytes the next one is shifted by 70, which a \<open>uint64_t\<close>
  does not define (the loop bounds the value but not the number of bytes).
\<close>

lemma int_decode_defined_up_to_11:
  "(\<forall>k src. length src \<le> 11 \<longrightarrow> int_decode k src \<noteq> Inl undefined_behaviour) \<and>
   int_decode 1 [0x7f, 0x80, 0x80, 0x80, 0x80, 0x80, 0x80, 0x80, 0x80, 0x80, 0x80, 0x00] = Inl undefined_behaviour"
proof
  show "\<forall>k src. length src \<le> 11 \<longrightarrow> int_decode k src \<noteq> Inl undefined_behaviour"
  proof (intro allI impI)
    fix k and src :: "byte list"
    assume "length src \<le> 11"
    then show "int_decode k src \<noteq> Inl undefined_behaviour"
      by (cases src) (auto simp: int_decode_def Let_def int_decode_loop_defined)
  qed
  show "int_decode 1 [0x7f, 0x80, 0x80, 0x80, 0x80, 0x80, 0x80, 0x80, 0x80, 0x80, 0x80, 0x00] = Inl undefined_behaviour"
    by (simp add: int_decode_def make_mask_def MAX_HPACK_INT_def)
qed

end
