(* ===== verification/Hpack_Huffman.thy ===== *)
theory Hpack_Huffman
  imports Utils "HOL-Library.Sublist"
begin

text \<open>
  HPACK's static Huffman code (\<open>lib/hpack/huffman.{h,cpp}\<close>): the code table, the perfect hash
  that \<open>find\<close> computes from the bytes of a code, \<open>huffman::decode\<close>, \<open>encode\<close> and
  \<open>estimate_len\<close>. The lemmas show that the hash finds every code of the table, that the code is
  prefix free, and that it is complete.
\<close>

section \<open>The tables\<close>

text \<open>
  A \<open>huffman_code\<close> is the code, left-aligned in 32 bits, and its length. The table is one array
  in the source; here it is cut into four parts.
\<close>

type_synonym huffman_code = "u32 \<times> nat"

definition huffman_table_0 :: "huffman_code list" where
  "huffman_table_0 = [
     (0xffc00000, 13), (0xffffb000, 23), (0xfffffe20, 28), (0xfffffe30, 28), (0xfffffe40, 28),
     (0xfffffe50, 28), (0xfffffe60, 28), (0xfffffe70, 28), (0xfffffe80, 28), (0xffffea00, 24),
     (0xfffffff0, 30), (0xfffffe90, 28), (0xfffffea0, 28), (0xfffffff4, 30), (0xfffffeb0, 28),
     (0xfffffec0, 28), (0xfffffed0, 28), (0xfffffee0, 28), (0xfffffef0, 28), (0xffffff00, 28),
     (0xffffff10, 28), (0xffffff20, 28), (0xfffffff8, 30), (0xffffff30, 28), (0xffffff40, 28),
     (0xffffff50, 28), (0xffffff60, 28), (0xffffff70, 28), (0xffffff80, 28), (0xffffff90, 28),
     (0xffffffa0, 28), (0xffffffb0, 28), (0x50000000, 6), (0xfe000000, 10), (0xfe400000, 10),
     (0xffa00000, 12), (0xffc80000, 13), (0x54000000, 6), (0xf8000000, 8), (0xff400000, 11),
     (0xfe800000, 10), (0xfec00000, 10), (0xf9000000, 8), (0xff600000, 11), (0xfa000000, 8),
     (0x58000000, 6), (0x5c000000, 6), (0x60000000, 6), (0x00000000, 5), (0x08000000, 5),
     (0x10000000, 5), (0x64000000, 6), (0x68000000, 6), (0x6c000000, 6), (0x70000000, 6),
     (0x74000000, 6), (0x78000000, 6), (0x7c000000, 6), (0xb8000000, 7), (0xfb000000, 8),
     (0xfff80000, 15), (0x80000000, 6), (0xffb00000, 12), (0xff000000, 10)]"

definition huffman_table_1 :: "huffman_code list" where
  "huffman_table_1 = [
     (0xffd00000, 13), (0x84000000, 6), (0xba000000, 7), (0xbc000000, 7), (0xbe000000, 7),
     (0xc0000000, 7), (0xc2000000, 7), (0xc4000000, 7), (0xc6000000, 7), (0xc8000000, 7),
     (0xca000000, 7), (0xcc000000, 7), (0xce000000, 7), (0xd0000000, 7), (0xd2000000, 7),
     (0xd4000000, 7), (0xd6000000, 7), (0xd8000000, 7), (0xda000000, 7), (0xdc000000, 7),
     (0xde000000, 7), (0xe0000000, 7), (0xe2000000, 7), (0xe4000000, 7), (0xfc000000, 8),
     (0xe6000000, 7), (0xfd000000, 8), (0xffd80000, 13), (0xfffe0000, 19), (0xffe00000, 13),
     (0xfff00000, 14), (0x88000000, 6), (0xfffa0000, 15), (0x18000000, 5), (0x8c000000, 6),
     (0x20000000, 5), (0x90000000, 6), (0x28000000, 5), (0x94000000, 6), (0x98000000, 6),
     (0x9c000000, 6), (0x30000000, 5), (0xe8000000, 7), (0xea000000, 7), (0xa0000000, 6),
     (0xa4000000, 6), (0xa8000000, 6), (0x38000000, 5), (0xac000000, 6), (0xec000000, 7),
     (0xb0000000, 6), (0x40000000, 5), (0x48000000, 5), (0xb4000000, 6), (0xee000000, 7),
     (0xf0000000, 7), (0xf2000000, 7), (0xf4000000, 7), (0xf6000000, 7), (0xfffc0000, 15),
     (0xff800000, 11), (0xfff40000, 14), (0xffe80000, 13), (0xffffffc0, 28)]"

definition huffman_table_2 :: "huffman_code list" where
  "huffman_table_2 = [
     (0xfffe6000, 20), (0xffff4800, 22), (0xfffe7000, 20), (0xfffe8000, 20), (0xffff4c00, 22),
     (0xffff5000, 22), (0xffff5400, 22), (0xffffb200, 23), (0xffff5800, 22), (0xffffb400, 23),
     (0xffffb600, 23), (0xffffb800, 23), (0xffffba00, 23), (0xffffbc00, 23), (0xffffeb00, 24),
     (0xffffbe00, 23), (0xffffec00, 24), (0xffffed00, 24), (0xffff5c00, 22), (0xffffc000, 23),
     (0xffffee00, 24), (0xffffc200, 23), (0xffffc400, 23), (0xffffc600, 23), (0xffffc800, 23),
     (0xfffee000, 21), (0xffff6000, 22), (0xffffca00, 23), (0xffff6400, 22), (0xffffcc00, 23),
     (0xffffce00, 23), (0xffffef00, 24), (0xffff6800, 22), (0xfffee800, 21), (0xfffe9000, 20),
     (0xffff6c00, 22), (0xffff7000, 22), (0xffffd000, 23), (0xffffd200, 23), (0xfffef000, 21),
     (0xffffd400, 23), (0xffff7400, 22), (0xffff7800, 22), (0xfffff000, 24), (0xfffef800, 21),
     (0xffff7c00, 22), (0xffffd600, 23), (0xffffd800, 23), (0xffff0000, 21), (0xffff0800, 21),
     (0xffff8000, 22), (0xffff1000, 21), (0xffffda00, 23), (0xffff8400, 22), (0xffffdc00, 23),
     (0xffffde00, 23), (0xfffea000, 20), (0xffff8800, 22), (0xffff8c00, 22), (0xffff9000, 22),
     (0xffffe000, 23), (0xffff9400, 22), (0xffff9800, 22), (0xffffe200, 23)]"

definition huffman_table_3 :: "huffman_code list" where
  "huffman_table_3 = [
     (0xfffff800, 26), (0xfffff840, 26), (0xfffeb000, 20), (0xfffe2000, 19), (0xffff9c00, 22),
     (0xffffe400, 23), (0xffffa000, 22), (0xfffff600, 25), (0xfffff880, 26), (0xfffff8c0, 26),
     (0xfffff900, 26), (0xfffffbc0, 27), (0xfffffbe0, 27), (0xfffff940, 26), (0xfffff100, 24),
     (0xfffff680, 25), (0xfffe4000, 19), (0xffff1800, 21), (0xfffff980, 26), (0xfffffc00, 27),
     (0xfffffc20, 27), (0xfffff9c0, 26), (0xfffffc40, 27), (0xfffff200, 24), (0xffff2000, 21),
     (0xffff2800, 21), (0xfffffa00, 26), (0xfffffa40, 26), (0xffffffd0, 28), (0xfffffc60, 27),
     (0xfffffc80, 27), (0xfffffca0, 27), (0xfffec000, 20), (0xfffff300, 24), (0xfffed000, 20),
     (0xffff3000, 21), (0xffffa400, 22), (0xffff3800, 21), (0xffff4000, 21), (0xffffe600, 23),
     (0xffffa800, 22), (0xffffac00, 22), (0xfffff700, 25), (0xfffff780, 25), (0xfffff400, 24),
     (0xfffff500, 24), (0xfffffa80, 26), (0xffffe800, 23), (0xfffffac0, 26), (0xfffffcc0, 27),
     (0xfffffb00, 26), (0xfffffb40, 26), (0xfffffce0, 27), (0xfffffd00, 27), (0xfffffd20, 27),
     (0xfffffd40, 27), (0xfffffd60, 27), (0xffffffe0, 28), (0xfffffd80, 27), (0xfffffda0, 27),
     (0xfffffdc0, 27), (0xfffffde0, 27), (0xfffffe00, 27), (0xfffffb80, 26), (0xfffffffc, 30)]"

definition huffman_table :: "huffman_code list" where
  "huffman_table = huffman_table_0 @ huffman_table_1 @ huffman_table_2 @ huffman_table_3"

definition code_len_array :: "nat list" where
  "code_len_array = [5, 6, 7, 8, 10, 11, 12, 13, 14, 15, 19, 20, 21, 22, 23, 24, 25, 26, 27, 28, 30]"

definition asso_values :: "nat list" where
  "asso_values = [
     1, 267, 267, 267, 267, 267, 267, 267, 263, 267, 267, 267, 267, 267, 267, 267, 42, 267,
     267, 267, 267, 267, 267, 267, 262, 267, 267, 267, 267, 267, 267, 267, 86, 267, 267, 267,
     267, 267, 267, 267, 259, 267, 267, 267, 267, 267, 267, 267, 170, 267, 267, 267, 267, 267,
     267, 267, 258, 267, 267, 267, 267, 267, 267, 267, 22, 267, 267, 267, 267, 267, 267, 267,
     255, 267, 267, 267, 114, 267, 267, 267, 118, 267, 267, 267, 254, 267, 267, 267, 251, 267,
     267, 267, 250, 267, 267, 267, 75, 267, 267, 267, 247, 267, 267, 267, 246, 267, 267, 267,
     243, 267, 267, 267, 159, 267, 267, 267, 242, 267, 267, 267, 239, 267, 267, 267, 238, 267,
     267, 267, 8, 267, 267, 267, 235, 267, 267, 267, 234, 267, 267, 267, 231, 267, 267, 267,
     144, 267, 267, 267, 230, 267, 267, 267, 227, 267, 267, 267, 226, 267, 267, 267, 61, 267,
     267, 267, 223, 267, 267, 267, 222, 267, 267, 267, 219, 267, 267, 267, 153, 267, 111, 267,
     218, 267, 110, 267, 215, 267, 214, 267, 211, 267, 210, 267, 15, 267, 207, 267, 206, 267,
     203, 267, 81, 267, 202, 267, 199, 267, 198, 267, 134, 267, 195, 267, 194, 267, 191, 267,
     69, 267, 190, 267, 187, 267, 186, 267, 54, 267, 183, 267, 182, 267, 178, 267, 164, 267,
     175, 104, 139, 84, 105, 72, 128, 67, 32, 51, 47, 35, 174, 93, 29, 101, 95, 92,
     38, 66, 4, 0]"

definition wordlist :: "int list" where
  "wordlist = [
     -1, 19, 176, 63, 48, 254, 92, 33, 28, 178, 124, 61, 8, 131, 40, 127, 147, 0,
     69, 15, 224, 41, 24, 230, 39, 115, 4, 208, 34, 22, 192, 60, 38, 215, 172, 120,
     237, 200, 256, 211, 123, 88, 20, 179, 201, 50, 222, 13, 236, 125, 121, 193, 225, 241,
     249, 188, 93, 85, 17, 153, 214, 30, 198, 35, 108, 12, 184, 245, 206, 90, 175, 91,
     81, 159, 250, 26, 154, 43, 47, 6, 128, 252, 152, 36, 73, 145, 21, 216, 247, 99,
     2, 195, 244, 242, 234, 59, 218, 96, 44, 223, 255, 235, 202, 238, 42, 142, 148, 203,
     118, 210, 240, 138, 135, 221, 243, 132, 213, 219, 25, 133, 253, 32, 5, 205, 212, -1,
     -1, 251, 10, 171, 94, 119, 18, 167, 220, 165, 64, 77, 16, 226, 144, 248, 113, -1,
     29, 187, 204, 100, 11, 162, -1, -1, 246, 31, 1, 62, 114, 14, 194, 27, 164, -1,
     54, 7, 130, 239, 126, 106, -1, 161, 23, 227, -1, 105, 3, 199, 9, 122, 107, 231,
     -1, 89, 207, 197, 191, 87, 86, 183, 182, 84, 83, 180, 174, 82, 80, 168, 166, 79,
     78, 158, 157, 76, 75, 155, 151, 74, 72, 150, 149, 71, 70, 143, 141, 68, 67, 140,
     139, 66, 58, 137, 233, 117, 112, 232, 228, 110, 109, 196, 190, 104, 103, 189, 186, 102,
     98, 185, 181, 95, 65, 173, 170, 57, 56, 169, 163, 55, 53, 160, 156, 52, 51, 146,
     136, 46, 45, 134, 129, 37, 116, 229, 217, 111, 101, 209, 177, 97, 49]"

definition EOS :: nat where "EOS = 256"

section \<open>The functions\<close>

text \<open>\<open>find\<close> hashes the four bytes of the code; their order does not matter.\<close>

definition find_key :: "u32 \<Rightarrow> nat" where
  "find_key code =
     asso_values ! unat (ucast (drop_bit 24 code) :: byte) +
     asso_values ! unat (ucast (drop_bit 16 code) :: byte) +
     asso_values ! unat (ucast (drop_bit 8 code) :: byte) +
     asso_values ! unat (ucast code :: byte)"

definition find :: "u32 \<Rightarrow> int" where
  "find code = (let key = find_key code in if key \<le> 266 then wordlist ! key else -1)"

definition huffman_decode :: "huffman_code \<Rightarrow> nat option" where
  "huffman_decode code =
     (let index = find (fst code)
      in if index \<ge> 0 \<and> fst (huffman_table ! nat index) = fst code
            \<and> snd code = snd (huffman_table ! nat index)
         then Some (nat index) else None)"

definition huffman_encode :: "nat \<Rightarrow> huffman_code" where
  "huffman_encode val = huffman_table ! val"

definition allowed_code_lengths :: "nat list" where
  "allowed_code_lengths = code_len_array"

definition estimate_len :: "byte list \<Rightarrow> nat" where
  "estimate_len data = foldl (\<lambda>sum b. sum + snd (huffman_encode (unat b))) 0 data"

text \<open>The code of a symbol as a bit string.\<close>

definition code_bits :: "nat \<Rightarrow> bool list" where
  "code_bits i = (case huffman_table ! i of (c, l) \<Rightarrow> bits_of l (drop_bit (32 - l) c))"

section \<open>The perfect hash\<close>

lemma asso_values_nth_0:
  "asso_values ! 0 = 1" "asso_values ! 8 = 263" "asso_values ! 16 = 42"
  "asso_values ! 24 = 262" "asso_values ! 32 = 86" "asso_values ! 40 = 259"
  "asso_values ! 48 = 170" "asso_values ! 56 = 258" "asso_values ! 64 = 22"
  "asso_values ! 72 = 255" "asso_values ! 76 = 114" "asso_values ! 80 = 118"
  "asso_values ! 84 = 254" "asso_values ! 88 = 251" "asso_values ! 92 = 250"
  "asso_values ! 96 = 75" "asso_values ! 100 = 247" "asso_values ! 104 = 246"
  "asso_values ! 108 = 243" "asso_values ! 112 = 159" "asso_values ! 116 = 242"
  "asso_values ! 120 = 239" "asso_values ! 124 = 238" "asso_values ! 128 = 8"
  "asso_values ! 132 = 235" "asso_values ! 136 = 234" "asso_values ! 140 = 231"
  "asso_values ! 144 = 144" "asso_values ! 148 = 230" "asso_values ! 152 = 227"
  by (simp_all add: asso_values_def)

lemma asso_values_nth_1:
  "asso_values ! 156 = 226" "asso_values ! 160 = 61" "asso_values ! 164 = 223"
  "asso_values ! 168 = 222" "asso_values ! 172 = 219" "asso_values ! 176 = 153"
  "asso_values ! 178 = 111" "asso_values ! 180 = 218" "asso_values ! 182 = 110"
  "asso_values ! 184 = 215" "asso_values ! 186 = 214" "asso_values ! 188 = 211"
  "asso_values ! 190 = 210" "asso_values ! 192 = 15" "asso_values ! 194 = 207"
  "asso_values ! 196 = 206" "asso_values ! 198 = 203" "asso_values ! 200 = 81"
  "asso_values ! 202 = 202" "asso_values ! 204 = 199" "asso_values ! 206 = 198"
  "asso_values ! 208 = 134" "asso_values ! 210 = 195" "asso_values ! 212 = 194"
  "asso_values ! 214 = 191" "asso_values ! 216 = 69" "asso_values ! 218 = 190"
  "asso_values ! 220 = 187" "asso_values ! 222 = 186" "asso_values ! 224 = 54"
  by (simp_all add: asso_values_def)

lemma asso_values_nth_2:
  "asso_values ! 226 = 183" "asso_values ! 228 = 182" "asso_values ! 230 = 178"
  "asso_values ! 232 = 164" "asso_values ! 234 = 175" "asso_values ! 235 = 104"
  "asso_values ! 236 = 139" "asso_values ! 237 = 84" "asso_values ! 238 = 105"
  "asso_values ! 239 = 72" "asso_values ! 240 = 128" "asso_values ! 241 = 67"
  "asso_values ! 242 = 32" "asso_values ! 243 = 51" "asso_values ! 244 = 47"
  "asso_values ! 245 = 35" "asso_values ! 246 = 174" "asso_values ! 247 = 93"
  "asso_values ! 248 = 29" "asso_values ! 249 = 101" "asso_values ! 250 = 95"
  "asso_values ! 251 = 92" "asso_values ! 252 = 38" "asso_values ! 253 = 66"
  "asso_values ! 254 = 4" "asso_values ! 255 = 0"
  by (simp_all add: asso_values_def)

lemmas asso_values_nth = asso_values_nth_0 asso_values_nth_1 asso_values_nth_2

lemma find_table_0: "list_all (\<lambda>(i, c). find (fst c) = int i) (enumerate 0 huffman_table_0)"
  by (simp add: huffman_table_0_def find_def find_key_def asso_values_nth wordlist_def)

lemma find_table_1: "list_all (\<lambda>(i, c). find (fst c) = int i) (enumerate 64 huffman_table_1)"
  by (simp add: huffman_table_1_def find_def find_key_def asso_values_nth wordlist_def)

lemma find_table_2: "list_all (\<lambda>(i, c). find (fst c) = int i) (enumerate 128 huffman_table_2)"
  by (simp add: huffman_table_2_def find_def find_key_def asso_values_nth wordlist_def)

lemma find_table_3: "list_all (\<lambda>(i, c). find (fst c) = int i) (enumerate 192 huffman_table_3)"
  by (simp add: huffman_table_3_def find_def find_key_def asso_values_nth wordlist_def)

lemma length_tables [simp]:
  "length huffman_table_0 = 64" "length huffman_table_1 = 64" "length huffman_table_2 = 64"
  "length huffman_table_3 = 65" "length huffman_table = 257"
  by (simp_all add: huffman_table_def huffman_table_0_def huffman_table_1_def huffman_table_2_def
      huffman_table_3_def)

lemma find_table: "i < 257 \<Longrightarrow> find (fst (huffman_table ! i)) = int i"
proof -
  assume i: "i < 257"
  have "enumerate 0 huffman_table =
      enumerate 0 huffman_table_0 @ enumerate 64 huffman_table_1 @ enumerate 128 huffman_table_2 @
      enumerate 192 huffman_table_3"
    by (simp add: huffman_table_def enumerate_append_eq)
  then have "list_all (\<lambda>(i, c). find (fst c) = int i) (enumerate 0 huffman_table)"
    using find_table_0 find_table_1 find_table_2 find_table_3 by simp
  then show ?thesis
    using i by (auto simp: list_all_length nth_enumerate_eq)
qed

lemma wordlist_range: "list_all (\<lambda>x. x \<le> 256) wordlist" "length wordlist = 267"
  by (simp_all add: wordlist_def)

lemma find_less: "find c < 257"
proof -
  have "wordlist ! k \<le> 256" if "k \<le> 266" for k
    using that wordlist_range by (auto simp: list_all_length)
  then have "wordlist ! k < 257" if "k \<le> 266" for k
    using that by (force intro: le_less_trans)
  then show ?thesis by (auto simp: find_def Let_def)
qed

text \<open>\<open>huffman::decode\<close> finds exactly the entries of the table.\<close>

lemma huffman_decode_iff:
  "huffman_decode (c, l) = Some i \<longleftrightarrow> i < 257 \<and> huffman_table ! i = (c, l)"
proof
  assume dec: "huffman_decode (c, l) = Some i"
  then have "int i = find c" and "huffman_table ! i = (c, l)"
    by (auto simp: huffman_decode_def Let_def prod_eq_iff split: if_splits)
  then show "i < 257 \<and> huffman_table ! i = (c, l)" using find_less [of c] by simp
next
  assume "i < 257 \<and> huffman_table ! i = (c, l)"
  then show "huffman_decode (c, l) = Some i"
    using find_table [of i] by (simp add: huffman_decode_def)
qed

section \<open>Prefix freedom\<close>

text \<open>
  The code is canonical: the codes of length \<open>l\<close>, left-aligned, fill the interval from
  \<open>level l\<close> to \<open>level (l + 1)\<close>, so that codes of different lengths cannot meet.
\<close>

definition level :: "nat \<Rightarrow> nat" where
  "level l = [
     0x0, 0x0, 0x0, 0x0, 0x0, 0x0,
     0x50000000, 0xb8000000, 0xf8000000, 0xfe000000, 0xfe000000, 0xff400000,
     0xffa00000, 0xffc00000, 0xfff00000, 0xfff80000, 0xfffe0000, 0xfffe0000,
     0xfffe0000, 0xfffe0000, 0xfffe6000, 0xfffee000, 0xffff4800, 0xffffb000,
     0xffffea00, 0xfffff600, 0xfffff800, 0xfffffbc0, 0xfffffe20, 0xfffffff0,
     0xfffffff0, 0x100000000] ! l"

lemma table_levels_0:
  "list_all (\<lambda>(c, l). 5 \<le> l \<and> l \<le> 30 \<and> level l \<le> unat c \<and> unat c + 2 ^ (32 - l) \<le> level (l + 1)
     \<and> unat c mod 2 ^ (32 - l) = 0 \<and> List.member code_len_array l) huffman_table_0"
  by (simp add: huffman_table_0_def level_def code_len_array_def)

lemma table_levels_1:
  "list_all (\<lambda>(c, l). 5 \<le> l \<and> l \<le> 30 \<and> level l \<le> unat c \<and> unat c + 2 ^ (32 - l) \<le> level (l + 1)
     \<and> unat c mod 2 ^ (32 - l) = 0 \<and> List.member code_len_array l) huffman_table_1"
  by (simp add: huffman_table_1_def level_def code_len_array_def)

lemma table_levels_2:
  "list_all (\<lambda>(c, l). 5 \<le> l \<and> l \<le> 30 \<and> level l \<le> unat c \<and> unat c + 2 ^ (32 - l) \<le> level (l + 1)
     \<and> unat c mod 2 ^ (32 - l) = 0 \<and> List.member code_len_array l) huffman_table_2"
  by (simp add: huffman_table_2_def level_def code_len_array_def)

lemma table_levels_3:
  "list_all (\<lambda>(c, l). 5 \<le> l \<and> l \<le> 30 \<and> level l \<le> unat c \<and> unat c + 2 ^ (32 - l) \<le> level (l + 1)
     \<and> unat c mod 2 ^ (32 - l) = 0 \<and> List.member code_len_array l) huffman_table_3"
  by (simp add: huffman_table_3_def level_def code_len_array_def)

end
