(* ===== verification/Huffman_Prefix.thy ===== *)
theory Huffman_Prefix
  imports Hpack_Huffman
begin

text \<open>
  The Huffman table as a code: no code is a prefix of another and every bit string starts with
  one, so that a bit string has at most one reading. \<open>prefix_code\<close> is what the string decoder
  relies on.
\<close>

lemma table_entry:
  assumes "i < 257" and "huffman_table ! i = (c, l)"
  shows "5 \<le> l" "l \<le> 30" "level l \<le> unat c" "unat c + 2 ^ (32 - l) \<le> level (l + 1)"
    "unat c mod 2 ^ (32 - l) = 0" "l \<in> set code_len_array"
proof -
  have "list_all (\<lambda>(c, l). 5 \<le> l \<and> l \<le> 30 \<and> level l \<le> unat c \<and> unat c + 2 ^ (32 - l) \<le> level (l + 1)
     \<and> unat c mod 2 ^ (32 - l) = 0 \<and> List.member code_len_array l) huffman_table"
    using table_levels_0 table_levels_1 table_levels_2 table_levels_3 by (simp add: huffman_table_def)
  with assms have "(\<lambda>(c, l). 5 \<le> l \<and> l \<le> 30 \<and> level l \<le> unat c \<and> unat c + 2 ^ (32 - l) \<le> level (l + 1)
     \<and> unat c mod 2 ^ (32 - l) = 0 \<and> List.member code_len_array l) (c, l)"
    by (auto simp: list_all_length)
  then show "5 \<le> l" "l \<le> 30" "level l \<le> unat c" "unat c + 2 ^ (32 - l) \<le> level (l + 1)"
    "unat c mod 2 ^ (32 - l) = 0" "l \<in> set code_len_array" by auto
qed

lemma level_mono: "a \<le> b \<Longrightarrow> b \<le> 31 \<Longrightarrow> level a \<le> level b"
  unfolding level_def by (rule sorted_nth_mono) simp_all

lemma length_code_bits: "i < 257 \<Longrightarrow> length (code_bits i) = snd (huffman_table ! i)"
  by (simp add: code_bits_def split: prod.split)

lemma table_inject: "i < 257 \<Longrightarrow> j < 257 \<Longrightarrow> huffman_table ! i = huffman_table ! j \<Longrightarrow> i = j"
  by (metis find_table of_nat_eq_iff)

lemma bits_of_drop_bit_eq_iff:
  fixes c d :: u32
  assumes "l \<le> 32"
  shows "bits_of l (drop_bit (32 - l) c) = bits_of l (drop_bit (32 - l) d) \<longleftrightarrow>
    unat c div 2 ^ (32 - l) = unat d div 2 ^ (32 - l)"
proof -
  have high: "\<not> bit (drop_bit (32 - l) w) n" if "l \<le> n" for w :: u32 and n
    using that assms by (auto simp: bit_drop_bit_eq dest!: bit_imp_le_length)
  have "bits_of l (drop_bit (32 - l) c) = bits_of l (drop_bit (32 - l) d) \<longleftrightarrow>
      (\<forall>n. bit (drop_bit (32 - l) c) n = bit (drop_bit (32 - l) d) n)"
    unfolding bits_of_eq_iff using high by (meson not_le)
  also have "\<dots> \<longleftrightarrow> drop_bit (32 - l) c = drop_bit (32 - l) d"
    by (auto intro: bit_word_eqI)
  also have "\<dots> \<longleftrightarrow> unat c div 2 ^ (32 - l) = unat d div 2 ^ (32 - l)"
    by (simp only: word_unat_eq_iff unat_drop_bit)
  finally show ?thesis .
qed

lemma take_bits_of_drop: "l \<le> k \<Longrightarrow> k \<le> n \<Longrightarrow>
    take l (bits_of k (drop_bit (n - k) w)) = bits_of l (drop_bit (n - l) w)"
proof -
  assume "l \<le> k" "k \<le> n"
  then have "n - l = (k - l) + (n - k)" by simp
  then show ?thesis
    using take_bits_of [of "k - l" k "drop_bit (n - k) w"] \<open>l \<le> k\<close>
    by (simp add: drop_bit_drop_bit add.commute)
qed

lemma code_prefix_free:
  assumes i: "i < 257" and j: "j < 257" and pre: "prefix (code_bits i) (code_bits j)"
  shows "i = j"
proof -
  obtain c l where cl: "huffman_table ! i = (c, l)" by (cases "huffman_table ! i")
  obtain d k where dk: "huffman_table ! j = (d, k)" by (cases "huffman_table ! j")
  note ti = table_entry [OF i cl] and tj = table_entry [OF j dk]
  have lk: "l \<le> k" using prefix_length_le [OF pre] i j cl dk by (simp add: length_code_bits)
  have "code_bits i = take l (code_bits j)"
    using pre i cl by (auto simp: prefix_def length_code_bits)
  then have "bits_of l (drop_bit (32 - l) c) = bits_of l (drop_bit (32 - l) d)"
    using cl dk lk tj by (simp add: code_bits_def take_bits_of_drop)
  then have div: "unat c div 2 ^ (32 - l) = unat d div 2 ^ (32 - l)"
    using ti by (simp add: bits_of_drop_bit_eq_iff)
  show ?thesis
  proof (cases "l = k")
    case True
    then have "unat c = unat d"
      using div ti(5) tj(5) by (metis add.right_neutral div_mult_mod_eq)
    then have "huffman_table ! i = huffman_table ! j"
      using cl dk True by (simp add: word_unat_eq_iff)
    with i j show ?thesis by (rule table_inject)
  next
    case False
    let ?p = "2 ^ (32 - l) :: nat"
    have "unat c = unat d div ?p * ?p"
      using ti(5) div_mult_mod_eq [of "unat c" ?p] div by simp
    moreover have "unat d mod ?p < ?p" by simp
    ultimately have "unat d < unat c + ?p"
      using div_mult_mod_eq [of "unat d" ?p] by linarith
    also have "\<dots> \<le> level (l + 1)" by (rule ti(4))
    also have "\<dots> \<le> level k" using False lk tj(2) by (intro level_mono) simp_all
    also have "\<dots> \<le> unat d" by (rule tj(3))
    finally show ?thesis by simp
  qed
qed

lemma code_bits_nonempty: "i < 257 \<Longrightarrow> code_bits i \<noteq> []"
proof -
  assume i: "i < 257"
  obtain c l where cl: "huffman_table ! i = (c, l)" by (cases "huffman_table ! i")
  have "5 \<le> length (code_bits i)" using table_entry(1) [OF i cl] i cl by (simp add: length_code_bits)
  then show ?thesis by auto
qed

section \<open>Completeness\<close>

text \<open>
  The words that start with the code of length \<open>l\<close> are \<open>2 ^ (32 - l)\<close> many, no word starts with two
  codes, and over the table these numbers add up to all the words there are.
\<close>

definition starting :: "nat \<Rightarrow> u32 set" where
  "starting i = {w. prefix (code_bits i) (bits_of 32 w)}"

lemma kraft_parts:
  "sum_list (map (\<lambda>e. 2 ^ (32 - snd e)) huffman_table_0) = (1404175532 :: nat)"
  "sum_list (map (\<lambda>e. 2 ^ (32 - snd e)) huffman_table_1) = (2890670096 :: nat)"
  "sum_list (map (\<lambda>e. 2 ^ (32 - snd e)) huffman_table_2) = (70656 :: nat)"
  "sum_list (map (\<lambda>e. 2 ^ (32 - snd e)) huffman_table_3) = (51012 :: nat)"
  by (simp_all add: huffman_table_0_def huffman_table_1_def huffman_table_2_def huffman_table_3_def)

lemma kraft: "(\<Sum>i<257. 2 ^ (32 - snd (huffman_table ! i))) = (2 ^ 32 :: nat)"
proof -
  have "sum_list (map (\<lambda>e. 2 ^ (32 - snd e)) huffman_table) = (2 ^ 32 :: nat)"
    by (simp add: huffman_table_def kraft_parts)
  then show ?thesis
    by (simp add: sum_list_sum_nth atLeast0LessThan)
qed

lemma prefix_iff_take: "prefix xs ys \<longleftrightarrow> xs = take (length xs) ys"
  by (metis append_eq_conv_conj prefixE take_is_prefix)

lemma starting_iff:
  assumes "i < 257" and "huffman_table ! i = (c, l)"
  shows "w \<in> starting i \<longleftrightarrow> unat w div 2 ^ (32 - l) = unat c div 2 ^ (32 - l)"
proof -
  have l: "l \<le> 30" by (rule table_entry(2) [OF assms])
  have "w \<in> starting i \<longleftrightarrow> code_bits i = take l (bits_of 32 w)"
    unfolding starting_def using length_code_bits [OF assms(1)] assms(2)
    by (simp add: prefix_iff_take)
  also have "take l (bits_of 32 w) = bits_of l (drop_bit (32 - l) w)"
    using l take_bits_of_drop [of l 32 32 w] by simp
  finally show ?thesis using l assms by (auto simp: code_bits_def bits_of_drop_bit_eq_iff)
qed

lemma card_starting:
  assumes "i < 257"
  shows "card (starting i) = 2 ^ (32 - snd (huffman_table ! i))"
proof -
  obtain c l where cl: "huffman_table ! i = (c, l)" by (cases "huffman_table ! i")
  let ?p = "2 ^ (32 - l) :: nat" and ?k = "unat c div 2 ^ (32 - l) :: nat"
  note t = table_entry [OF assms cl]
  have c: "?k * ?p = unat c" using t(5) div_mult_mod_eq [of "unat c" ?p] by simp
  have "level (l + 1) \<le> level 31" using t(2) by (intro level_mono) simp_all
  then have top: "?k * ?p + ?p \<le> 2 ^ 32" using t(4) c by (simp add: level_def)
  have "unat ` starting i = {?k * ?p..<?k * ?p + ?p}"
  proof (intro set_eqI iffI)
    fix x
    assume "x \<in> unat ` starting i"
    then obtain w where "x = unat w" "w \<in> starting i" by blast
    then have "x div ?p = ?k" using starting_iff [OF assms cl] by simp
    then have "?k * ?p + x mod ?p = x" using div_mult_mod_eq [of x ?p] by simp
    moreover have "x mod ?p < ?p" by simp
    ultimately have "?k * ?p \<le> x" and "x < ?k * ?p + ?p" by linarith+
    then show "x \<in> {?k * ?p..<?k * ?p + ?p}" by simp
  next
    fix x
    assume x: "x \<in> {?k * ?p..<?k * ?p + ?p}"
    then have "x < 2 ^ 32" using top by simp
    then have ux: "unat (of_nat x :: u32) = x" by (simp add: unsigned_of_nat take_bit_nat_eq_self)
    have "x div ?p = ?k" using x by (intro div_nat_eqI) (simp_all add: mult.commute)
    then have "of_nat x \<in> starting i" using starting_iff [OF assms cl] ux by simp
    then show "x \<in> unat ` starting i" using ux by (metis imageI)
  qed
  then have "card (unat ` starting i) = ?p" by simp
  moreover have "card (unat ` starting i) = card (starting i)"
    by (intro card_image inj_onI) (simp add: word_unat_eq_iff)
  ultimately show ?thesis using cl by simp
qed

lemma starting_disjoint:
  assumes "i < 257" "j < 257" "w \<in> starting i" "w \<in> starting j"
  shows "i = j"
proof -
  have "prefix (code_bits i) (code_bits j) \<or> prefix (code_bits j) (code_bits i)"
    using assms(3,4) prefix_same_cases unfolding starting_def by blast
  then show ?thesis using assms code_prefix_free by metis
qed

lemma code_complete: "\<exists>i < 257. prefix (code_bits i) (bits_of 32 (w :: u32))"
proof -
  have "card (\<Union>i\<in>{..<257}. starting i) = (\<Sum>i<257. card (starting i))"
    by (rule card_UN_disjoint) (auto dest: starting_disjoint)
  also have "\<dots> = (\<Sum>i<257. 2 ^ (32 - snd (huffman_table ! i)))"
    by (rule sum.cong) (simp_all add: card_starting)
  also have "\<dots> = card (UNIV :: u32 set)"
    by (simp add: kraft card_word)
  finally have "(\<Union>i\<in>{..<257}. starting i) = UNIV"
    by (intro card_subset_eq) simp_all
  then obtain i where "i < 257" "w \<in> starting i" by blast
  then show ?thesis by (auto simp: starting_def)
qed

section \<open>The interface of a prefix code\<close>

locale prefix_code =
  fixes code :: "'s \<Rightarrow> bool list" and syms :: "'s set"
  assumes code_nonempty: "i \<in> syms \<Longrightarrow> code i \<noteq> []"
    and prefix_free: "i \<in> syms \<Longrightarrow> j \<in> syms \<Longrightarrow> prefix (code i) (code j) \<Longrightarrow> i = j"
begin

text \<open>At most one symbol starts a bit string.\<close>

lemma next_unique:
  assumes "i \<in> syms" "j \<in> syms" "prefix (code i) bs" "prefix (code j) bs"
  shows "i = j"
  using assms prefix_free prefix_same_cases by metis

text \<open>A text is determined by its encoding, also when one encoding is followed by anything.\<close>

lemma text_unique:
  assumes "set xs \<subseteq> syms" "set ys \<subseteq> syms" "concat (map code xs) @ r = concat (map code ys) @ r'"
    and "length xs = length ys"
  shows "xs = ys \<and> r = r'"
  using assms(4,1-3)
proof (induction xs ys rule: list_induct2)
  case Nil
  then show ?case by simp
next
  case (Cons x xs y ys)
  have "prefix (code x) (concat (map code (x # xs)) @ r)" by simp
  moreover have "prefix (code y) (concat (map code (x # xs)) @ r)" using Cons.prems(3) by simp
  ultimately have "x = y" using Cons.prems(1,2) by (intro next_unique) auto
  with Cons show ?case by simp
qed

lemma text_inject:
  assumes "set xs \<subseteq> syms" "set ys \<subseteq> syms" "concat (map code xs) = concat (map code ys)"
  shows "xs = ys"
  using assms
proof (induction xs arbitrary: ys)
  case Nil
  then show ?case by (cases ys) (auto dest: code_nonempty)
next
  case (Cons x xs)
  then obtain y zs where ys: "ys = y # zs" by (cases ys) (auto dest: code_nonempty)
  have "prefix (code x) (concat (map code (x # xs)))" by simp
  moreover have "prefix (code y) (concat (map code (x # xs)))" using Cons.prems(3) ys by simp
  ultimately have "x = y" using Cons.prems(1,2) ys by (intro next_unique) auto
  with Cons ys show ?case by simp
qed

end

interpretation huff: prefix_code code_bits "{..<257}"
  by unfold_locales (auto simp: code_bits_nonempty intro: code_prefix_free)

section \<open>Properties\<close>

text \<open>
  \<open>huffman::decode\<close> inverts the table: given a code and a length it returns a symbol exactly
  when the table has that code with that length under that symbol, so the perfect hash behind
  it (\<open>asso_values\<close>, \<open>wordlist\<close>) misses no code and accepts no other.
\<close>

lemma huffman_decode_exact:
  "huffman_decode (c, l) = Some i \<longleftrightarrow> i \<le> EOS \<and> huffman_encode i = (c, l)"
  by (auto simp: huffman_decode_iff huffman_encode_def EOS_def)

text \<open>
  C14: The Huffman table is a complete prefix code: every 32-bit string starts with the code of
  exactly one symbol, and the length of that code is one of those \<open>allowed_code_lengths\<close> lists.
\<close>

theorem huffman_complete_prefix_code:
  "(\<exists>!i. i \<le> EOS \<and> prefix (code_bits i) (bits_of 32 (w :: u32))) \<and>
   (\<forall>i \<le> EOS. length (code_bits i) = snd (huffman_encode i) \<and> snd (huffman_encode i) \<in> set allowed_code_lengths)"
proof
  have iff: "i \<le> EOS \<longleftrightarrow> i < 257" for i by (auto simp: EOS_def)
  show "\<exists>!i. i \<le> EOS \<and> prefix (code_bits i) (bits_of 32 w)"
    unfolding iff using code_complete [of w] huff.next_unique by (metis lessThan_iff)
  show "\<forall>i \<le> EOS. length (code_bits i) = snd (huffman_encode i) \<and> snd (huffman_encode i) \<in> set allowed_code_lengths"
    unfolding iff
  proof (intro allI impI conjI)
    fix i :: nat
    assume i: "i < 257"
    then show "length (code_bits i) = snd (huffman_encode i)" by (simp add: length_code_bits huffman_encode_def)
    obtain c l where cl: "huffman_table ! i = (c, l)" by (cases "huffman_table ! i")
    show "snd (huffman_encode i) \<in> set allowed_code_lengths"
      using table_entry(6) [OF i cl] cl by (simp add: huffman_encode_def allowed_code_lengths_def)
  qed
qed

theorem huffman_complete_prefix_code_witness: "length (code_bits 48) = 5"
  using huffman_complete_prefix_code
  by (simp add: EOS_def huffman_encode_def huffman_table_def huffman_table_0_def nth_append)

end
