(* ===== verification/Hpack_String.thy ===== *)
theory Hpack_String
  imports Hpack_Integer Huffman_Prefix
begin

text \<open>
  HPACK string literals: the bit stream (\<open>lib/hpack/bitstream.{h,cpp}\<close>) and \<open>string::decode\<close>
  with its Huffman reader (\<open>lib/hpack/string.{h,cpp}\<close>). The lemmas say which bits
  \<open>take_bits\<close> returns, where its shift is defined, and what the reader makes of every
  Huffman-coded text.
\<close>

section \<open>ibitstream\<close>

record ibitstream =
  ib_data :: span
  ib_offset :: nat

definition ib_pos :: "ibitstream \<Rightarrow> nat" where
  "ib_pos st = ib_offset st"

definition ib_empty :: "ibitstream \<Rightarrow> bool" where
  "ib_empty st \<longleftrightarrow> ib_offset st = sp_len (ib_data st) * 8"

text \<open>The \<open>uint64_t\<close> at a pointer, converted from big-endian order.\<close>

definition load_be64 :: "(int \<Rightarrow> byte) \<Rightarrow> int \<Rightarrow> u64" where
  "load_be64 mem a = from_be (map (\<lambda>k. mem (a + int k)) [0..<8])"

text \<open>
  The shift count is computed in \<open>size_t\<close> and wraps below zero; shifting a \<open>uint64_t\<close> by 64 or
  more is not defined.
\<close>

definition take_bits :: "nat \<Rightarrow> ibitstream \<Rightarrow> u32 result" where
  "take_bits len st =
     (let offset = ib_offset st;
          last_ind = (offset + len) div 8;
          last_gap = 8 - (offset + len) mod 8;
          bytes_len = last_ind - offset div 8 + 1;
          first_gap = offset mod 8;
          bits = load_be64 (sp_mem (ib_data st)) (int last_ind - 7);
          bits' = bits AND push_bit last_gap (make_mask len);
          shift = 32 - of_nat (bytes_len * 8) + of_nat first_gap :: u64
      in if shift \<ge> 64 then Inl undefined_behaviour
         else Inr (ucast (push_bit (unat shift) bits')))"

definition commit_bits :: "nat \<Rightarrow> ibitstream \<Rightarrow> ibitstream" where
  "commit_bits bit_len st =
     st\<lparr>ib_offset := min (ib_offset st + bit_len) (sp_len (ib_data st) * 8)\<rparr>"

section \<open>string::decode\<close>

text \<open>The \<open>for\<close> loop over the code lengths: the first that yields a symbol, with its length.\<close>

fun try_lengths :: "nat list \<Rightarrow> ibitstream \<Rightarrow> (nat \<times> nat) option result" where
  "try_lengths [] st = Inr None"
| "try_lengths (bit_len # lens) st =
     bind_res (take_bits bit_len st) (\<lambda>hcode.
       case huffman_decode (hcode, bit_len) of
         Some index \<Rightarrow> Inr (Some (index, bit_len))
       | None \<Rightarrow> try_lengths lens st)"

lemma try_lengths_Some: "try_lengths lens st = Inr (Some (index, l)) \<Longrightarrow> index < 257 \<and> 5 \<le> l"
proof (induction lens)
  case Nil
  then show ?case by simp
next
  case (Cons k lens)
  show ?case
  proof (cases "take_bits k st")
    case (Inr h)
    with Cons show ?thesis
      by (auto split: option.splits simp: huffman_decode_iff dest: table_entry(1))
  qed (use Cons.prems in simp)
qed

text \<open>The \<open>while\<close> loop of \<open>read_huffman_str\<close>.\<close>

function read_huffman_loop :: "ibitstream \<Rightarrow> byte list \<Rightarrow> byte list result" where
  "read_huffman_loop st result =
     (let size_bits = sp_len (ib_data st) * 8;
          mask = make_mask (size_bits - ib_pos st) :: byte;
          back = sp_mem (ib_data st) (int (sp_len (ib_data st)) - 1)
      in if ib_empty st then Inr result
         else if size_bits - ib_pos st < 8 \<and> mask = back AND mask then Inr result
         else bind_res (try_lengths allowed_code_lengths st) (\<lambda>r.
           case r of
             None \<Rightarrow> Inl invalid_argument
           | Some (index, code_len) \<Rightarrow>
               if index = EOS then Inr result
               else read_huffman_loop (commit_bits code_len st) (result @ [of_nat index])))"
  by pat_completeness auto
termination
proof (relation "measure (\<lambda>(st, result). if ib_offset st > sp_len (ib_data st) * 8 then 1
      else sp_len (ib_data st) * 8 - ib_offset st)", goal_cases)
  case 1
  show ?case by simp
next
  case (2 st result _ _ _ r p index code_len)
  then have "5 \<le> code_len" using try_lengths_Some by auto
  then show ?case using 2 by (auto simp: commit_bits_def ib_empty_def)
qed

definition read_huffman_str :: "span \<Rightarrow> byte list result" where
  "read_huffman_str src = read_huffman_loop \<lparr>ib_data = src, ib_offset = 0\<rparr> []"

definition string_decode :: "span \<Rightarrow> (nat \<times> byte list) result" where
  "string_decode src =
     (if sp_len src = 0 then Inl invalid_argument
      else
        let is_huffman = (hd (span_bytes src) AND string_flag_value ENCODED \<noteq> 0)
        in bind_res (int_decode 1 (span_bytes src)) (\<lambda>(used_bytes, str_length).
             let src' = subspan used_bytes src
             in if sp_len src' < unat str_length then Inl invalid_argument
                else bind_res
                  (if \<not> is_huffman then Inr (take (unat str_length) (span_bytes src'))
                   else read_huffman_str (first_span (unat str_length) src'))
                  (\<lambda>val. Inr (used_bytes + unat str_length, val))))"

declare read_huffman_loop.simps [simp del]

section \<open>What take_bits returns\<close>

text \<open>Bit \<open>i\<close> of memory, counting from the most significant bit of the byte at offset 0.\<close>

definition mem_bit :: "(int \<Rightarrow> byte) \<Rightarrow> nat \<Rightarrow> bool" where
  "mem_bit mem i = bit (mem (int (i div 8))) (7 - i mod 8)"

lemma split8:
  fixes k :: nat
  obtains q r where "k = 8 * q + r" "r < 8" "k div 8 = q" "k mod 8 = r"
  by (rule that [of "k div 8" "k mod 8"]) simp_all

lemma bit_load_be64:
  assumes k: "k < 64"
  shows "bit (load_be64 mem a) k = bit (mem (a + 7 - int (k div 8))) (k mod 8)"
proof -
  obtain q r where qr: "k = 8 * q + r" "r < 8" "k div 8 = q" "k mod 8 = r" by (rule split8)
  then have q: "q < 8" using k by simp
  obtain t where t: "7 - r = t" "t < 8" by simp
  then have "63 - k = t + 8 * (7 - q)" using qr q by simp
  then have dm: "(63 - k) div 8 = 7 - q" "(63 - k) mod 8 = 7 - r" using t by simp_all
  let ?bs = "map (\<lambda>k. mem (a + int k)) [0..<8]"
  have "bits_of 64 (load_be64 mem a) = bytes_bits ?bs"
    using bits_of_from_be [of ?bs, where 'a = 64] by (simp add: load_be64_def)
  then have "bits_of 64 (load_be64 mem a) ! (63 - k) = bytes_bits ?bs ! (63 - k)" by simp
  also have "\<dots> = bit (?bs ! (7 - q)) (7 - (7 - r))"
    using dm by (subst nth_bytes_bits) simp_all
  also have "?bs ! (7 - q) = mem (a + int (7 - q))"
    by (subst nth_map) (simp, subst nth_upt, simp_all del: upt_rec_numeral)
  finally show ?thesis
    using k q qr by (simp add: nth_bits_of of_nat_diff algebra_simps)
qed

lemma gap_eq:
  fixes q r p s :: nat
  assumes "q * 8 + r = offset + len" "p * 8 + s = offset" "r < 8" "p \<le> q"
  shows "(q - p + 1) * 8 = s + len + (8 - r)"
proof -
  obtain d where "q = p + d" using assms(4) le_Suc_ex by blast
  then show ?thesis using assms by simp
qed

lemma take_bits_gap:
  fixes offset len :: nat
  shows "((offset + len) div 8 - offset div 8 + 1) * 8 = offset mod 8 + len + (8 - (offset + len) mod 8)"
  by (rule gap_eq [where offset = offset]) (simp_all add: div_le_mono)

definition last_gap :: "nat \<Rightarrow> nat" where
  "last_gap e = 8 - e mod 8"

lemma four_bytes:
  fixes x f g len :: nat
  assumes "x * 8 = f + len + g" "1 \<le> g" "g \<le> 8" "f < 8"
  shows "len + g \<le> 32 \<longleftrightarrow> f + len < 32"
proof (cases "x \<le> 4")
  case True
  then show ?thesis using assms by simp
next
  case False
  then have "5 \<le> x" by simp
  then show ?thesis using assms by simp
qed

lemma last_gap_fits: "len + last_gap (offset + len) \<le> 32 \<longleftrightarrow> offset mod 8 + len < 32"
  by (rule four_bytes [of "(offset + len) div 8 - offset div 8 + 1"])
    (unfold last_gap_def, rule take_bits_gap, simp_all add: Suc_leI)

lemma shift_count:
  assumes "n \<le> 40"
  shows "(64 \<le> (32 - of_nat n :: u64)) \<longleftrightarrow> 32 < n" and "n \<le> 32 \<Longrightarrow> unat (32 - of_nat n :: u64) = 32 - n"
proof -
  have small: "unat (32 - of_nat n :: u64) = 32 - n" if "n \<le> 32"
  proof -
    have "32 - of_nat n = (of_nat (32 - n) :: u64)" using that by (simp add: of_nat_diff)
    then show ?thesis by (simp add: unat_of_nat)
  qed
  have large: "64 \<le> (32 - of_nat n :: u64)" if "32 < n"
  proof -
    define d where "d = n - 32"
    then have d: "n = 32 + d" "0 < d" "d \<le> 8" using that assms by simp_all
    then have "32 - of_nat n = (- of_nat d :: u64)" by simp
    also have "\<dots> = of_nat (2 ^ 64 - d)" using d by (simp add: of_nat_diff)
    finally have "unat (32 - of_nat n :: u64) = unat (of_nat (2 ^ 64 - d) :: u64)" by simp
    also have "\<dots> = 2 ^ 64 - d" by (subst unat_of_nat) (use d in simp)
    finally have "unat (32 - of_nat n :: u64) = 2 ^ 64 - d" .
    then show ?thesis using d by (simp add: word_le_nat_alt)
  qed
  show "(64 \<le> (32 - of_nat n :: u64)) \<longleftrightarrow> 32 < n"
  proof (cases "n \<le> 32")
    case True
    then show ?thesis using small by (simp add: word_le_nat_alt)
  qed (use large in simp)
  show "n \<le> 32 \<Longrightarrow> unat (32 - of_nat n :: u64) = 32 - n" by (rule small)
qed

lemma take_bits_eq:
  assumes "len \<le> 32"
  shows "take_bits len st =
    (let g = last_gap (ib_offset st + len)
     in if len + g \<le> 32
        then Inr (ucast (push_bit (32 - (len + g))
          (load_be64 (sp_mem (ib_data st)) (int ((ib_offset st + len) div 8) - 7) AND push_bit g (make_mask len))))
        else Inl undefined_behaviour)"
proof -
  let ?o = "ib_offset st"
  let ?g = "last_gap (?o + len)"
  have n: "len + ?g \<le> 40" using assms by (simp add: last_gap_def)
  have shift: "32 - of_nat (((?o + len) div 8 - ?o div 8 + 1) * 8) + of_nat (?o mod 8) =
      (32 - of_nat (len + ?g) :: u64)"
    by (simp only: take_bits_gap last_gap_def of_nat_add) simp
  show ?thesis
  proof (cases "len + ?g \<le> 32")
    case True
    then show ?thesis
      unfolding take_bits_def Let_def last_gap_def [symmetric] shift shift_count [OF n] shift_count(2) [OF n True]
      by (simp only: True not_less [symmetric] if_False if_True simp_thms)
  next
    case False
    then have "64 \<le> (32 - of_nat (len + ?g) :: u64)" using shift_count [OF n] by simp
    with False show ?thesis
      unfolding take_bits_def Let_def last_gap_def [symmetric] shift by (simp only: if_False if_True simp_thms)
  qed
qed

lemma take_bits_undefined_iff:
  assumes "len \<le> 32"
  shows "take_bits len st = Inl undefined_behaviour \<longleftrightarrow> 32 \<le> ib_offset st mod 8 + len"
  using take_bits_eq [OF assms, of st] last_gap_fits [of len "ib_offset st"] by (auto simp: Let_def)

lemma bit_take_bits:
  fixes w :: u64
  assumes "j < 32" "s + g + len = 32"
  shows "bit (ucast (push_bit s (w AND push_bit g (make_mask len))) :: u32) j \<longleftrightarrow>
    s + g \<le> j \<and> bit w (j - s)"
  using assms by (auto simp: bit_ucast_iff bit_push_bit_iff bit_and_iff bit_make_mask)

lemma pos_eq:
  fixes q r k offset t len :: nat
  assumes "q * 8 + r = offset + len" "r < 8" "t < len" "k = len + (8 - r) - 1 - t"
  shows "q * 8 + 7 = offset + t + k"
  using assms by simp

lemma mirror8:
  fixes p q k :: nat
  assumes "q * 8 + 7 = p + k"
  shows "int q - int (k div 8) = int (p div 8)" and "k mod 8 = 7 - p mod 8"
proof -
  obtain a b where k: "k = 8 * a + b" "b < 8" "k div 8 = a" "k mod 8 = b" by (rule split8)
  obtain c d where p: "p = 8 * c + d" "d < 8" "p div 8 = c" "p mod 8 = d" by (rule split8)
  have "q = a + c"
  proof (rule ccontr)
    assume "q \<noteq> a + c"
    then have "q + 1 \<le> a + c \<or> a + c + 1 \<le> q" by linarith
    then show False using assms k(1,2) p(1,2) by linarith
  qed
  moreover from this have "b = 7 - d" using assms k(1) p(1) by linarith
  ultimately show "int q - int (k div 8) = int (p div 8)" and "k mod 8 = 7 - p mod 8"
    using k p by simp_all
qed

lemma take_bits_pos:
  fixes offset t len :: nat
  assumes "t < len" "k = len + last_gap (offset + len) - 1 - t"
  shows "int ((offset + len) div 8) - int (k div 8) = int ((offset + t) div 8)"
    and "k mod 8 = 7 - (offset + t) mod 8"
proof -
  have "(offset + len) div 8 * 8 + 7 = offset + t + k"
    by (rule pos_eq [of _ "(offset + len) mod 8" _ len]) (use assms in \<open>simp_all add: last_gap_def\<close>)
  note m = mirror8 [OF this]
  show "int ((offset + len) div 8) - int (k div 8) = int ((offset + t) div 8)"
    and "k mod 8 = 7 - (offset + t) mod 8" by (rule m)+
qed

lemma take_bits_bits:
  assumes fits: "ib_offset st mod 8 + len < 32"
  shows "\<exists>h. take_bits len st = Inr h \<and>
    bits_of 32 h = map (mem_bit (sp_mem (ib_data st))) [ib_offset st..<ib_offset st + len] @ replicate (32 - len) False"
proof -
  let ?o = "ib_offset st" and ?mem = "sp_mem (ib_data st)"
  let ?g = "last_gap (?o + len)"
  let ?load = "load_be64 ?mem (int ((?o + len) div 8) - 7)"
  let ?h = "ucast (push_bit (32 - (len + ?g)) (?load AND push_bit ?g (make_mask len))) :: u32"
  have le: "len + ?g \<le> 32" using fits by (simp add: last_gap_fits)
  have "take_bits len st = Inr ?h"
    using take_bits_eq [of len st] le by (simp add: Let_def)
  moreover have "bits_of 32 ?h = map (mem_bit ?mem) [?o..<?o + len] @ replicate (32 - len) False"
    (is "?l = ?r")
  proof (rule nth_equalityI)
    show "length ?l = length ?r" using le by simp
    fix t assume "t < length ?l"
    then have t: "t < 32" by simp
    have l: "?l ! t \<longleftrightarrow> 32 - len \<le> 31 - t \<and> bit ?load (31 - t - (32 - (len + ?g)))"
      using t le bit_take_bits [of "31 - t" "32 - (len + ?g)" ?g len ?load] by (simp add: nth_bits_of)
    show "?l ! t = ?r ! t"
    proof (cases "t < len")
      case True
      define k where "k = len + ?g - 1 - t"
      have k: "k < 64" "31 - t - (32 - (len + ?g)) = k" "32 - len \<le> 31 - t"
        using le True by (auto simp: k_def)
      have "?l ! t = bit ?load k" using l k by simp
      also have "\<dots> = mem_bit ?mem (?o + t)"
        using take_bits_pos [OF True k_def] k(1) by (simp add: bit_load_be64 mem_bit_def)
      finally show ?thesis using True by (simp add: nth_append)
    next
      case False
      then show ?thesis
        using t le l by (auto simp: nth_append)
    qed
  qed
  ultimately show ?thesis by blast
qed

section \<open>Reading one symbol\<close>

lemma aligned_code:
  assumes "i < 257" and cl: "huffman_table ! i = (c, l)"
  shows "bits_of 32 c = code_bits i @ replicate (32 - l) False"
proof -
  note t = table_entry [OF assms]
  have "take l (bits_of 32 c) = code_bits i"
    using t(2) cl take_bits_of_drop [of l 32 32 c] by (simp add: code_bits_def)
  moreover have "drop l (bits_of 32 c) = replicate (32 - l) False"
  proof (rule nth_equalityI)
    fix k assume k: "k < length (drop l (bits_of 32 c))"
    have "take_bit (32 - l) (unat c) = 0" using t(5) by (simp add: take_bit_eq_mod)
    then have "\<not> bit (take_bit (32 - l) (unat c)) (31 - (l + k))" by simp
    then have "\<not> bit c (31 - (l + k))"
      using k by (auto simp: bit_take_bit_iff bit_unsigned_iff)
    then show "drop l (bits_of 32 c) ! k = replicate (32 - l) False ! k"
      using k t(2) by (simp add: nth_bits_of)
  qed simp
  ultimately show ?thesis by (metis append_take_drop_id)
qed

lemma huffman_decode_bits:
  assumes "bits_of 32 h = bs @ replicate (32 - length bs) False"
  shows "huffman_decode (h, length bs) = Some i \<longleftrightarrow> i < 257 \<and> code_bits i = bs"
proof
  assume "huffman_decode (h, length bs) = Some i"
  then have i: "i < 257" "huffman_table ! i = (h, length bs)" by (simp_all add: huffman_decode_iff)
  then have "code_bits i @ replicate (32 - length bs) False = bs @ replicate (32 - length bs) False"
    using aligned_code assms by simp
  with i show "i < 257 \<and> code_bits i = bs" by simp
next
  assume i: "i < 257 \<and> code_bits i = bs"
  obtain c l where cl: "huffman_table ! i = (c, l)" by (cases "huffman_table ! i")
  have l: "l = length bs" using i cl length_code_bits [of i] by simp
  have "bits_of 32 c = bits_of 32 h" using aligned_code [OF conjunct1 [OF i] cl] i assms l by simp
  then have "c = h" by (intro bits_of_inject) simp
  then show "huffman_decode (h, length bs) = Some i" using i cl l by (simp add: huffman_decode_iff)
qed

definition bits_ahead :: "ibitstream \<Rightarrow> nat \<Rightarrow> bool list" where
  "bits_ahead st n = map (mem_bit (sp_mem (ib_data st))) [ib_offset st..<ib_offset st + n]"

lemma length_bits_ahead [simp]: "length (bits_ahead st n) = n"
  by (simp add: bits_ahead_def)

lemma take_bits_ahead: "m \<le> n \<Longrightarrow> take m (bits_ahead st n) = bits_ahead st m"
  by (simp add: bits_ahead_def take_map)

text \<open>
  Trying the code lengths in ascending order finds the symbol whose code lies ahead, or shifts
  too far, when the code reaches past the fourth byte.
\<close>

lemma try_lengths_sorted:
  assumes i: "i < 257" "code_bits i = bits_ahead st len"
    and "sorted_wrt (<) lens" "len \<in> set lens" "len \<le> 32"
  shows "try_lengths lens st =
    (if ib_offset st mod 8 + len < 32 then Inr (Some (i, len)) else Inl undefined_behaviour)"
  using assms(3-)
proof (induction lens)
  case Nil
  then show ?case by simp
next
  case (Cons l lens)
  then have l: "l \<le> len" by auto
  show ?case
  proof (cases "ib_offset st mod 8 + l < 32")
    case False
    then have "take_bits l st = Inl undefined_behaviour"
      using l Cons.prems by (subst take_bits_undefined_iff) simp_all
    then show ?thesis using False l by simp
  next
    case True
    then obtain h where h: "take_bits l st = Inr h"
        "bits_of 32 h = bits_ahead st l @ replicate (32 - length (bits_ahead st l)) False"
      using take_bits_bits [of st l] by (auto simp: bits_ahead_def)
    note dec = huffman_decode_bits [OF h(2), unfolded length_bits_ahead]
    show ?thesis
    proof (cases "l = len")
      case eq: True
      then have "huffman_decode (h, l) = Some i" using dec i by simp
      then show ?thesis using h True eq by simp
    next
      case False
      have "huffman_decode (h, l) \<noteq> Some j" for j
      proof
        assume "huffman_decode (h, l) = Some j"
        then have j: "j < 257" "code_bits j = bits_ahead st l" by (simp_all add: dec)
        then have "prefix (code_bits j) (code_bits i)"
          using i l by (simp add: prefix_iff_take take_bits_ahead)
        then have "code_bits j = code_bits i" using code_prefix_free i j by metis
        then show False using i j False by (metis length_bits_ahead)
      qed
      then have "huffman_decode (h, l) = None" by auto
      then show ?thesis using h False Cons by simp
    qed
  qed
qed

lemma try_lengths_ahead:
  assumes "i < 257" "code_bits i = bits_ahead st len"
  shows "try_lengths allowed_code_lengths st =
    (if ib_offset st mod 8 + len < 32 then Inr (Some (i, len)) else Inl undefined_behaviour)"
proof (rule try_lengths_sorted [OF assms])
  obtain c l where cl: "huffman_table ! i = (c, l)" by (cases "huffman_table ! i")
  have l: "l = len" using cl assms length_code_bits [of i] by simp
  show "sorted_wrt (<) allowed_code_lengths" by (simp add: allowed_code_lengths_def code_len_array_def)
  show "len \<in> set allowed_code_lengths" "len \<le> 32"
    using table_entry [OF assms(1) cl] l by (simp_all add: allowed_code_lengths_def)
qed

section \<open>Reading a text\<close>

text \<open>The bits of a text, and whether each of its codes stays within four bytes.\<close>

definition text_bits :: "byte list \<Rightarrow> bool list" where
  "text_bits s = concat (map (\<lambda>b. code_bits (unat b)) s)"

fun readable :: "nat \<Rightarrow> byte list \<Rightarrow> bool" where
  "readable offset [] = True"
| "readable offset (b # s) =
     (offset mod 8 + length (code_bits (unat b)) < 32 \<and> readable (offset + length (code_bits (unat b))) s)"

lemma text_bits_simps [simp]:
  "text_bits [] = []" "text_bits (b # s) = code_bits (unat b) @ text_bits s"
  by (simp_all add: text_bits_def)

lemma readable_short:
  "(\<And>b. b \<in> set s \<Longrightarrow> length (code_bits (unat b)) \<le> 24) \<Longrightarrow> readable offset s"
proof (induction s arbitrary: offset)
  case (Cons b s)
  have "offset mod 8 < 8" by simp
  moreover have "length (code_bits (unat b)) \<le> 24" using Cons.prems by simp
  ultimately have "offset mod 8 + length (code_bits (unat b)) < 32" by linarith
  then show ?case using Cons by simp
qed simp

lemma EOS_bits: "code_bits 256 = replicate 30 True"
proof -
  have "huffman_table ! 256 = (0xfffffffc, 30)"
    by (simp add: huffman_table_def nth_append huffman_table_3_def)
  moreover have "drop_bit 2 (0xfffffffc :: u32) = mask 30" by (simp add: mask_eq_exp_minus_1)
  moreover have "bits_of 30 (mask 30 :: u32) = replicate 30 True"
    by (rule nth_equalityI) (auto simp: nth_bits_of bit_mask_iff)
  ultimately show ?thesis by (simp add: code_bits_def)
qed

lemma ones_not_code:
  assumes "code_bits (unat (b :: byte)) = replicate n True" shows "30 < n"
proof (rule ccontr)
  assume "\<not> 30 < n"
  then have "prefix (code_bits (unat b)) (code_bits 256)"
    using assms by (simp add: EOS_bits prefix_iff_take)
  moreover have "unat b < 256" by (rule unat_byte_less)
  ultimately have "unat b = 256" by (intro code_prefix_free) simp_all
  then show False using unat_byte_less [of b] by simp
qed

lemma padding_iff:
  assumes p: "ib_offset st + p = sp_len (ib_data st) * 8" "0 < p" "p < 8"
  shows "(make_mask p :: byte) = sp_mem (ib_data st) (int (sp_len (ib_data st)) - 1) AND make_mask p \<longleftrightarrow>
    bits_ahead st p = replicate p True"
proof -
  let ?mem = "sp_mem (ib_data st)" and ?n = "sp_len (ib_data st)"
  let ?tail = "?mem (int ?n - 1)"
  obtain m where m: "?n = Suc m" using p by (cases ?n) simp_all
  have ahead: "mem_bit ?mem (ib_offset st + k) = bit ?tail (p - 1 - k)" if k: "k < p" for k
  proof -
    define t where "t = 7 - (p - 1 - k)"
    have t: "ib_offset st + k = t + 8 * m" "t < 8" "7 - t = p - 1 - k"
      using p m k by (auto simp: t_def)
    then have "(ib_offset st + k) div 8 = m" "(ib_offset st + k) mod 8 = t" by simp_all
    then show ?thesis using m t(3) by (simp add: mem_bit_def)
  qed
  have "(make_mask p :: byte) = ?tail AND make_mask p \<longleftrightarrow> (\<forall>k<p. bit ?tail k)"
    unfolding bit_eq_iff using p(3) by (simp add: bit_and_iff bit_make_mask) (meson less_trans)
  also have "\<dots> \<longleftrightarrow> (\<forall>k<p. bit ?tail (p - 1 - k))"
    by (metis Suc_diff_1 diff_Suc_less diff_diff_cancel less_Suc_eq_le p(2) diff_le_self le_less_trans)
  also have "\<dots> \<longleftrightarrow> bits_ahead st p = replicate p True"
    using ahead by (auto simp: bits_ahead_def list_eq_iff_nth_eq)
  finally show ?thesis .
qed

lemma bits_ahead_append: "bits_ahead st (m + n) = bits_ahead st m @ bits_ahead (st\<lparr>ib_offset := ib_offset st + m\<rparr>) n"
  by (rule nth_equalityI) (auto simp: bits_ahead_def nth_append)

lemma read_huffman_loop_text:
  assumes "bits_ahead st rest = text_bits s @ replicate p True" "p < 8"
    and "ib_offset st + rest = sp_len (ib_data st) * 8"
  shows "read_huffman_loop st acc =
    (if readable (ib_offset st) s then Inr (acc @ s) else Inl undefined_behaviour)"
  using assms
proof (induction s arbitrary: st acc rest)
  case Nil
  have rest: "rest = p" using arg_cong [OF Nil(1), of length] by simp
  then have "sp_len (ib_data st) * 8 - ib_pos st = p" using Nil(3) by (simp add: ib_pos_def)
  then show ?case
    using padding_iff [of st p] Nil rest
    by (cases "p = 0") (simp_all add: read_huffman_loop.simps [of st] Let_def ib_empty_def)
next
  case (Cons b s)
  let ?code = "code_bits (unat b)"
  let ?l = "length ?code"
  let ?next = "st\<lparr>ib_offset := ib_offset st + ?l\<rparr>"
  have b: "unat b < 256" by (rule unat_byte_less)
  then have i: "unat b < 257" by simp
  have "rest = ?l + length (text_bits s) + p" using arg_cong [OF Cons.prems(1), of length] by simp
  then obtain rest' where rest: "rest = ?l + rest'" by (metis add.assoc)
  then have split: "?code = bits_ahead st ?l" "text_bits s @ replicate p True = bits_ahead ?next rest'"
    using Cons.prems(1) by (simp_all add: bits_ahead_append append_eq_append_conv)
  have nonempty: "0 < rest" using code_bits_nonempty [OF i] rest by simp
  have nopad: "\<not> (rest < 8 \<and> (make_mask rest :: byte) =
      sp_mem (ib_data st) (int (sp_len (ib_data st)) - 1) AND make_mask rest)"
  proof
    assume pad: "rest < 8 \<and> (make_mask rest :: byte) =
      sp_mem (ib_data st) (int (sp_len (ib_data st)) - 1) AND make_mask rest"
    then have "bits_ahead st rest = replicate rest True"
      using padding_iff [OF Cons.prems(3)] nonempty by blast
    then have "?code = replicate ?l True" using rest split by (metis take_bits_ahead le_add1 take_replicate min.absorb1)
    then show False using ones_not_code [of b ?l] pad rest by simp
  qed
  have step: "read_huffman_loop st acc =
      (if ib_offset st mod 8 + ?l < 32 then read_huffman_loop ?next (acc @ [b]) else Inl undefined_behaviour)"
  proof -
    have "sp_len (ib_data st) * 8 - ib_pos st = rest" "\<not> ib_empty st"
      using Cons.prems(3) nonempty by (simp_all add: ib_pos_def ib_empty_def)
    moreover have "commit_bits ?l st = ?next" using Cons.prems(3) rest by (simp add: commit_bits_def)
    ultimately show ?thesis
      using nopad try_lengths_ahead [OF i split(1)] b
      by (subst read_huffman_loop.simps) (cases "rest < 8"; simp add: Let_def EOS_def)
  qed
  show ?case
    using step Cons.IH [OF split(2) [symmetric] Cons.prems(2), of "acc @ [b]"] Cons.prems(3) rest by simp
qed

text \<open>The bits of a text with the padding of the last byte, as the encoder writes them.\<close>

definition huffman_coding :: "byte list \<Rightarrow> byte list \<Rightarrow> bool" where
  "huffman_coding s bs \<longleftrightarrow> (\<exists>p<8. bytes_bits bs = text_bits s @ replicate p True)"

lemma bits_ahead_start: "bits_ahead \<lparr>ib_data = src, ib_offset = 0\<rparr> (8 * sp_len src) = bytes_bits (span_bytes src)"
  by (rule nth_equalityI) (auto simp: bits_ahead_def nth_bytes_bits mem_bit_def)

lemma read_huffman_str_coding:
  assumes "huffman_coding s (span_bytes src)"
  shows "read_huffman_str src = (if readable 0 s then Inr s else Inl undefined_behaviour)"
proof -
  obtain p where "p < 8" "bytes_bits (span_bytes src) = text_bits s @ replicate p True"
    using assms by (auto simp: huffman_coding_def)
  then show ?thesis
    using read_huffman_loop_text [of "\<lparr>ib_data = src, ib_offset = 0\<rparr>" "8 * sp_len src" s p "[]"]
    by (simp add: read_huffman_str_def bits_ahead_start)
qed

lemma bits_of_surj: "\<exists>w :: 'a::len word. bits_of (length bs) w = bs" if "length bs \<le> LENGTH('a)"
proof
  show "bits_of (length bs) (horner_sum of_bool 2 (rev bs) :: 'a word) = bs"
    using that by (intro nth_equalityI) (auto simp: nth_bits_of bit_horner_sum_bit_word_iff rev_nth)
qed

lemma try_lengths_total:
  "\<exists>i l. i < 257 \<and> l = length (code_bits i) \<and> try_lengths allowed_code_lengths st =
    (if ib_offset st mod 8 + l < 32 then Inr (Some (i, l)) else Inl undefined_behaviour)"
proof -
  obtain w :: u32 where w: "bits_of 32 w = bits_ahead st 32"
    using bits_of_surj [of "bits_ahead st 32", where 'a = 32] by auto
  obtain i where i: "i < 257" "prefix (code_bits i) (bits_ahead st 32)"
    using code_complete [of w] w by auto
  have "length (code_bits i) \<le> 32" using prefix_length_le [OF i(2)] by simp
  then have "code_bits i = bits_ahead st (length (code_bits i))"
    using i(2) by (simp add: prefix_iff_take take_bits_ahead)
  from try_lengths_ahead [OF i(1) this] i(1) show ?thesis by blast
qed

lemma read_huffman_loop_errors: "read_huffman_loop st acc = Inl e \<Longrightarrow> e = undefined_behaviour"
proof (induction st acc rule: read_huffman_loop.induct)
  case (1 st acc)
  obtain i l where "try_lengths allowed_code_lengths st =
      (if ib_offset st mod 8 + l < 32 then Inr (Some (i, l)) else Inl undefined_behaviour)"
    using try_lengths_total by blast
  with 1 show ?case
    by (subst (asm) (2) read_huffman_loop.simps) (auto simp: Let_def split: if_splits)
qed

lemma read_huffman_loop_Inr:
  assumes "read_huffman_loop st acc = Inr r" "r \<noteq> acc"
  shows "\<exists>i l. \<not> ib_empty st \<and> i < 256 \<and> 5 \<le> l \<and> read_huffman_loop (commit_bits l st) (acc @ [of_nat i]) = Inr r"
proof -
  obtain i l where il: "i < 257" "try_lengths allowed_code_lengths st =
      (if ib_offset st mod 8 + l < 32 then Inr (Some (i, l)) else Inl undefined_behaviour)"
    using try_lengths_total by blast
  then have l: "ib_offset st mod 8 + l < 32 \<Longrightarrow> 5 \<le> l" using try_lengths_Some by auto
  have "\<not> ib_empty st \<and> ib_offset st mod 8 + l < 32 \<and> i \<noteq> EOS \<and>
      read_huffman_loop (commit_bits l st) (acc @ [of_nat i]) = Inr r"
    using assms il by (subst (asm) read_huffman_loop.simps) (auto simp: Let_def split: if_splits)
  moreover from this have "i < 256" "5 \<le> l" using il(1) l by (simp_all add: EOS_def)
  ultimately show ?thesis by blast
qed

lemma read_huffman_loop_size:
  assumes "read_huffman_loop st acc = Inr r" "ib_offset st \<le> sp_len (ib_data st) * 8"
  shows "5 * length r \<le> 5 * length acc +
    (if ib_empty st then 0 else sp_len (ib_data st) * 8 - ib_offset st + 4)"
  using assms
proof (induction "sp_len (ib_data st) * 8 - ib_offset st" arbitrary: st acc rule: less_induct)
  case less
  show ?case
  proof (cases "r = acc")
    case False
    then obtain i l where step: "\<not> ib_empty st" "5 \<le> l"
        "read_huffman_loop (commit_bits l st) (acc @ [of_nat i]) = Inr r"
      using read_huffman_loop_Inr [OF less.prems(1)] by blast
    have off: "ib_offset st < sp_len (ib_data st) * 8" using step(1) less.prems(2) by (simp add: ib_empty_def)
    have next_off: "ib_offset (commit_bits l st) = min (ib_offset st + l) (sp_len (ib_data st) * 8)"
        "ib_data (commit_bits l st) = ib_data st" by (simp_all add: commit_bits_def)
    have "5 * length r \<le> 5 * length (acc @ [of_nat i :: byte]) + (if ib_empty (commit_bits l st) then 0
        else sp_len (ib_data st) * 8 - ib_offset (commit_bits l st) + 4)"
      using less.hyps [OF _ step(3)] off step(2) by (simp only: next_off)
    then show ?thesis using step(1,2) off by (auto simp: commit_bits_def ib_empty_def split: if_splits)
  qed simp
qed

section \<open>Strings as a codec\<close>

text \<open>The encodings of a string: literally, or Huffman-coded, after its length.\<close>

definition string_coding :: "byte list \<Rightarrow> byte list \<Rightarrow> bool" where
  "string_coding s bs \<longleftrightarrow> (\<exists>f n body. length body < 2 ^ 32 \<and> int_encode_flag f (of_nat (length body)) = Inr n \<and>
     bs = n @ body \<and> (case f of INPLACE \<Rightarrow> body = s | ENCODED \<Rightarrow> huffman_coding s body \<and> readable 0 s))"

lemma flag_bit:
  assumes "int_encode_flag f v = Inr n"
  shows "hd n AND string_flag_value ENCODED = 0 \<longleftrightarrow> f = INPLACE"
proof -
  obtain p where p: "hd n = string_flag_value f OR p AND make_mask 7"
    using int_encode_first assms by (force simp: int_encode_flag_def)
  have "(0x80 :: byte) = 2 ^ 7" by simp
  then have "bit (hd n) 7 \<longleftrightarrow> f = ENCODED"
    unfolding p by (cases f) (simp_all add: bit_or_iff bit_and_iff bit_make_mask bit_exp_iff del: power_numeral)
  moreover have "hd n AND 0x80 = 0 \<longleftrightarrow> \<not> bit (hd n) 7"
    using and_exp_eq_0_iff_not_bit [of "hd n" 7] by simp
  ultimately show ?thesis by (cases f) simp_all
qed

lemma string_decode_coding:
  assumes "string_coding s bs" and src: "span_bytes src = bs @ rest"
  shows "string_decode src = Inr (length bs, s)"
proof -
  obtain f n body where body: "length body < 2 ^ 32" "int_encode_flag f (of_nat (length body)) = Inr n"
      "bs = n @ body" "case f of INPLACE \<Rightarrow> body = s | ENCODED \<Rightarrow> huffman_coding s body \<and> readable 0 s"
    using assms(1) by (auto simp: string_coding_def)
  have n: "n \<noteq> []" using body(2) int_encode_nonempty by (auto simp: int_encode_flag_def)
  have len: "unat (of_nat (length body) :: u32) = length body"
    using body(1) by (simp add: unat_of_nat)
  have dec: "int_decode 1 (span_bytes src) = Inr (length n, of_nat (length body))"
    using flag_codec.dec_encodes [OF body(2)] src body(3) by simp
  have size: "sp_len src = length n + length body + length rest"
    using arg_cong [OF src, of length] body(3) by simp
  have flag: "hd (span_bytes src) AND string_flag_value ENCODED = 0 \<longleftrightarrow> f = INPLACE"
    using flag_bit [OF body(2)] src body(3) n by simp
  have first: "span_bytes (first_span (length body) (subspan (length n) src)) = body"
    using size src body(3) by simp
  show ?thesis
  proof (cases f)
    case INPLACE
    then show ?thesis using dec size flag src body n len by (simp add: string_decode_def Let_def)
  next
    case ENCODED
    then have "read_huffman_str (first_span (length body) (subspan (length n) src)) = Inr s"
      using read_huffman_str_coding [of s "first_span (length body) (subspan (length n) src)"]
        body(4) unfolding first by simp
    then show ?thesis using ENCODED dec size flag src body n len by (simp add: string_decode_def Let_def)
  qed
qed

lemma string_decode_used:
  assumes "string_decode src = Inr (n, s)"
  shows "1 \<le> n" "n \<le> sp_len src" "5 * length s \<le> 8 * n"
proof -
  obtain used v where dec: "int_decode 1 (span_bytes src) = Inr (used, v)"
    using assms by (cases "int_decode 1 (span_bytes src)") (auto simp: string_decode_def Let_def split: if_splits)
  note u = int_decode_used [OF dec]
  let ?body = "first_span (unat v) (subspan used src)"
  have fits: "unat v \<le> sp_len src - used" and n: "n = used + unat v"
    and s: "s = take (unat v) (drop used (span_bytes src)) \<or> read_huffman_str ?body = Inr s"
    using assms dec by (auto simp: string_decode_def Let_def bind_res_Inr_iff split: if_splits)
  show "1 \<le> n" "n \<le> sp_len src" using u fits n by simp_all
  have "5 * length s \<le> 8 * unat v + 4"
    using s
  proof
    assume "read_huffman_str ?body = Inr s"
    then show ?thesis
      using read_huffman_loop_size [of "\<lparr>ib_data = ?body, ib_offset = 0\<rparr>" "[]" s]
      by (auto simp: read_huffman_str_def split: if_splits)
  qed simp
  then show "5 * length s \<le> 8 * n" using u(1) n by simp
qed

interpretation string_codec: codec string_coding span_bytes string_decode
proof unfold_locales
  show "\<exists>s. span_bytes s = xs" for xs by (rule exI [of _ "span_of (\<lambda>_. 0) xs"]) simp
qed (rule string_decode_coding)

section \<open>Properties\<close>

text \<open>
  \<open>string::decode\<close> reads back every encoding of a string, literal or Huffman-coded, whatever
  follows it in the span and whatever lies in memory around the span. (A Huffman-coded text
  must keep each of its codes within four bytes of where the code begins, which is the case
  for every text whose codes have at most 24 bits.)
\<close>

lemma string_roundtrip:
  assumes "string_coding s bs" and "span_bytes src = bs @ rest"
  shows "string_decode src = Inr (length bs, s)"
  using assms by (rule string_codec.dec_encodes)

lemma code_bits_97: "code_bits 97 = [False, False, False, True, True]"
proof -
  have "huffman_table ! 97 = (0x18000000, 5)"
    by (simp add: huffman_table_def nth_append huffman_table_1_def)
  then show ?thesis by (simp add: code_bits_def bits_of_def upt_rec)
qed

text \<open>
  C31: What the Huffman reader returns on the code of a text: the text, when each of its codes
  ends within 32 bits of the byte it begins in, and otherwise \<open>take_bits\<close> shifts by more than the
  width of its accumulator. So \<open>0\<close> followed by a line feed, a code of 30 bits, is not read back.
\<close>

theorem huffman_reader_exact:
  assumes "huffman_coding s (span_bytes src)"
  shows "read_huffman_str src = (if readable 0 s then Inr s else Inl undefined_behaviour)"
  using assms by (rule read_huffman_str_coding)

lemma code_bits_48_10:
  "code_bits 48 = replicate 5 False" "code_bits 10 = replicate 28 True @ replicate 2 False"
proof -
  have "huffman_table ! 48 = (0x00000000, 5)" "huffman_table ! 10 = (0xfffffff0, 30)"
    by (simp_all add: huffman_table_def nth_append huffman_table_0_def)
  moreover have "drop_bit 2 (0xfffffff0 :: u32) = push_bit 2 (mask 28)" by (simp add: mask_eq_exp_minus_1)
  moreover have "bits_of 30 (push_bit 2 (mask 28) :: u32) = replicate 28 True @ replicate 2 False"
    by (rule nth_equalityI) (auto simp: nth_append nth_bits_of bit_mask_iff bit_push_bit_iff)
  moreover have "bits_of 5 (0 :: u32) = replicate 5 False"
    by (rule nth_equalityI) (auto simp: nth_bits_of)
  ultimately show "code_bits 48 = replicate 5 False" "code_bits 10 = replicate 28 True @ replicate 2 False"
    by (simp_all add: code_bits_def)
qed

theorem huffman_reader_exact_witness:
  "read_huffman_str (span_of (\<lambda>_. 0) [0x07, 0xff, 0xff, 0xff, 0x9f]) = Inl undefined_behaviour"
proof -
  have "text_bits [0x30, 0x0a] = replicate 5 False @ replicate 28 True @ replicate 2 False"
    by (simp add: code_bits_48_10)
  moreover have "bytes_bits [0x07, 0xff, 0xff, 0xff, 0x9f] =
      (replicate 5 False @ replicate 28 True @ replicate 2 False) @ replicate 5 True"
    by (simp add: bytes_bits_def bits_of_def upt_rec eval_nat_numeral)
  ultimately have "huffman_coding [0x30, 0x0a] [0x07, 0xff, 0xff, 0xff, 0x9f]"
    unfolding huffman_coding_def by (intro exI [of _ 5]) simp
  moreover have "\<not> readable 0 [0x30, 0x0a]" by (simp add: code_bits_48_10)
  ultimately show ?thesis
    using huffman_reader_exact [of "[0x30, 0x0a]" "span_of (\<lambda>_. 0) [0x07, 0xff, 0xff, 0xff, 0x9f]"] by simp
qed

lemma code_bits_33_41:
  "code_bits 33 = [True, True, True, True, True, True, True, False, False, False]"
  "code_bits 41 = [True, True, True, True, True, True, True, False, True, True]"
proof -
  have "huffman_table ! 33 = (0xfe000000, 10)" "huffman_table ! 41 = (0xfec00000, 10)"
    by (simp_all add: huffman_table_def nth_append huffman_table_0_def)
  then show "code_bits 33 = [True, True, True, True, True, True, True, False, False, False]"
    "code_bits 41 = [True, True, True, True, True, True, True, False, True, True]"
    by (simp_all add: code_bits_def bits_of_def upt_rec)
qed

lemma read_one_past:
  assumes "sp_len src = 1" "sp_mem src 0 = 0xfe" "i < 256" "code_bits i = bits_ahead \<lparr>ib_data = src, ib_offset = 0\<rparr> 10"
  shows "read_huffman_str src = Inr [of_nat i]"
proof -
  let ?st = "\<lparr>ib_data = src, ib_offset = 0\<rparr>"
  have "try_lengths allowed_code_lengths ?st = Inr (Some (i, 10))"
    using assms(3,4) try_lengths_ahead [of i ?st 10] by simp
  moreover have "ib_empty (commit_bits 10 ?st)" using assms(1) by (simp add: ib_empty_def commit_bits_def)
  ultimately show ?thesis
    using assms unfolding read_huffman_str_def
    by (subst read_huffman_loop.simps, subst read_huffman_loop.simps)
      (simp add: Let_def ib_empty_def ib_pos_def EOS_def)
qed

text \<open>
  A code that the string cuts short is completed from the memory behind the string: the same
  bytes give different strings.
\<close>

lemma string_decode_reads_past_span:
  "string_decode (span_of (\<lambda>_. 0) [0x81, 0xfe]) = Inr (2, [0x21])"
  "string_decode (span_of (\<lambda>_. 0xff) [0x81, 0xfe]) = Inr (2, [0x29])"
proof -
  let ?body = "\<lambda>x. first_span 1 (subspan 1 (span_of (\<lambda>_. x) [0x81, 0xfe]))"
  have "bits_ahead \<lparr>ib_data = ?body 0, ib_offset = 0\<rparr> 10 = code_bits 33"
    "bits_ahead \<lparr>ib_data = ?body 0xff, ib_offset = 0\<rparr> 10 = code_bits 41"
    by (simp_all add: bits_ahead_def code_bits_33_41 upt_rec mem_bit_def first_span_def subspan_def span_of_def)
  then have "read_huffman_str (?body 0) = Inr [of_nat 33]" "read_huffman_str (?body 0xff) = Inr [of_nat 41]"
    by (intro read_one_past; simp add: first_span_def subspan_def span_of_def)+
  then show "string_decode (span_of (\<lambda>_. 0) [0x81, 0xfe]) = Inr (2, [0x21])"
    "string_decode (span_of (\<lambda>_. 0xff) [0x81, 0xfe]) = Inr (2, [0x29])"
    by (simp_all add: string_decode_def int_decode_def make_mask_def Let_def)
qed

text \<open>
  The Huffman reader never rejects its input: the throw of "Can't decode huffman code" is
  not reachable, so wrong padding, a truncated code and a coded EOS symbol are all accepted.
\<close>

lemma huffman_reader_never_rejects:
  "(\<exists>s. read_huffman_str src = Inr s) \<or> read_huffman_str src = Inl undefined_behaviour"
  using read_huffman_loop_errors
  by (cases "read_huffman_str src") (auto simp: read_huffman_str_def)

text \<open>
  A decoded string uses at least one byte and none past the span, and has at most 8/5 of
  the bytes used, since no Huffman code is shorter than five bits.
\<close>

lemma string_decode_bounded:
  assumes "string_decode src = Inr (n, s)"
  shows "1 \<le> n \<and> n \<le> sp_len src \<and> 5 * length s \<le> 8 * n"
  using string_decode_used [OF assms] by simp

end
