(* ===== verification/Hpack_Encoder_Stream.thy ===== *)
theory Hpack_Encoder_Stream
  imports Buffer Hpack_String
begin

text \<open>
  The output stream of the HPACK encoder (\<open>lib/hpack/encoder_stream.{h,cpp}\<close>): a stream buffer with a
  limit, and the Huffman writer with its 64-bit accumulator. The lemmas show that the writer
  produces the Huffman coding of a text that the string decoder reads.
\<close>

record encoder_stream =
  es_stream :: streambuf
  es_max_size :: nat
  es_left :: nat

definition encoder_stream_new :: "nat \<Rightarrow> encoder_stream" where
  "encoder_stream_new limit = \<lparr>es_stream = [], es_max_size = limit, es_left = limit\<rparr>"

definition es_push_back :: "(nat \<Rightarrow> byte) \<Rightarrow> byte list \<Rightarrow> encoder_stream \<Rightarrow> encoder_stream \<times> bool" where
  "es_push_back fill src out =
     (if length src \<le> es_left out
      then (out\<lparr>es_left := es_left out - length src, es_stream := push_back fill src (es_stream out)\<rparr>, True)
      else (out, False))"

text \<open>
  The loop of \<open>encode_string\<close> over the bytes. \<open>val\<close> holds the pending bits in its lowest \<open>len\<close> bits; when
  the next code does not fit, the complete bytes are written in big-endian order.
\<close>

fun encode_string_loop :: "(nat \<Rightarrow> byte) \<Rightarrow> byte list \<Rightarrow> u64 \<Rightarrow> nat \<Rightarrow> streambuf \<Rightarrow> u64 \<times> nat \<times> streambuf" where
  "encode_string_loop fill [] val len stream = (val, len, stream)"
| "encode_string_loop fill (b # src) val len stream =
     (let (huffmanCode, bitLength) = huffman_encode (unat b);
          bites_left = 64 - len;
          ready_bytes = len div 8;
          (len', stream') =
            (if bites_left < bitLength
             then (len - ready_bytes * 8, push_back fill (take ready_bytes (be_bytes 8 (push_bit bites_left val))) stream)
             else (len, stream));
          val' = push_bit bitLength val OR drop_bit (32 - bitLength) (ucast huffmanCode)
      in encode_string_loop fill src val' (len' + bitLength) stream')"

definition encode_string :: "(nat \<Rightarrow> byte) \<Rightarrow> byte list \<Rightarrow> streambuf \<Rightarrow> streambuf" where
  "encode_string fill src stream =
     (let (val, len, stream') = encode_string_loop fill src 0 0 stream
      in if len > 0
         then
           let bites_left = 64 - len;
               val' = push_bit bites_left val OR make_mask bites_left
           in push_back fill (take (unat (ceil_order2 (of_nat len) 3 div 8)) (be_bytes 8 val')) stream'
         else stream')"

definition write_string ::
  "(nat \<Rightarrow> byte) \<Rightarrow> u32 \<times> string_flag \<Rightarrow> byte list \<Rightarrow> byte list \<Rightarrow> encoder_stream \<Rightarrow> encoder_stream" where
  "write_string fill estimation encoded_size src out =
     (if snd estimation = ENCODED
      then out\<lparr>es_stream := encode_string fill src (push_back fill encoded_size (es_stream out))\<rparr>
      else out\<lparr>es_stream := push_back fill src (push_back fill encoded_size (es_stream out))\<rparr>)"

definition es_flush :: "encoder_stream \<Rightarrow> buffer list \<times> encoder_stream" where
  "es_flush out = (fst (flush (es_stream out)),
     out\<lparr>es_left := es_max_size out, es_stream := snd (flush (es_stream out))\<rparr>)"

definition es_bytes_left :: "encoder_stream \<Rightarrow> nat" where
  "es_bytes_left out = es_left out"

section \<open>The Huffman writer\<close>

lemma bits_of_push_bit: "n \<le> 64 \<Longrightarrow> bits_of 64 (push_bit (64 - n) (w :: u64)) = bits_of n w @ replicate (64 - n) False"
  by (rule nth_equalityI) (auto simp: nth_append nth_bits_of bit_push_bit_iff)

lemma bits_of_push_mask:
  "n \<le> 64 \<Longrightarrow> bits_of 64 (push_bit (64 - n) (w :: u64) OR make_mask (64 - n)) = bits_of n w @ replicate (64 - n) True"
  by (rule nth_equalityI) (auto simp: nth_append nth_bits_of bit_push_bit_iff bit_or_iff bit_make_mask)

lemma bytes_bits_take: "bytes_bits (take k bs) = take (8 * k) (bytes_bits bs)"
proof (induction bs arbitrary: k)
  case (Cons b bs)
  then show ?case by (cases k) (simp_all add: take_append)
qed simp

lemma code_bits_huffman_encode:
  assumes "huffman_encode i = (c, l)" "i < 257"
  shows "bits_of l (drop_bit (32 - l) (ucast c :: u64)) = code_bits i" "length (code_bits i) = l" "l \<le> 30"
    "5 \<le> l" "\<And>n. l \<le> n \<Longrightarrow> \<not> bit (drop_bit (32 - l) (ucast c :: u64)) n"
proof -
  have t: "huffman_table ! i = (c, l)" using assms(1) by (simp add: huffman_encode_def)
  note e = table_entry [OF assms(2) t]
  show "l \<le> 30" "5 \<le> l" by (rule e)+
  show "length (code_bits i) = l" using assms(2) t by (simp add: length_code_bits)
  have "bits_of l (drop_bit (32 - l) (ucast c :: u64)) = bits_of l (drop_bit (32 - l) c)"
    using e(2) by (intro nth_equalityI) (auto simp: nth_bits_of bit_drop_bit_eq bit_ucast_iff)
  then show "bits_of l (drop_bit (32 - l) (ucast c :: u64)) = code_bits i" by (simp add: code_bits_def t)
  show "\<not> bit (drop_bit (32 - l) (ucast c :: u64)) n" if "l \<le> n" for n
    using that e(2) by (auto simp: bit_drop_bit_eq bit_ucast_iff dest: bit_imp_le_length)
qed

text \<open>
  The loop keeps all bits in order: what it has written, followed by the pending bits, is what
  was pending before, followed by the codes of the bytes.
\<close>

lemma encode_string_loop_bits:
  assumes "encode_string_loop fill src val len s = (val', len', s')" "len \<le> 64" "streambuf_ok s"
  shows "len' \<le> 64 \<and> streambuf_ok s' \<and> (\<exists>out. contents s' = contents s @ out \<and>
    bytes_bits out @ bits_of len' val' = bits_of len val @ text_bits src)"
  using assms
proof (induction src arbitrary: val len s)
  case Nil
  then show ?case by auto
next
  case (Cons b src)
  obtain c l where cl: "huffman_encode (unat b) = (c, l)" by (cases "huffman_encode (unat b)")
  have "unat b < 257" using unat_byte_less [of b] by simp
  note code = code_bits_huffman_encode [OF cl this]
  define k where "k = (if 64 - len < l then len div 8 else 0)"
  define s1 where "s1 = (if 64 - len < l then push_back fill (take k (be_bytes 8 (push_bit (64 - len) val))) s else s)"
  define out1 where "out1 = take k (be_bytes 8 (push_bit (64 - len) val))"
  define len1 where "len1 = len - k * 8"
  let ?val = "push_bit l val OR drop_bit (32 - l) (ucast c) :: u64"
  have k: "k * 8 \<le> len" "k \<le> 8" using Cons.prems(2) by (auto simp: k_def)
  have len1: "len1 + l \<le> 64" using code(3) Cons.prems(2) by (auto simp: len1_def k_def minus_div_mult_eq_mod)
  have s1: "streambuf_ok s1" "contents s1 = contents s @ out1"
    using Cons.prems(3) by (auto simp: s1_def out1_def k_def sbuf.put_ok sbuf.held_put)
  have out1: "bytes_bits out1 @ bits_of len1 val = bits_of len val"
  proof -
    have "bytes_bits out1 = take (8 * k) (bits_of len val)"
      using k Cons.prems(2) by (simp add: out1_def bytes_bits_take bytes_bits_be_bytes bits_of_push_bit)
    moreover have "bits_of len1 val = drop (8 * k) (bits_of len val)"
      using k drop_bits_of [of len1 len val] by (simp add: len1_def mult.commute)
    ultimately show ?thesis by simp
  qed
  have "bits_of (len1 + l) ?val = bits_of len1 val @ code_bits (unat b)"
    using bits_of_push_or [of len1 l "drop_bit (32 - l) (ucast c)" val] len1 code(1,5) by simp
  moreover have "encode_string_loop fill src ?val (len1 + l) s1 = (val', len', s')"
    using Cons.prems(1) cl by (simp add: Let_def s1_def len1_def k_def split: if_splits)
  from Cons.IH [OF this len1 s1(1)]
  obtain out2 where "len' \<le> 64" "streambuf_ok s'" "contents s' = contents s1 @ out2"
      "bytes_bits out2 @ bits_of len' val' = bits_of (len1 + l) ?val @ text_bits src"
    by blast
  moreover from calculation have "bytes_bits (out1 @ out2) @ bits_of len' val' =
      (bytes_bits out1 @ bits_of len1 val) @ code_bits (unat b) @ text_bits src" by simp
  ultimately show ?case
    using s1(2) out1 by (intro conjI exI [of _ "out1 @ out2"]) simp_all
qed

lemma unat_ceil_bytes: "n < 2 ^ 63 \<Longrightarrow> unat (ceil_order2 (of_nat n) 3 div 8) = (n + 7) div 8"
proof -
  assume n: "n < 2 ^ 63"
  then have u: "unat (of_nat n :: u64) = n" by (simp add: unat_of_nat)
  then have "unat (ceil_order2 (of_nat n) 3) = (n + 7) div 8 * 8"
    using unat_ceil_order2 [of 3 "of_nat n"] n by simp
  then show ?thesis by (simp add: unat_div_distrib)
qed

lemma encode_string_coding:
  assumes "streambuf_ok s"
  shows "streambuf_ok (encode_string fill src s) \<and>
    (\<exists>out. contents (encode_string fill src s) = contents s @ out \<and> huffman_coding src out)"
proof -
  obtain val len s' where loop: "encode_string_loop fill src 0 0 s = (val, len, s')"
    by (cases "encode_string_loop fill src 0 0 s")
  then obtain out where st: "len \<le> 64" "streambuf_ok s'" "contents s' = contents s @ out"
      and bits: "bytes_bits out @ bits_of len val = text_bits src"
    using encode_string_loop_bits [OF loop _ assms] by auto
  show ?thesis
  proof (cases "len = 0")
    case True
    then have "encode_string fill src s = s'" by (simp add: encode_string_def loop)
    then show ?thesis using st bits True by (auto simp: huffman_coding_def intro!: exI [of _ 0])
  next
    case False
    let ?n = "(len + 7) div 8"
    let ?tail = "take ?n (be_bytes 8 (push_bit (64 - len) val OR make_mask (64 - len)))"
    have enc: "encode_string fill src s = push_back fill ?tail s'"
      using False st(1) by (simp add: encode_string_def loop Let_def unat_ceil_bytes)
    have n: "?n \<le> 8" "len \<le> 8 * ?n" "8 * ?n < len + 8" using st(1) by linarith+
    have "bytes_bits ?tail = take (8 * ?n) (bits_of len val @ replicate (64 - len) True)"
      using st(1) by (simp add: bytes_bits_take bytes_bits_be_bytes bits_of_push_mask)
    also have "\<dots> = bits_of len val @ replicate (8 * ?n - len) True"
      using n by (simp add: min_def)
    finally have "bytes_bits (out @ ?tail) = text_bits src @ replicate (8 * ?n - len) True"
      using bits by (simp flip: append_assoc)
    moreover have "8 * ?n - len < 8" using n by linarith
    ultimately have "huffman_coding src (out @ ?tail)" unfolding huffman_coding_def by blast
    then show ?thesis using enc st(2,3) by (auto simp: sbuf.put_ok sbuf.held_put)
  qed
qed

lemma estimate_len_text_bits: "estimate_len src = length (text_bits src)"
proof -
  have len: "snd (huffman_encode (unat b)) = length (code_bits (unat b))" for b :: byte
    using length_code_bits [of "unat b"] unat_byte_less [of b] by (simp add: huffman_encode_def)
  have "foldl (\<lambda>sum b. sum + snd (huffman_encode (unat b))) n src = n + length (text_bits src)" for n
    by (induction src arbitrary: n) (simp_all add: len)
  from this [of 0] show ?thesis by (simp add: estimate_len_def)
qed

lemma huffman_coding_length: "huffman_coding src out \<Longrightarrow> length out = (estimate_len src + 7) div 8"
proof -
  assume "huffman_coding src out"
  then obtain p where p: "p < 8" "bytes_bits out = text_bits src @ replicate p True" by (auto simp: huffman_coding_def)
  have "8 * length out = length (bytes_bits out)" by simp
  also have "\<dots> = estimate_len src + p" unfolding p(2) by (simp add: estimate_len_text_bits)
  finally show ?thesis using p(1) by linarith
qed

section \<open>Properties\<close>

text \<open>
  C15: The Huffman writer and reader are inverse. \<open>encoder_stream::encode_string\<close> appends to the stream
  the codes of the bytes in order, padded with ones to whole bytes, as many as
  \<open>huffman::estimate_len\<close> announced; \<open>read_huffman_str\<close> returns the text from them, given that each code
  ends within 32 bits of the byte it begins in.
\<close>

theorem huffman_write_read:
  assumes "streambuf_ok s" "readable 0 src"
  shows "\<exists>out. contents (encode_string fill src s) = contents s @ out \<and> length out = (estimate_len src + 7) div 8 \<and>
    (\<exists>p<8. bytes_bits out = text_bits src @ replicate p True) \<and>
    (\<forall>sp. span_bytes sp = out \<longrightarrow> read_huffman_str sp = Inr src)"
proof -
  obtain out where out: "contents (encode_string fill src s) = contents s @ out" "huffman_coding src out"
    using encode_string_coding [OF assms(1)] by blast
  then have "read_huffman_str sp = Inr src" if "span_bytes sp = out" for sp
    using read_huffman_str_coding [of src sp] that assms(2) by simp
  then show ?thesis using out huffman_coding_length [OF out(2)] by (auto simp: huffman_coding_def)
qed

theorem huffman_write_read_witness:
  "readable 0 [0x61, 0x61] \<and> length (contents (encode_string (\<lambda>_. 0) [0x61, 0x61] [])) = 2"
proof -
  have "readable 0 [0x61, 0x61]" by (simp add: code_bits_97)
  moreover have "estimate_len [0x61, 0x61] = 10" by (simp add: estimate_len_text_bits code_bits_97)
  ultimately show ?thesis
    using huffman_write_read [OF streambuf_ok_Nil, of "[0x61, 0x61]" "\<lambda>_. 0"] by auto
qed

end
