(* ===== verification/Hpack_Static_Table.thy ===== *)
theory Hpack_Static_Table
  imports H2_Prelude
begin

text \<open>
  The static table of HPACK (\<open>lib/hpack/static_table.{h,cpp}\<close>): its 61 entries, the perfect hash
  over their names and the two searches. The lemmas show that the searches agree with a linear
  search of the table.
\<close>

text \<open>The literal suffix \<open>_sp\<close>: the characters as bytes.\<close>

definition sp :: "string \<Rightarrow> byte list" where
  "sp str = map of_char str"

type_synonym static_field = "byte list \<times> byte list"

text \<open>\<open>operator==\<close> compares as many bytes as the right-hand side has; its callers make sure of equal lengths.\<close>

definition memcmp_eq :: "byte list \<Rightarrow> byte list \<Rightarrow> bool" where
  "memcmp_eq lhs rhs \<longleftrightarrow> take (length rhs) lhs = rhs"

definition field_literals :: "(string \<times> string) list" where
  "field_literals = [
     ('':authority'', ''''), ('':method'', ''GET''), ('':method'', ''POST''), ('':path'', ''/''),
     ('':path'', ''/index.html''), ('':scheme'', ''http''), ('':scheme'', ''https''),
     ('':status'', ''200''), ('':status'', ''204''), ('':status'', ''206''),
     ('':status'', ''304''), ('':status'', ''400''), ('':status'', ''404''),
     ('':status'', ''500''), (''accept-charset'', ''''),
     (''accept-encoding'', ''gzip, deflate''), (''accept-language'', ''''),
     (''accept-ranges'', ''''), (''accept'', ''''), (''access-control-allow-origin'', ''''),
     (''age'', ''''), (''allow'', ''''), (''authorization'', ''''), (''cache-control'', ''''),
     (''content-disposition'', ''''), (''content-encoding'', ''''), (''content-language'', ''''),
     (''content-length'', ''''), (''content-location'', ''''), (''content-range'', ''''),
     (''content-type'', ''''), (''cookie'', ''''), (''date'', ''''), (''etag'', ''''),
     (''expect'', ''''), (''expires'', ''''), (''from'', ''''), (''host'', ''''),
     (''if-match'', ''''), (''if-modified-since'', ''''), (''if-none-match'', ''''),
     (''if-range'', ''''), (''if-unmodified-since'', ''''), (''last-modified'', ''''),
     (''link'', ''''), (''location'', ''''), (''max-forwards'', ''''),
     (''proxy-authenticate'', ''''), (''proxy-authorization'', ''''), (''range'', ''''),
     (''referer'', ''''), (''refresh'', ''''), (''retry-after'', ''''), (''server'', ''''),
     (''set-cookie'', ''''), (''strict-transport-security'', ''''),
     (''transfer-encoding'', ''''), (''user-agent'', ''''), (''vary'', ''''), (''via'', ''''),
     (''www-authenticate'', '''')]"

definition field_table :: "static_field list" where
  "field_table = map (\<lambda>(name, val). (sp name, sp val)) field_literals"

definition st_asso_values :: "nat list" where
  "st_asso_values = [
     66, 66, 66, 66, 66, 66, 66, 66, 66, 66, 66, 66, 66, 66, 66, 66, 66, 66, 66, 66, 66, 66, 66,
     66, 66, 66, 66, 66, 66, 66, 66, 66, 66, 66, 66, 66, 66, 66, 66, 66, 66, 66, 66, 66, 66, 10,
     66, 66, 66, 66, 66, 66, 66, 66, 66, 66, 66, 66, 15, 66, 66, 66, 66, 66, 66, 66, 66, 66, 66,
     66, 66, 66, 66, 66, 66, 66, 66, 66, 66, 66, 66, 66, 66, 66, 66, 66, 66, 66, 66, 66, 66, 66,
     66, 66, 66, 66, 66, 1, 66, 8, 13, 2, 41, 15, 5, 19, 66, 23, 2, 4, 12, 32, 20, 66, 3, 21, 1,
     23, 17, 32, 20, 14, 66, 66, 66, 66, 66, 66, 66, 66, 66, 66, 66, 66, 66, 66, 66, 66, 66, 66,
     66, 66, 66, 66, 66, 66, 66, 66, 66, 66, 66, 66, 66, 66, 66, 66, 66, 66, 66, 66, 66, 66, 66,
     66, 66, 66, 66, 66, 66, 66, 66, 66, 66, 66, 66, 66, 66, 66, 66, 66, 66, 66, 66, 66, 66, 66,
     66, 66, 66, 66, 66, 66, 66, 66, 66, 66, 66, 66, 66, 66, 66, 66, 66, 66, 66, 66, 66, 66, 66,
     66, 66, 66, 66, 66, 66, 66, 66, 66, 66, 66, 66, 66, 66, 66, 66, 66, 66, 66, 66, 66, 66, 66,
     66, 66, 66, 66, 66, 66, 66, 66, 66, 66, 66, 66, 66, 66, 66, 66, 66, 66, 66, 66, 66, 66, 66,
     66]"

definition st_lengthtable :: "nat list" where
  "st_lengthtable = [
     0, 0, 0, 3, 6, 6, 15, 4, 7, 14, 11, 7, 12, 16, 13, 8, 14, 4, 3, 13, 5, 5, 7, 16, 8, 13, 16,
     13, 8, 7, 15, 10, 4, 6, 19, 13, 12, 7, 17, 10, 13, 6, 7, 18, 17, 4, 16, 27, 4, 4, 0, 0, 10,
     19, 0, 0, 0, 25, 0, 0, 0, 0, 0, 19, 0, 5]"

text \<open>The \<open>start\<close> and \<open>end\<close> of each \<open>item\<close>; an item made from a name alone has \<open>-1\<close> for both.\<close>

definition st_wordlist :: "(int \<times> int) list" where
  "st_wordlist = [
     (- 1, - 1), (- 1, - 1), (- 1, - 1), (20, 20), (18, 18), (34, 34), (16, 16), (37, 37),
     (50, 50), (14, 14), (52, 52), (51, 51), (30, 30), (26, 26), (29, 29), (45, 45), (27, 27),
     (32, 32), (59, 59), (22, 22), (49, 49), (3, 4), (5, 6), (28, 28), (41, 41), (17, 17),
     (25, 25), (23, 23), (38, 38), (1, 2), (15, 15), (0, 0), (33, 33), (31, 31), (24, 24),
     (43, 43), (46, 46), (7, 13), (56, 56), (57, 57), (40, 40), (53, 53), (35, 35), (47, 47),
     (39, 39), (58, 58), (60, 60), (19, 19), (44, 44), (36, 36), (- 1, - 1), (- 1, - 1),
     (54, 54), (48, 48), (- 1, - 1), (- 1, - 1), (- 1, - 1), (55, 55), (- 1, - 1), (- 1, - 1),
     (- 1, - 1), (- 1, - 1), (- 1, - 1), (42, 42), (- 1, - 1), (21, 21)]"

text \<open>
  The perfect hash. The \<open>switch\<close> falls through: names longer than eight bytes add the ninth,
  names longer than three the fourth, and all the first.
\<close>

definition st_key :: "byte list \<Rightarrow> nat" where
  "st_key name =
     (let asso = (\<lambda>i. st_asso_values ! unat (name ! i));
          hval = (if length name > 8 then asso 8 else 0) + (if length name > 3 then asso 3 else 0) + asso 0
      in hval + asso (length name - 1))"

definition st_index :: "byte list \<Rightarrow> int \<times> int" where
  "st_index name =
     (if length name < 3 \<or> length name > 27 then (- 1, - 1)
      else
        let key = st_key name
        in if key \<le> 65 \<and> length name = st_lengthtable ! key then st_wordlist ! key else (- 1, - 1))"

definition st_size :: nat where
  "st_size = length field_table"

definition st_at :: "nat \<Rightarrow> static_field" where
  "st_at index = field_table ! (index - 1)"

definition st_name_index :: "byte list \<Rightarrow> int" where
  "st_name_index name =
     (let (start, stop) = st_index name
      in if start < 0 \<or> \<not> memcmp_eq (fst (field_table ! nat start)) name then - 1 else start + 1)"

definition st_field_index :: "byte list \<Rightarrow> byte list \<Rightarrow> int \<times> bool" where
  "st_field_index name val =
     (let (start, stop) = st_index name
      in if start < 0 \<or> \<not> memcmp_eq (fst (field_table ! nat start)) name then (- 1, False)
         else case List.find (\<lambda>i. length (snd (field_table ! i)) = length val \<and>
                 memcmp_eq (snd (field_table ! i)) val) [nat start..<nat (stop + 1)] of
           Some i \<Rightarrow> (1 + int i, True)
         | None \<Rightarrow> (start + 1, False))"

section \<open>The perfect hash\<close>

lemma st_asso_nth_0:
  "st_asso_values ! 45 = 10"
  "st_asso_values ! 58 = 15"
  "st_asso_values ! 97 = 1"
  "st_asso_values ! 99 = 8"
  "st_asso_values ! 100 = 13"
  "st_asso_values ! 101 = 2"
  "st_asso_values ! 102 = 41"
  "st_asso_values ! 103 = 15"
  "st_asso_values ! 104 = 5"
  "st_asso_values ! 105 = 19"
  "st_asso_values ! 107 = 23"
  "st_asso_values ! 108 = 2"
  "st_asso_values ! 109 = 4"
  "st_asso_values ! 110 = 12"
  "st_asso_values ! 111 = 32"
  "st_asso_values ! 112 = 20"
  "st_asso_values ! 114 = 3"
  "st_asso_values ! 115 = 21"
  "st_asso_values ! 116 = 1"
  "st_asso_values ! 117 = 23"
  "st_asso_values ! 118 = 17"
  "st_asso_values ! 119 = 32"
  "st_asso_values ! 120 = 20"
  "st_asso_values ! 121 = 14"
  by (simp_all add: st_asso_values_def)

lemma length_sp [simp]: "length (sp str) = length str"
  by (simp add: sp_def)

lemma length_field_table [simp]: "length field_literals = 61" "length field_table = 61"
  by (simp_all add: field_literals_def field_table_def)

lemma st_size [simp]: "st_size = 61"
  by (simp add: st_size_def)

lemma fst_field_table: "i < 61 \<Longrightarrow> fst (field_table ! i) = sp (fst (field_literals ! i))"
  by (simp add: field_table_def split: prod.split)

lemma hash_names:
  "list_all (\<lambda>(i, name, val). case st_index (sp name) of (s, e) \<Rightarrow> 0 \<le> s \<and> s \<le> int i \<and> int i \<le> e)
    (enumerate 0 field_literals)"
  by (simp add: field_literals_def st_index_def st_key_def sp_def st_asso_nth_0 st_lengthtable_def st_wordlist_def)

lemma hash_ranges:
  "list_all (\<lambda>(len, s, e). 0 \<le> s \<longrightarrow> s \<le> e \<and> e < 61 \<and> length (fst (field_literals ! nat s)) = len \<and>
     list_all (\<lambda>i. fst (field_literals ! i) = fst (field_literals ! nat s)) [nat (s + 1)..<nat (e + 1)])
     (zip st_lengthtable st_wordlist)"
  by (simp add: st_lengthtable_def st_wordlist_def field_literals_def upt_rec)

lemma st_index_name: "i < 61 \<Longrightarrow> 0 \<le> fst (st_index (fst (field_table ! i))) \<and>
    fst (st_index (fst (field_table ! i))) \<le> int i \<and> int i \<le> snd (st_index (fst (field_table ! i)))"
proof -
  assume i: "i < 61"
  then have "case field_literals ! i of (name, val) \<Rightarrow>
      case st_index (sp name) of (s, e) \<Rightarrow> 0 \<le> s \<and> s \<le> int i \<and> int i \<le> e"
    using hash_names by (simp add: list_all_length nth_enumerate_eq)
  then show ?thesis
    using i by (cases "field_literals ! i") (simp add: fst_field_table split: prod.splits)
qed

lemma st_index_range:
  assumes "st_index name = (s, e)" "0 \<le> s"
  shows "s \<le> e" "e < 61" "length (fst (field_table ! nat s)) = length name"
    "s \<le> int i \<Longrightarrow> int i \<le> e \<Longrightarrow> fst (field_table ! i) = fst (field_table ! nat s)"
proof -
  obtain key where key: "key < 66" "st_lengthtable ! key = length name" "st_wordlist ! key = (s, e)"
    using assms by (intro that [of "st_key name"]) (auto simp: st_index_def Let_def split: if_splits)
  have len: "length st_lengthtable = 66" "length st_wordlist = 66"
    by (simp_all add: st_lengthtable_def st_wordlist_def)
  have r: "s \<le> e \<and> e < 61 \<and> length (fst (field_literals ! nat s)) = length name \<and>
     list_all (\<lambda>i. fst (field_literals ! i) = fst (field_literals ! nat s)) [nat (s + 1)..<nat (e + 1)]"
    using hash_ranges key assms(2) len unfolding list_all_length by (auto simp del: upt_Suc)
  have "nat s < 61" using r assms(2) by linarith
  then show "s \<le> e" "e < 61" "length (fst (field_table ! nat s)) = length name"
    using r by (simp_all add: fst_field_table)
  show "fst (field_table ! i) = fst (field_table ! nat s)" if i: "s \<le> int i" "int i \<le> e"
  proof (cases "int i = s")
    case False
    then have "i \<in> set [nat (s + 1)..<nat (e + 1)]" using i by auto
    then have "fst (field_literals ! i) = fst (field_literals ! nat s)"
      using r by (simp only: list_all_iff)
    moreover have "i < 61" using r i by linarith
    ultimately show ?thesis using \<open>nat s < 61\<close> by (simp add: fst_field_table)
  qed auto
qed

text \<open>Where a name of the table is found, and where none is.\<close>

lemma st_index_found:
  assumes "st_index name = (s, e)" "0 \<le> s" "memcmp_eq (fst (field_table ! nat s)) name" "i < 61"
  shows "fst (field_table ! i) = name \<longleftrightarrow> s \<le> int i \<and> int i \<le> e"
proof -
  note r = st_index_range [OF assms(1,2)]
  have "fst (field_table ! nat s) = name" using assms(3) r(3) by (simp add: memcmp_eq_def)
  then show ?thesis using st_index_name [OF assms(4)] r(4) [of i] assms(1) by auto
qed

lemma st_index_missing:
  assumes "st_index name = (s, e)" "s < 0 \<or> \<not> memcmp_eq (fst (field_table ! nat s)) name" "i < 61"
  shows "fst (field_table ! i) \<noteq> name"
proof
  assume n: "fst (field_table ! i) = name"
  then have "0 \<le> s" "s \<le> int i" "int i \<le> e" using st_index_name [OF assms(3)] assms(1) by auto
  then have "fst (field_table ! nat s) = name" using n st_index_range(4) [OF assms(1), of i] by simp
  then show False using assms(2) \<open>0 \<le> s\<close> by (simp add: memcmp_eq_def)
qed

section \<open>The searches against a linear search\<close>

lemma find_append: "List.find P (xs @ ys) = (case List.find P xs of None \<Rightarrow> List.find P ys | Some x \<Rightarrow> Some x)"
  by (induction xs) auto

lemma find_upt_restrict:
  assumes only: "\<And>i. i < n \<Longrightarrow> P i \<Longrightarrow> a \<le> i \<and> i < b" and "a \<le> b" "b \<le> n"
  shows "List.find P [0..<n] = List.find P [a..<b]"
proof -
  have split: "[0..<n] = [0..<a] @ [a..<b] @ [b..<n]"
    using assms(2,3) upt_add_eq_append [of 0 a "b - a"] upt_add_eq_append [of 0 b "n - b"] by simp
  have "\<not> P i" if "i < a" for i using only [of i] that assms(2,3) by auto
  moreover have "\<not> P i" if "b \<le> i" "i < n" for i using only [of i] that by auto
  ultimately have "List.find P [0..<a] = None" "List.find P [b..<n] = None"
    by (auto simp: find_None_iff)
  then show ?thesis by (simp add: split find_append split: option.split)
qed

lemma st_index_restrict:
  assumes idx: "st_index name = (s, e)" and s: "0 \<le> s" "memcmp_eq (fst (field_table ! nat s)) name"
    and "\<And>i. P i \<Longrightarrow> fst (field_table ! i) = name"
  shows "List.find P [0..<61] = List.find P [nat s..<nat (e + 1)]"
proof (rule find_upt_restrict)
  note found = st_index_found [OF idx s] and range = st_index_range [OF idx s(1)]
  show "nat s \<le> i \<and> i < nat (e + 1)" if "i < 61" "P i" for i
    using found [OF that(1)] assms(4) [OF that(2)] by auto
  show "nat s \<le> nat (e + 1)" "nat (e + 1) \<le> 61" using range(1,2) by simp_all
qed

lemma find_name:
  assumes idx: "st_index name = (s, e)"
  shows "List.find (\<lambda>i. fst (field_table ! i) = name) [0..<61] =
    (if s < 0 \<or> \<not> memcmp_eq (fst (field_table ! nat s)) name then None else Some (nat s))"
proof (cases "s < 0 \<or> \<not> memcmp_eq (fst (field_table ! nat s)) name")
  case True
  then show ?thesis using st_index_missing [OF idx True] by (auto simp: find_None_iff)
next
  case False
  then have s: "0 \<le> s" "memcmp_eq (fst (field_table ! nat s)) name" by simp_all
  note found = st_index_found [OF idx s] and range = st_index_range [OF idx s(1)]
  have "[nat s..<nat (e + 1)] = nat s # [Suc (nat s)..<nat (e + 1)]"
    using range(1) s(1) by (intro upt_conv_Cons) simp
  then show ?thesis
    using found [of "nat s"] range(1,2) s st_index_restrict [OF idx s, of "\<lambda>i. fst (field_table ! i) = name"] by simp
qed

lemma st_name_index_find:
  "st_name_index name = (case List.find (\<lambda>i. fst (field_table ! i) = name) [0..<st_size] of
     Some i \<Rightarrow> 1 + int i | None \<Rightarrow> - 1)"
  by (cases "st_index name") (simp add: st_name_index_def find_name)

lemma st_field_index_find:
  "st_field_index name val =
    (case List.find (\<lambda>i. field_table ! i = (name, val)) [0..<st_size] of
       Some i \<Rightarrow> (1 + int i, True)
     | None \<Rightarrow>
         (case List.find (\<lambda>i. fst (field_table ! i) = name) [0..<st_size] of
            Some i \<Rightarrow> (1 + int i, False)
          | None \<Rightarrow> (- 1, False)))"
proof -
  obtain s e where idx: "st_index name = (s, e)" by (cases "st_index name")
  show ?thesis
  proof (cases "s < 0 \<or> \<not> memcmp_eq (fst (field_table ! nat s)) name")
    case True
    then have "List.find (\<lambda>i. fst (field_table ! i) = name) [0..<61] = None"
      using find_name [OF idx] by simp
    moreover have "List.find (\<lambda>i. field_table ! i = (name, val)) [0..<61] = None"
      using st_index_missing [OF idx True] by (fastforce simp: find_None_iff)
    ultimately show ?thesis using True idx by (simp add: st_field_index_def)
  next
    case False
    then have s: "0 \<le> s" "memcmp_eq (fst (field_table ! nat s)) name" by simp_all
    note found = st_index_found [OF idx s] and range = st_index_range [OF idx s(1)]
    have up: "i \<in> set [nat s..<nat (e + 1)] \<longleftrightarrow> s \<le> int i \<and> int i \<le> e" for i
      using s(1) by auto
    have "List.find (\<lambda>i. field_table ! i = (name, val)) [nat s..<nat (e + 1)] =
        List.find (\<lambda>i. length (snd (field_table ! i)) = length val \<and> memcmp_eq (snd (field_table ! i)) val)
        [nat s..<nat (e + 1)]"
    proof (rule find_cong [OF refl])
      fix i assume "i \<in> set [nat s..<nat (e + 1)]"
      then have "s \<le> int i" "int i \<le> e" using up by blast+
      then have "fst (field_table ! i) = name" using found [of i] range(2) by simp
      then show "field_table ! i = (name, val) \<longleftrightarrow>
          length (snd (field_table ! i)) = length val \<and> memcmp_eq (snd (field_table ! i)) val"
        by (auto simp: memcmp_eq_def prod_eq_iff)
    qed
    then have both: "List.find (\<lambda>i. field_table ! i = (name, val)) [0..<61] =
        List.find (\<lambda>i. length (snd (field_table ! i)) = length val \<and> memcmp_eq (snd (field_table ! i)) val)
        [nat s..<nat (e + 1)]"
      using st_index_restrict [OF idx s, of "\<lambda>i. field_table ! i = (name, val)"] by simp
    show ?thesis using False find_name [OF idx] idx both s by (simp add: st_field_index_def split: option.split)
  qed
qed

text \<open>What a search result means for the entries.\<close>

lemma st_field_index_cases:
  obtains (both) i where "1 \<le> i" "i \<le> 61" "st_at i = (name, val)" "st_field_index name val = (int i, True)"
  | (name) i where "1 \<le> i" "i \<le> 61" "fst (st_at i) = name" "st_field_index name val = (int i, False)"
  | (none) "name \<notin> fst ` set field_table" "st_field_index name val = (- 1, False)"
proof (cases "List.find (\<lambda>i. field_table ! i = (name, val)) [0..<st_size]")
  case (Some i)
  then have "i < 61" "field_table ! i = (name, val)" by (auto simp: find_Some_iff)
  then show ?thesis using Some by (intro both [of "Suc i"]) (simp_all add: st_at_def st_field_index_find)
next
  case no: None
  show ?thesis
  proof (cases "List.find (\<lambda>i. fst (field_table ! i) = name) [0..<st_size]")
    case (Some i)
    then have "i < 61" "fst (field_table ! i) = name" by (auto simp: find_Some_iff)
    then show ?thesis using Some no by (intro name [of "Suc i"]) (simp_all add: st_at_def st_field_index_find)
  next
    case None
    then have "name \<notin> fst ` set field_table" by (fastforce simp: find_None_iff in_set_conv_nth)
    then show ?thesis using None no by (intro none) (simp_all add: st_field_index_find)
  qed
qed

section \<open>Properties\<close>

text \<open>
  C20: The searches of the static table return what a linear search of its 61 entries returns.
  \<open>static_table::field_index\<close>: the 1-based position of the first entry with this name and value,
  else of the first entry with this name, else \<open>-1\<close>. \<open>static_table::name_index\<close>: the position of the
  first entry with this name, else \<open>-1\<close>. So the perfect hash misses no name and accepts no other.
\<close>

theorem static_table_search_exact:
  "st_field_index name val =
    (case List.find (\<lambda>i. field_table ! i = (name, val)) [0..<st_size] of
       Some i \<Rightarrow> (1 + int i, True)
     | None \<Rightarrow>
         (case List.find (\<lambda>i. fst (field_table ! i) = name) [0..<st_size] of
            Some i \<Rightarrow> (1 + int i, False)
          | None \<Rightarrow> (- 1, False))) \<and>
   st_name_index name =
    (case List.find (\<lambda>i. fst (field_table ! i) = name) [0..<st_size] of
       Some i \<Rightarrow> 1 + int i | None \<Rightarrow> - 1)"
  by (intro conjI st_field_index_find st_name_index_find)

end
