(* ===== verification/Hpack_Dynamic_Table.thy ===== *)
theory Hpack_Dynamic_Table
  imports Utils Hpack_Static_Table
begin

text \<open>
  The dynamic tables of HPACK: \<open>lib/hpack/dynamic_table.{h,cpp}\<close>, which the decoder uses, and
  \<open>lib/hpack/indexed_dynamic_table.{h,cpp}\<close>, which the encoder uses and which adds an ordered set of
  pointers to the entries. The lemmas relate both to one list of entries: what an insertion
  keeps of it, what an index means, and that no pointer of the set is left dangling.
\<close>

section \<open>dynamic_table\<close>

record table_record =
  tr_name :: "byte list"
  tr_value :: "byte list"
  tr_init_index :: u32

definition tr_hpack_size :: "table_record \<Rightarrow> nat" where
  "tr_hpack_size r = length (tr_name r) + length (tr_value r) + 32"

record dynamic_table =
  dt_table_size :: nat
  dt_hpack_max_size :: nat
  dt_table :: "table_record list"

definition dynamic_table_new :: "nat \<Rightarrow> dynamic_table" where
  "dynamic_table_new max_size = \<lparr>dt_table_size = 0, dt_hpack_max_size = max_size, dt_table = []\<rparr>"

definition dt_at :: "'a dynamic_table_scheme \<Rightarrow> nat \<Rightarrow> static_field result" where
  "dt_at t i =
     (if i \<le> length (dt_table t)
      then if i = 0 then Inl undefined_behaviour
           else let r = dt_table t ! (i - 1) in Inr (tr_name r, tr_value r)
      else Inl runtime_error)"

text \<open>
  The \<open>do\<close> loop of \<open>shrink_to\<close>, over the records from the back. \<open>eviction_size\<close> is a \<open>size_t\<close> and wraps when
  a record is larger than what is left to evict. The result is the number of records from the
  returned iterator to the end, with the table size.
\<close>

fun shrink_loop :: "table_record list \<Rightarrow> u64 \<Rightarrow> nat \<Rightarrow> nat \<times> nat" where
  "shrink_loop [] eviction_size table_size = (0, table_size)"
| "shrink_loop (r # rs) eviction_size table_size =
     (let sz = tr_hpack_size r;
          eviction_size' = eviction_size - of_nat sz;
          table_size' = table_size - sz
      in if rs \<noteq> [] \<and> eviction_size' > 0
         then let (n, ts) = shrink_loop rs eviction_size' table_size' in (n + 1, ts)
         else (1, table_size'))"

definition shrink_to :: "nat \<Rightarrow> 'a dynamic_table_scheme \<Rightarrow> nat \<times> 'a dynamic_table_scheme" where
  "shrink_to rq_size t =
     (if dt_table_size t \<le> rq_size then (0, t)
      else let (n, ts) = shrink_loop (rev (dt_table t)) (of_nat (dt_table_size t - rq_size)) (dt_table_size t)
           in (n, t\<lparr>dt_table_size := ts\<rparr>))"

text \<open>\<open>table.erase(it, table.end())\<close> for an iterator \<open>n\<close> records before the end.\<close>

definition erase_back :: "nat \<Rightarrow> 'a dynamic_table_scheme \<Rightarrow> 'a dynamic_table_scheme" where
  "erase_back n t = t\<lparr>dt_table := take (length (dt_table t) - n) (dt_table t)\<rparr>"

definition insert_impl :: "table_record \<Rightarrow> 'a dynamic_table_scheme \<Rightarrow> 'a dynamic_table_scheme" where
  "insert_impl r t =
     (let index = (case dt_table t of [] \<Rightarrow> 0 | front # _ \<Rightarrow> tr_init_index front + 1);
          r' = r\<lparr>tr_init_index := index\<rparr>
      in t\<lparr>dt_table := r' # dt_table t, dt_table_size := dt_table_size t + tr_hpack_size r'\<rparr>)"

text \<open>\<open>hpack_max_size - hsize\<close> is a \<open>size_t\<close> and wraps for a field larger than the table.\<close>

definition dt_insert :: "byte list \<Rightarrow> byte list \<Rightarrow> dynamic_table \<Rightarrow> dynamic_table" where
  "dt_insert name val t =
     (let r = \<lparr>tr_name = name, tr_value = val, tr_init_index = 0\<rparr>;
          hsize = tr_hpack_size r;
          rq_size = (if hsize + dt_table_size t > dt_hpack_max_size t
                     then unat (of_nat (dt_hpack_max_size t) - of_nat hsize :: u64)
                     else hsize + dt_table_size t);
          (n, t1) = shrink_to rq_size t
      in insert_impl r (erase_back n t1))"

definition dt_update_size :: "nat \<Rightarrow> dynamic_table \<Rightarrow> dynamic_table" where
  "dt_update_size new_size t =
     (let (n, t1) = shrink_to new_size t
      in (erase_back n t1)\<lparr>dt_hpack_max_size := new_size\<rparr>)"

definition record_index :: "'a dynamic_table_scheme \<Rightarrow> table_record \<Rightarrow> u64" where
  "record_index t r =
     of_nat (length (dt_table t)) + ucast (tr_init_index (last (dt_table t))) - ucast (tr_init_index r)"

section \<open>indexed_dynamic_table\<close>

text \<open>
  \<open>index_set\<close> is a \<open>std::set\<close> of pointers to the records of the table. A record does not change once it is
  inserted, and \<open>init_index\<close> tells the records of a table apart, so a pointer is modelled by the
  record it points to; it dangles when that record is no longer in the table. The set is the
  list of its elements in the order of its comparator.
\<close>

record indexed_dynamic_table = dynamic_table +
  it_index_set :: "table_record list"

definition indexed_dynamic_table_new :: "nat \<Rightarrow> indexed_dynamic_table" where
  "indexed_dynamic_table_new max_size =
     \<lparr>dt_table_size = 0, dt_hpack_max_size = max_size, dt_table = [], it_index_set = []\<rparr>"

text \<open>\<open>index_comparator\<close> on two records compares the vectors, lexicographically.\<close>

definition tr_key :: "table_record \<Rightarrow> static_field" where
  "tr_key r = (tr_name r, tr_value r)"

definition record_less :: "table_record \<Rightarrow> table_record \<Rightarrow> bool" where
  "record_less lhs rhs \<longleftrightarrow> tr_key lhs < tr_key rhs"

text \<open>On a record and a pair of spans it uses \<open>operator<=>\<close> of spans, which compares the sizes first.\<close>

definition span_less :: "byte list \<Rightarrow> byte list \<Rightarrow> bool" where
  "span_less lhs rhs \<longleftrightarrow>
     length lhs < length rhs \<or> length lhs = length rhs \<and> lhs < rhs"

definition key_less :: "table_record \<Rightarrow> static_field \<Rightarrow> bool" where
  "key_less lhs rhs \<longleftrightarrow>
     span_less (tr_name lhs) (fst rhs) \<or> tr_name lhs = fst rhs \<and> span_less (tr_value lhs) (snd rhs)"

definition index_set_insert :: "table_record \<Rightarrow> table_record list \<Rightarrow> table_record list" where
  "index_set_insert r s =
     (if \<exists>x\<in>set s. \<not> record_less x r \<and> \<not> record_less r x then s
      else takeWhile (\<lambda>x. record_less x r) s @ r # dropWhile (\<lambda>x. record_less x r) s)"

definition index_set_erase :: "table_record \<Rightarrow> table_record list \<Rightarrow> table_record list" where
  "index_set_erase r s = filter (\<lambda>x. record_less x r \<or> record_less r x) s"

text \<open>
  \<open>lower_bound\<close> is defined for a set that the comparison with the key partitions: first the elements
  that compare less, then the others. The two comparisons disagree, so this may fail; the
  standard then leaves open where the search ends, and \<open>stray\<close> stands for that position.
\<close>

type_synonym stray = "table_record list \<Rightarrow> static_field \<Rightarrow> nat"

definition partitioned :: "table_record list \<Rightarrow> static_field \<Rightarrow> bool" where
  "partitioned s key \<longleftrightarrow> list_all (\<lambda>x. \<not> key_less x key) (dropWhile (\<lambda>x. key_less x key) s)"

definition lower_bound :: "stray \<Rightarrow> table_record list \<Rightarrow> static_field \<Rightarrow> nat" where
  "lower_bound stray s key =
     (if partitioned s key then length (takeWhile (\<lambda>x. key_less x key) s) else stray s key)"

definition it_insert :: "byte list \<Rightarrow> byte list \<Rightarrow> indexed_dynamic_table \<Rightarrow> indexed_dynamic_table" where
  "it_insert name val t =
     (let r = \<lparr>tr_name = name, tr_value = val, tr_init_index = 0\<rparr>;
          hsize = tr_hpack_size r;
          rq_size = (if hsize > dt_hpack_max_size t then 0 else dt_hpack_max_size t - hsize);
          (n, t1) = shrink_to rq_size t;
          evicted = drop (length (dt_table t) - n) (dt_table t);
          t2 = t1\<lparr>it_index_set := fold index_set_erase evicted (it_index_set t1)\<rparr>;
          t3 = insert_impl r (erase_back n t2)
      in t3\<lparr>it_index_set := index_set_insert (hd (dt_table t3)) (it_index_set t3)\<rparr>)"

definition it_update_size :: "nat \<Rightarrow> indexed_dynamic_table \<Rightarrow> indexed_dynamic_table" where
  "it_update_size new_size t =
     (let (n, t1) = shrink_to new_size t;
          evicted = drop (length (dt_table t) - n) (dt_table t);
          t2 = t1\<lparr>it_index_set := fold index_set_erase evicted (it_index_set t1)\<rparr>
      in (erase_back n t2)\<lparr>dt_hpack_max_size := new_size\<rparr>)"

text \<open>The index is a \<open>size_t\<close> stored in an \<open>int\<close>.\<close>

definition it_field_index :: "stray \<Rightarrow> indexed_dynamic_table \<Rightarrow> byte list \<Rightarrow> byte list \<Rightarrow> int \<times> bool" where
  "it_field_index stray t name val =
     (let it = lower_bound stray (it_index_set t) (name, val)
      in if it \<ge> length (it_index_set t) then (- 1, False)
         else
           let r = it_index_set t ! it
           in if tr_name r = name
              then (sint (ucast (record_index t r) :: u32), tr_value r = val)
              else (- 1, False))"

section \<open>The list of entries\<close>

definition entries :: "'a dynamic_table_scheme \<Rightarrow> static_field list" where
  "entries t = map tr_key (dt_table t)"

definition entry_size :: "static_field \<Rightarrow> nat" where
  "entry_size e = length (fst e) + length (snd e) + 32"

definition total_size :: "static_field list \<Rightarrow> nat" where
  "total_size es = sum_list (map entry_size es)"

text \<open>
  What \<open>shrink_to\<close> keeps: everything, when it fits; otherwise the newest entries whose sizes add up to
  the requested size exactly; and nothing, when there are no such entries.
\<close>

definition evict :: "nat \<Rightarrow> static_field list \<Rightarrow> static_field list" where
  "evict rq es =
     (if total_size es \<le> rq then es
      else case List.find (\<lambda>k. total_size (take k es) = rq) [0..<Suc (length es)] of
        Some k \<Rightarrow> take k es
      | None \<Rightarrow> [])"

definition indices_ok :: "table_record list \<Rightarrow> bool" where
  "indices_ok rs \<longleftrightarrow> (\<forall>i. Suc i < length rs \<longrightarrow> tr_init_index (rs ! i) = tr_init_index (rs ! Suc i) + 1)"

definition table_ok :: "'a dynamic_table_scheme \<Rightarrow> bool" where
  "table_ok t \<longleftrightarrow> dt_table_size t = total_size (entries t) \<and> indices_ok (dt_table t)"

definition table_bounded :: "'a dynamic_table_scheme \<Rightarrow> bool" where
  "table_bounded t \<longleftrightarrow> table_ok t \<and> dt_table_size t \<le> dt_hpack_max_size t \<and> dt_hpack_max_size t < 2 ^ 64"

named_theorems table_defs
lemmas [table_defs] = entries_def table_ok_def erase_back_def insert_impl_def Let_def

lemma total_simps [simp]: "total_size [] = 0" "total_size (e # es) = entry_size e + total_size es" "total_size (as @ bs) = total_size as + total_size bs"
  by (simp_all add: total_size_def)

lemma total_rev [simp]: "total_size (rev es) = total_size es"
  by (simp add: total_size_def rev_map [symmetric])

lemma entry_size_pos: "32 \<le> entry_size e"
  by (simp add: entry_size_def)

lemma tr_hpack_size: "tr_hpack_size r = entry_size (tr_key r)"
  by (simp add: tr_hpack_size_def entry_size_def tr_key_def)

lemma total_size_0_iff [simp]: "total_size es = 0 \<longleftrightarrow> es = []"
  by (cases es) (simp_all add: entry_size_def)

lemma total_take_drop: "total_size (take k es) + total_size (drop k es) = total_size es"
  by (metis append_take_drop_id total_simps(3))

lemma total_take_strict: "j < k \<Longrightarrow> k \<le> length es \<Longrightarrow> total_size (take j es) < total_size (take k es)"
proof (induction k)
  case (Suc k)
  then have "total_size (take (Suc k) es) = total_size (take k es) + entry_size (es ! k)"
    by (simp add: take_Suc_conv_app_nth)
  moreover have "total_size (take j es) \<le> total_size (take k es)"
    using Suc by (cases "j = k") (simp_all add: less_imp_le)
  ultimately show ?case using entry_size_pos [of "es ! k"] by linarith
qed simp

lemma total_take_inject: "j \<le> length es \<Longrightarrow> k \<le> length es \<Longrightarrow> total_size (take j es) = total_size (take k es) \<Longrightarrow> j = k"
  by (metis total_take_strict less_irrefl nat_neq_iff)

lemma evict_exact:
  assumes "rq < total_size es" "k \<le> length es" "total_size (take k es) = rq"
  shows "evict rq es = take k es"
proof -
  have "k \<in> set [0..<Suc (length es)]" using assms(2) by (simp add: less_Suc_eq_le del: upt_Suc)
  then obtain j where j: "List.find (\<lambda>k. total_size (take k es) = rq) [0..<Suc (length es)] = Some j"
    using assms(3) by (cases "List.find (\<lambda>k. total_size (take k es) = rq) [0..<Suc (length es)]")
      (auto simp: find_None_iff simp del: upt_Suc)
  then have "j \<le> length es" "total_size (take j es) = rq" by (auto simp: find_Some_iff less_Suc_eq_le simp del: upt_Suc)
  then have "j = k" using assms total_take_inject by blast
  then show ?thesis using j assms(1) by (simp add: evict_def del: upt_Suc)
qed

lemma evict_none:
  assumes "rq < total_size es" "\<And>k. k \<le> length es \<Longrightarrow> total_size (take k es) \<noteq> rq"
  shows "evict rq es = []"
proof -
  have "List.find (\<lambda>k. total_size (take k es) = rq) [0..<Suc (length es)] = None"
    using assms(2) by (auto simp: find_None_iff less_Suc_eq_le simp del: upt_Suc)
  then show ?thesis using assms(1) by (simp add: evict_def del: upt_Suc)
qed

lemma evict_fits [simp]: "total_size es \<le> rq \<Longrightarrow> evict rq es = es"
  by (simp add: evict_def)

lemma total_evict: "total_size (evict rq es) \<le> rq"
  by (auto simp: evict_def find_Some_iff split: option.split simp del: upt_Suc)

lemma evict_prefix: "\<exists>k. evict rq es = take k es"
  by (auto simp: evict_def split: option.split intro: exI [of _ "length es"] exI [of _ 0] simp del: upt_Suc)

text \<open>The eviction of RFC 7541, section 4.3: the newest entries that fit stay.\<close>

fun rfc_evict :: "nat \<Rightarrow> static_field list \<Rightarrow> static_field list" where
  "rfc_evict rq [] = []"
| "rfc_evict rq (e # es) = (if entry_size e \<le> rq then e # rfc_evict (rq - entry_size e) es else [])"

lemma rfc_evict_prefix: "\<exists>k \<le> length es. rfc_evict rq es = take k es \<and>
    total_size (take k es) \<le> rq \<and> (k < length es \<longrightarrow> rq < total_size (take (Suc k) es))"
proof (induction es arbitrary: rq)
  case (Cons e es)
  show ?case
  proof (cases "entry_size e \<le> rq")
    case True
    obtain k where "k \<le> length es" "rfc_evict (rq - entry_size e) es = take k es"
        "total_size (take k es) \<le> rq - entry_size e" "k < length es \<longrightarrow> rq - entry_size e < total_size (take (Suc k) es)"
      using Cons.IH by blast
    then show ?thesis using True by (intro exI [of _ "Suc k"]) auto
  qed (auto intro: exI [of _ 0])
qed simp

lemma evict_rfc_evict:
  "evict rq es = (if total_size es \<le> rq \<or> total_size (rfc_evict rq es) = rq then rfc_evict rq es else [])"
proof -
  obtain k where k: "k \<le> length es" "rfc_evict rq es = take k es" "total_size (take k es) \<le> rq"
      "k < length es \<longrightarrow> rq < total_size (take (Suc k) es)"
    using rfc_evict_prefix by blast
  show ?thesis
  proof (cases "total_size es \<le> rq")
    case True
    have "k = length es"
    proof (rule ccontr)
      assume "k \<noteq> length es"
      then have "rq < total_size (take (Suc k) es)" using k(1,4) by simp
      then show False using True total_take_drop [of "Suc k" es] by linarith
    qed
    then show ?thesis using True k(2) by simp
  next
    case False
    have "total_size (take j es) \<noteq> rq" if "total_size (take k es) \<noteq> rq" "j \<le> length es" for j
    proof (cases "j \<le> k")
      case True
      then have "total_size (take j es) \<le> total_size (take k es)"
        using total_take_strict [of j k es] k(1) by (cases "j = k") auto
      then show ?thesis using that(1) k(3) by linarith
    next
      case False
      then have "total_size (take (Suc k) es) \<le> total_size (take j es)"
        using total_take_strict [of "Suc k" j es] that(2) by (cases "j = Suc k") auto
      then show ?thesis using k(4) False that(2) by simp
    qed
    then show ?thesis using False k(1,2) by (auto simp: evict_exact evict_none not_le)
  qed
qed

section \<open>What shrinking keeps\<close>

lemma of_nat_u64_inject: "a < 2 ^ 64 \<Longrightarrow> b < 2 ^ 64 \<Longrightarrow> (of_nat a :: u64) = of_nat b \<longleftrightarrow> a = b"
proof -
  assume ab: "a < 2 ^ 64" "b < 2 ^ 64"
  then have "unat (of_nat a :: u64) = a" "unat (of_nat b :: u64) = b" by (simp_all add: unat_of_nat)
  then show ?thesis by metis
qed

text \<open>
  The loop stops at the first record after which the rest of the table has exactly the requested
  size, or at the front.
\<close>

lemma shrink_loop_stops:
  assumes "rs \<noteq> []" "ts = total_size (map tr_key rs)" "ev = of_nat ts - of_nat rq" "ts < 2 ^ 64" "rq < 2 ^ 64"
    and "shrink_loop rs ev ts = (n, ts')"
  shows "1 \<le> n \<and> n \<le> length rs \<and> ts' = total_size (map tr_key (drop n rs)) \<and> (n < length rs \<longrightarrow> ts' = rq) \<and>
    (\<forall>m. 1 \<le> m \<and> m < n \<longrightarrow> total_size (map tr_key (drop m rs)) \<noteq> rq)"
  using assms
proof (induction rs arbitrary: ev ts n ts')
  case Nil
  then show ?case by simp
next
  case (Cons r rs)
  define rest where "rest = total_size (map tr_key rs)"
  have ts: "ts - tr_hpack_size r = rest" "rest < 2 ^ 64" "ts = tr_hpack_size r + rest"
    using Cons.prems(2,4) by (simp_all add: rest_def tr_hpack_size)
  have ev: "ev - of_nat (tr_hpack_size r) = of_nat rest - of_nat rq"
    using Cons.prems(3) ts(3) by simp
  have zero: "ev - of_nat (tr_hpack_size r) > 0 \<longleftrightarrow> rest \<noteq> rq"
    using ev ts(2) Cons.prems(5) by (simp add: word_neq_0_conv [symmetric] of_nat_u64_inject)
  show ?case
  proof (cases "rs \<noteq> [] \<and> rest \<noteq> rq")
    case True
    obtain k tk where k: "shrink_loop rs (ev - of_nat (tr_hpack_size r)) rest = (k, tk)"
      by (cases "shrink_loop rs (ev - of_nat (tr_hpack_size r)) rest")
    have IH: "1 \<le> k \<and> k \<le> length rs \<and> tk = total_size (map tr_key (drop k rs)) \<and> (k < length rs \<longrightarrow> tk = rq) \<and>
        (\<forall>m. 1 \<le> m \<and> m < k \<longrightarrow> total_size (map tr_key (drop m rs)) \<noteq> rq)"
      using Cons.IH [OF _ rest_def _ ts(2) Cons.prems(5) k] True ev by blast
    have n: "n = k + 1" "ts' = tk" using Cons.prems(6) k True zero ts(1) by (simp_all add: Let_def)
    have "total_size (map tr_key (drop m (r # rs))) \<noteq> rq" if m: "1 \<le> m" "m < n" for m
    proof (cases "m = 1")
      case True
      then show ?thesis using \<open>rs \<noteq> [] \<and> rest \<noteq> rq\<close> by (simp add: rest_def)
    next
      case False
      then obtain j where "m = Suc j" "1 \<le> j" using m(1) by (cases m) auto
      then show ?thesis using IH n m(2) by auto
    qed
    then show ?thesis using IH n by auto
  next
    case False
    then have "n = 1" "ts' = rest" using Cons.prems(6) zero ts(1) by (auto simp: Let_def split: if_splits)
    then show ?thesis using False by (auto simp: rest_def)
  qed
qed

lemma shrink_to_keeps:
  assumes ok: "dt_table_size t = total_size (entries t)" and "dt_table_size t < 2 ^ 64" "rq < 2 ^ 64"
    and shrink: "shrink_to rq t = (n, t1)"
  shows "\<exists>k \<le> length (dt_table t). n = length (dt_table t) - k \<and>
    t1 = t\<lparr>dt_table_size := total_size (take k (entries t))\<rparr> \<and> evict rq (entries t) = take k (entries t)"
proof (cases "dt_table_size t \<le> rq")
  case True
  then have "n = 0" "t1 = t" using shrink by (simp_all add: shrink_to_def)
  then show ?thesis using True ok by (intro exI [of _ "length (dt_table t)"]) (simp add: entries_def)
next
  case False
  let ?rs = "rev (dt_table t)" and ?len = "length (dt_table t)"
  let ?ev = "of_nat (dt_table_size t - rq) :: u64"
  obtain ts where ts: "shrink_loop ?rs ?ev (dt_table_size t) = (n, ts)" "t1 = t\<lparr>dt_table_size := ts\<rparr>"
    using shrink False by (auto simp: shrink_to_def split: prod.splits)
  have nonempty: "?rs \<noteq> []" using False ok by (auto simp: entries_def)
  have "?ev = of_nat (dt_table_size t) - of_nat rq" using False by (simp add: of_nat_diff)
  then have stop: "1 \<le> n" "n \<le> ?len" "ts = total_size (map tr_key (drop n ?rs))" "n < ?len \<longrightarrow> ts = rq"
      "\<forall>m. 1 \<le> m \<and> m < n \<longrightarrow> total_size (map tr_key (drop m ?rs)) \<noteq> rq"
    using shrink_loop_stops [OF nonempty _ _ assms(2,3) ts(1)] ok by (auto simp: entries_def rev_map [symmetric])
  have kept: "total_size (map tr_key (drop m ?rs)) = total_size (take (?len - m) (entries t))" for m
    by (simp add: drop_rev entries_def take_map rev_map [symmetric])
  have rq: "rq < total_size (entries t)" using False ok by simp
  have len: "length (entries t) = ?len" by (simp add: entries_def)
  have "evict rq (entries t) = take (?len - n) (entries t)"
  proof (cases "n < ?len \<or> rq = 0")
    case True
    then show ?thesis
      using stop(2-4) kept [of n] len by (intro evict_exact [OF rq]) (auto)
  next
    case False
    have "total_size (take j (entries t)) \<noteq> rq" if j: "j \<le> ?len" for j
    proof -
      consider "j = 0" | "j = ?len" | "0 < j" "j < ?len" using j by linarith
      then show ?thesis
      proof cases
        case 3
        then have "?len - (?len - j) = j" "1 \<le> ?len - j" "?len - j < n" using False stop(2) by linarith+
        then show ?thesis using stop(5) kept [of "?len - j"] by metis
      qed (use False rq len in auto)
    qed
    then show ?thesis using False stop(2) len by (simp add: evict_none [OF rq])
  qed
  then show ?thesis using ts(2) stop(2,3) kept [of n] by (intro exI [of _ "?len - n"]) simp
qed

lemma indices_ok_take: "indices_ok rs \<Longrightarrow> indices_ok (take k rs)"
  by (simp add: indices_ok_def)

lemma indices_ok_Cons: "indices_ok rs \<Longrightarrow> (rs \<noteq> [] \<Longrightarrow> tr_init_index r = tr_init_index (hd rs) + 1) \<Longrightarrow> indices_ok (r # rs)"
  by (auto simp: indices_ok_def nth_Cons hd_conv_nth split: nat.split)

lemma shrink_erase:
  assumes "table_ok t" "dt_table_size t < 2 ^ 64" "rq < 2 ^ 64" "shrink_to rq t = (n, t1)"
  shows "table_ok (erase_back n t1)" "entries (erase_back n t1) = evict rq (entries t)"
    "dt_hpack_max_size (erase_back n t1) = dt_hpack_max_size t" "\<exists>sz. t1 = t\<lparr>dt_table_size := sz\<rparr>"
proof -
  obtain k where k: "k \<le> length (dt_table t)" "n = length (dt_table t) - k"
      "t1 = t\<lparr>dt_table_size := total_size (take k (entries t))\<rparr>" "evict rq (entries t) = take k (entries t)"
    using shrink_to_keeps [of t rq n t1] assms by (auto simp: table_ok_def)
  then show "table_ok (erase_back n t1)" "entries (erase_back n t1) = evict rq (entries t)"
    "dt_hpack_max_size (erase_back n t1) = dt_hpack_max_size t" "\<exists>sz. t1 = t\<lparr>dt_table_size := sz\<rparr>"
    using assms(1) by (auto simp: table_defs take_map indices_ok_take)
qed

lemma insert_impl_entries [simp]:
  "entries (insert_impl r t) = tr_key r # entries t"
  "dt_hpack_max_size (insert_impl r t) = dt_hpack_max_size t"
  by (simp_all add: table_defs tr_key_def)

lemma insert_impl_ok: "table_ok t \<Longrightarrow> table_ok (insert_impl r t)"
proof -
  assume t: "table_ok t"
  let ?r = "r\<lparr>tr_init_index := (case dt_table t of [] \<Rightarrow> 0 | front # _ \<Rightarrow> tr_init_index front + 1)\<rparr>"
  have "indices_ok (?r # dt_table t)"
    using t by (intro indices_ok_Cons) (auto simp: table_ok_def split: list.split)
  then show ?thesis using t by (simp add: table_defs tr_key_def tr_hpack_size_def entry_size_def)
qed

section \<open>The operations on the entries\<close>

lemma dt_insert_entries:
  assumes ok: "table_bounded t" and fits: "entry_size (n, v) \<le> dt_hpack_max_size t"
  shows "table_bounded (dt_insert n v t)" "dt_hpack_max_size (dt_insert n v t) = dt_hpack_max_size t"
    "entries (dt_insert n v t) = (n, v) # evict (dt_hpack_max_size t - entry_size (n, v)) (entries t)"
proof -
  let ?r = "\<lparr>tr_name = n, tr_value = v, tr_init_index = 0\<rparr>"
  let ?max = "dt_hpack_max_size t" and ?size = "entry_size (n, v)"
  have r: "tr_hpack_size ?r = ?size" "tr_key ?r = (n, v)" by (simp_all add: tr_hpack_size_def entry_size_def tr_key_def)
  have t: "table_ok t" "dt_table_size t \<le> ?max" "?max < 2 ^ 64" using ok by (simp_all add: table_bounded_def)
  define rq where "rq = (if ?size + dt_table_size t > ?max
      then unat (of_nat ?max - of_nat ?size :: u64) else ?size + dt_table_size t)"
  obtain k t1 where shrink: "shrink_to rq t = (k, t1)" by (cases "shrink_to rq t")
  have "unat (of_nat ?max - of_nat ?size :: u64) = ?max - ?size"
  proof -
    have "of_nat ?max - of_nat ?size = (of_nat (?max - ?size) :: u64)" using fits by (simp add: of_nat_diff)
    then show ?thesis using t(3) by (simp add: unat_of_nat)
  qed
  then have rq: "rq < 2 ^ 64" "evict rq (entries t) = evict (?max - ?size) (entries t)"
    using t fits by (auto simp: rq_def table_ok_def)
  have ins: "dt_insert n v t = insert_impl ?r (erase_back k t1)"
    unfolding dt_insert_def Let_def r(1) rq_def [symmetric] shrink by simp
  have small: "dt_table_size t < 2 ^ 64" using t by linarith
  note e = shrink_erase [OF t(1) small rq(1) shrink]
  show max: "dt_hpack_max_size (dt_insert n v t) = ?max" using ins e(3) by simp
  show ent: "entries (dt_insert n v t) = (n, v) # evict (?max - ?size) (entries t)"
    using ins e(2) rq(2) r(2) by simp
  have "table_ok (dt_insert n v t)" using ins e(1) by (simp add: insert_impl_ok)
  moreover from this have "dt_table_size (dt_insert n v t) \<le> ?max"
    using ent total_evict [of "?max - ?size" "entries t"] fits by (simp add: table_ok_def)
  ultimately show "table_bounded (dt_insert n v t)" using max t(3) by (simp add: table_bounded_def)
qed

lemma dt_update_size_entries:
  assumes ok: "table_bounded t" and "new_size < 2 ^ 64"
  shows "table_bounded (dt_update_size new_size t)" "dt_hpack_max_size (dt_update_size new_size t) = new_size"
    "entries (dt_update_size new_size t) = evict new_size (entries t)"
proof -
  obtain k t1 where shrink: "shrink_to new_size t = (k, t1)" by (cases "shrink_to new_size t")
  have t: "table_ok t" "dt_table_size t < 2 ^ 64" using ok by (simp_all add: table_bounded_def)
  note e = shrink_erase [OF t assms(2) shrink]
  have upd: "dt_update_size new_size t = (erase_back k t1)\<lparr>dt_hpack_max_size := new_size\<rparr>"
    by (simp add: dt_update_size_def shrink)
  show "dt_hpack_max_size (dt_update_size new_size t) = new_size" by (simp add: upd)
  show "entries (dt_update_size new_size t) = evict new_size (entries t)"
    using e(2) by (simp add: upd entries_def)
  then show "table_bounded (dt_update_size new_size t)"
    using e(1) assms(2) total_evict [of new_size "entries t"]
    by (simp add: upd table_bounded_def table_ok_def entries_def)
qed

lemma dt_at_entries:
  "dt_at t i = (if i = 0 then Inl undefined_behaviour
     else if i \<le> length (entries t) then Inr (entries t ! (i - 1)) else Inl runtime_error)"
  by (auto simp: dt_at_def entries_def tr_key_def Let_def)

section \<open>The index set\<close>

definition index_ok :: "indexed_dynamic_table \<Rightarrow> bool" where
  "index_ok t \<longleftrightarrow> set (it_index_set t) \<subseteq> set (dt_table t) \<and> sorted_wrt record_less (it_index_set t)"

lemma record_less_iff: "record_less x r \<or> record_less r x \<longleftrightarrow> tr_key x \<noteq> tr_key r"
  by (auto simp: record_less_def)

lemma set_index_set_erase [simp]: "set (index_set_erase r s) = {x \<in> set s. tr_key x \<noteq> tr_key r}"
  by (auto simp: index_set_erase_def record_less_iff)

lemma sorted_index_set_erase: "sorted_wrt record_less s \<Longrightarrow> sorted_wrt record_less (index_set_erase r s)"
  by (simp add: index_set_erase_def sorted_wrt_filter)

lemma fold_index_set_erase:
  "set (fold index_set_erase rs s) = {x \<in> set s. \<forall>r\<in>set rs. tr_key x \<noteq> tr_key r}"
  "sorted_wrt record_less s \<Longrightarrow> sorted_wrt record_less (fold index_set_erase rs s)"
  by (induction rs arbitrary: s) (auto simp: sorted_index_set_erase)

lemma sorted_insert_between:
  assumes "sorted_wrt record_less s" "\<And>x. x \<in> set s \<Longrightarrow> record_less x r \<or> record_less r x"
  shows "sorted_wrt record_less (takeWhile (\<lambda>x. record_less x r) s @ r # dropWhile (\<lambda>x. record_less x r) s)"
  using assms
proof (induction s)
  case (Cons x s)
  have trans: "record_less a c" if "record_less a b" "record_less b c" for a b c
    using that by (auto simp: record_less_def)
  show ?case
  proof (cases "record_less x r")
    case True
    have "\<forall>y\<in>set (takeWhile (\<lambda>x. record_less x r) s @ r # dropWhile (\<lambda>x. record_less x r) s). record_less x y"
      using Cons.prems(1) True by (auto dest: set_takeWhileD set_dropWhileD)
    then show ?thesis using Cons True by simp
  next
    case False
    then have "record_less r x" using Cons.prems(2) by auto
    then show ?thesis using Cons.prems(1) False trans by auto
  qed
qed simp

lemma index_set_insert:
  "set (index_set_insert r s) \<subseteq> insert r (set s)"
  "sorted_wrt record_less s \<Longrightarrow> sorted_wrt record_less (index_set_insert r s)"
proof -
  show "set (index_set_insert r s) \<subseteq> insert r (set s)"
    by (auto simp: index_set_insert_def dest: set_takeWhileD set_dropWhileD)
  show "sorted_wrt record_less s \<Longrightarrow> sorted_wrt record_less (index_set_insert r s)"
    using sorted_insert_between by (auto simp: index_set_insert_def)
qed

text \<open>Erasing the evicted records from the set as well leaves no pointer to one of them.\<close>

definition erase_evicted :: "nat \<Rightarrow> indexed_dynamic_table \<Rightarrow> indexed_dynamic_table" where
  "erase_evicted n t = erase_back n
     (t\<lparr>it_index_set := fold index_set_erase (drop (length (dt_table t) - n) (dt_table t)) (it_index_set t)\<rparr>)"

lemma erase_evicted_index_ok:
  assumes "index_ok t"
  shows "index_ok (erase_evicted n t)"
proof -
  let ?k = "length (dt_table t) - n"
  have "x \<in> set (take ?k (dt_table t))"
    if "x \<in> set (dt_table t)" "\<forall>r\<in>set (drop ?k (dt_table t)). tr_key x \<noteq> tr_key r" for x
  proof -
    have "x \<in> set (take ?k (dt_table t)) \<union> set (drop ?k (dt_table t))"
      using that(1) by (metis append_take_drop_id set_append)
    then show ?thesis using that(2) by blast
  qed
  then show ?thesis
    using assms by (auto simp: index_ok_def erase_evicted_def erase_back_def fold_index_set_erase)
qed

lemma erase_evicted_simps [simp]:
  "entries (erase_evicted n t) = entries (erase_back n t)"
  "table_ok (erase_evicted n t) = table_ok (erase_back n t)"
  "dt_hpack_max_size (erase_evicted n t) = dt_hpack_max_size (erase_back n t)"
  by (simp_all add: erase_evicted_def erase_back_def entries_def table_ok_def)

lemma index_ok_size [simp]: "index_ok (t\<lparr>dt_table_size := sz\<rparr>) = index_ok t" "index_ok (t\<lparr>dt_hpack_max_size := m\<rparr>) = index_ok t"
  by (simp_all add: index_ok_def)

lemma it_insert_evicts:
  assumes shrink: "shrink_to (if entry_size (n, v) > dt_hpack_max_size t then 0
      else dt_hpack_max_size t - entry_size (n, v)) t = (k, t1)" and t1: "t1 = t\<lparr>dt_table_size := sz\<rparr>"
  shows "it_insert n v t =
    (let t3 = insert_impl \<lparr>tr_name = n, tr_value = v, tr_init_index = 0\<rparr> (erase_evicted k t1)
     in t3\<lparr>it_index_set := index_set_insert (hd (dt_table t3)) (it_index_set t3)\<rparr>)"
proof -
  have r: "tr_hpack_size \<lparr>tr_name = n, tr_value = v, tr_init_index = 0\<rparr> = entry_size (n, v)"
    by (simp add: tr_hpack_size_def entry_size_def)
  show ?thesis unfolding it_insert_def Let_def r shrink by (simp add: erase_evicted_def t1)
qed

lemma insert_index_ok:
  assumes "index_ok t"
  shows "index_ok (let t3 = insert_impl r t
     in t3\<lparr>it_index_set := index_set_insert (hd (dt_table t3)) (it_index_set t3)\<rparr>)"
  using assms index_set_insert
  by (auto simp: index_ok_def insert_impl_def Let_def dest!: subsetD [OF index_set_insert(1)])

lemma it_insert_entries:
  assumes ok: "table_bounded t" "index_ok t" and fits: "entry_size (n, v) \<le> dt_hpack_max_size t"
  shows "table_bounded (it_insert n v t)" "index_ok (it_insert n v t)"
    "dt_hpack_max_size (it_insert n v t) = dt_hpack_max_size t"
    "entries (it_insert n v t) = (n, v) # evict (dt_hpack_max_size t - entry_size (n, v)) (entries t)"
proof -
  let ?r = "\<lparr>tr_name = n, tr_value = v, tr_init_index = 0\<rparr>"
  let ?rq = "dt_hpack_max_size t - entry_size (n, v)"
  have t: "table_ok t" "dt_table_size t < 2 ^ 64" "?rq < 2 ^ 64" "dt_hpack_max_size t < 2 ^ 64"
    using ok(1) by (auto simp: table_bounded_def)
  obtain k t1 where shrink: "shrink_to ?rq t = (k, t1)" by (cases "shrink_to ?rq t")
  note e = shrink_erase [OF t(1-3) shrink]
  obtain sz where t1: "t1 = t\<lparr>dt_table_size := sz\<rparr>" using e(4) by blast
  let ?t3 = "insert_impl ?r (erase_evicted k t1)"
  have ins: "it_insert n v t = (let t3 = ?t3 in t3\<lparr>it_index_set := index_set_insert (hd (dt_table t3)) (it_index_set t3)\<rparr>)"
    using shrink fits by (intro it_insert_evicts [OF _ t1]) simp
  then have same: "entries (it_insert n v t) = entries ?t3" "table_ok (it_insert n v t) = table_ok ?t3"
      "dt_hpack_max_size (it_insert n v t) = dt_hpack_max_size ?t3"
    by (simp_all add: Let_def entries_def table_ok_def)
  show "index_ok (it_insert n v t)"
    unfolding ins using ok(2) t1 by (intro insert_index_ok erase_evicted_index_ok) simp
  show max: "dt_hpack_max_size (it_insert n v t) = dt_hpack_max_size t" using same(3) e(3) by simp
  show ent: "entries (it_insert n v t) = (n, v) # evict ?rq (entries t)"
    using same(1) e(2) by (simp add: tr_key_def)
  have "table_ok (it_insert n v t)" using same(2) e(1) by (simp add: insert_impl_ok)
  moreover from this have "dt_table_size (it_insert n v t) \<le> dt_hpack_max_size t"
    using ent total_evict [of ?rq "entries t"] fits by (simp add: table_ok_def)
  ultimately show "table_bounded (it_insert n v t)" using max t(4) by (simp add: table_bounded_def)
qed

lemma it_update_size_entries:
  assumes ok: "table_bounded t" "index_ok t" and "new_size < 2 ^ 64"
  shows "table_bounded (it_update_size new_size t)" "index_ok (it_update_size new_size t)"
    "dt_hpack_max_size (it_update_size new_size t) = new_size"
    "entries (it_update_size new_size t) = evict new_size (entries t)"
proof -
  obtain k t1 where shrink: "shrink_to new_size t = (k, t1)" by (cases "shrink_to new_size t")
  have t: "table_ok t" "dt_table_size t < 2 ^ 64" using ok by (simp_all add: table_bounded_def)
  note e = shrink_erase [OF t assms(3) shrink]
  obtain sz where t1: "t1 = t\<lparr>dt_table_size := sz\<rparr>" using e(4) by blast
  have upd: "it_update_size new_size t = (erase_evicted k t1)\<lparr>dt_hpack_max_size := new_size\<rparr>"
    by (simp add: it_update_size_def shrink Let_def erase_evicted_def t1)
  show "dt_hpack_max_size (it_update_size new_size t) = new_size" by (simp add: upd)
  show "index_ok (it_update_size new_size t)" using ok(2) t1 by (simp add: upd erase_evicted_index_ok)
  have same: "entries (u\<lparr>dt_hpack_max_size := new_size\<rparr>) = entries u" "table_ok (u\<lparr>dt_hpack_max_size := new_size\<rparr>) = table_ok u"
    for u :: indexed_dynamic_table by (simp_all add: entries_def table_ok_def)
  show ent: "entries (it_update_size new_size t) = evict new_size (entries t)"
    using e(2) by (simp add: upd same)
  have "table_ok (it_update_size new_size t)" using e(1) by (simp add: upd same)
  then show "table_bounded (it_update_size new_size t)"
    using ent assms(3) total_evict [of new_size "entries t"] by (simp add: upd table_bounded_def table_ok_def)
qed

section \<open>Indices\<close>

text \<open>\<open>init_index\<close> wraps at 32 bits, and so does the conversion of the index to \<open>int\<close>.\<close>

lemma init_index_nth:
  assumes "indices_ok rs" "i < length rs"
  shows "tr_init_index (rs ! i) = tr_init_index (last rs) + of_nat (length rs - 1 - i)"
  using assms(2)
proof (induction "length rs - 1 - i" arbitrary: i)
  case 0
  then have "i = length rs - 1" by simp
  moreover have "rs \<noteq> []" using 0 by auto
  ultimately show ?case by (simp add: last_conv_nth)
next
  case (Suc d)
  then have i: "Suc i < length rs" "d = length rs - 1 - Suc i" by simp_all
  then have "tr_init_index (rs ! i) = tr_init_index (rs ! Suc i) + 1" using assms(1) by (simp add: indices_ok_def)
  also have "tr_init_index (rs ! Suc i) = tr_init_index (last rs) + of_nat d"
    using Suc.hyps(1) [OF i(2) i(1)] i(2) by simp
  finally show ?case unfolding Suc.hyps(2) [symmetric] by simp
qed

lemma ucast_record_index: "(ucast (record_index t r) :: u32) =
    of_nat (length (dt_table t)) + tr_init_index (last (dt_table t)) - tr_init_index r"
proof -
  have down: "(ucast (a + b - c) :: u32) = ucast a + ucast b - ucast c" for a b c :: u64
  proof -
    have "a + b - c = of_int (uint a + uint b - uint c)" by simp
    then have "(ucast (a + b - c) :: u32) = of_int (uint a + uint b - uint c)" by (simp only: ucast_of_int_u32)
    then show ?thesis by simp
  qed
  have "(ucast (ucast w :: u64) :: u32) = w" for w :: u32 by transfer simp
  then show ?thesis by (simp add: record_index_def down ucast_of_nat_u32)
qed

lemma record_index_nth:
  assumes "table_ok t" "i < length (dt_table t)" "length (dt_table t) < 2 ^ 31"
  shows "sint (ucast (record_index t (dt_table t ! i)) :: u32) = int i + 1"
proof -
  let ?n = "length (dt_table t)"
  have "tr_init_index (dt_table t ! i) = tr_init_index (last (dt_table t)) + of_nat (?n - 1 - i)"
    using assms by (intro init_index_nth) (simp_all add: table_ok_def)
  then have "(ucast (record_index t (dt_table t ! i)) :: u32) = of_nat (i + 1)"
    using assms(2) by (simp add: ucast_record_index of_nat_diff)
  moreover have "sint (of_nat (i + 1) :: u32) = int (i + 1)"
    using assms(2,3) by (subst signed_of_nat) (simp add: signed_take_bit_int_eq_self)
  ultimately show ?thesis by simp
qed

lemma length_bounded: "table_bounded t \<Longrightarrow> 32 * length (dt_table t) \<le> dt_hpack_max_size t"
proof -
  have "32 * length es \<le> total_size es" for es
  proof (induction es)
    case (Cons e es)
    then show ?case using entry_size_pos [of e] by simp
  qed simp
  from this [of "entries t"] show "table_bounded t \<Longrightarrow> 32 * length (dt_table t) \<le> dt_hpack_max_size t"
    by (simp add: table_bounded_def table_ok_def entries_def)
qed

text \<open>Wherever the search in the set ends, an index that is returned is that of an entry with this name.\<close>

lemma it_field_index_sound:
  assumes ok: "table_ok t" "index_ok t" "length (dt_table t) < 2 ^ 31"
  obtains (found) i has_value where "1 \<le> i" "i \<le> length (entries t)" "fst (entries t ! (i - 1)) = name"
      "has_value \<longleftrightarrow> entries t ! (i - 1) = (name, val)" "it_field_index stray t name val = (int i, has_value)"
  | (missing) "it_field_index stray t name val = (- 1, False)"
proof -
  let ?it = "lower_bound stray (it_index_set t) (name, val)"
  let ?r = "it_index_set t ! ?it"
  show thesis
  proof (cases "?it < length (it_index_set t) \<and> tr_name ?r = name")
    case True
    then have "?r \<in> set (dt_table t)" using ok(2) by (auto simp: index_ok_def)
    then obtain i where i: "i < length (dt_table t)" "dt_table t ! i = ?r" by (auto simp: in_set_conv_nth)
    then have idx: "sint (ucast (record_index t ?r) :: u32) = int (Suc i)"
      using record_index_nth [OF ok(1) i(1) ok(3)] by simp
    have entry: "entries t ! i = (tr_name ?r, tr_value ?r)" using i by (simp add: entries_def tr_key_def)
    have "it_field_index stray t name val = (int (Suc i), tr_value ?r = val)"
      using True idx by (simp add: it_field_index_def Let_def)
    then show thesis using True i(1) entry by (intro found [of "Suc i"]) (auto simp: entries_def)
  next
    case False
    then show thesis by (intro missing) (auto simp: it_field_index_def Let_def)
  qed
qed

section \<open>The interface of a dynamic table\<close>

text \<open>
  What \<open>hpack_table\<close> relies on in its template parameter: both tables keep the same list of entries
  through the same operations.
\<close>

datatype table_op = Insert "byte list" "byte list" | Resize nat

fun apply_op :: "(byte list \<Rightarrow> byte list \<Rightarrow> 't \<Rightarrow> 't) \<Rightarrow> (nat \<Rightarrow> 't \<Rightarrow> 't) \<Rightarrow> table_op \<Rightarrow> 't \<Rightarrow> 't" where
  "apply_op ins upd (Insert n v) t = ins n v t"
| "apply_op ins upd (Resize s) t = upd s t"

text \<open>The reference: a bound and a list of entries, the newest first.\<close>

definition ref_insert :: "byte list \<Rightarrow> byte list \<Rightarrow> nat \<times> static_field list \<Rightarrow> nat \<times> static_field list" where
  "ref_insert n v = (\<lambda>(m, es). (m, (n, v) # evict (m - entry_size (n, v)) es))"

definition ref_resize :: "nat \<Rightarrow> nat \<times> static_field list \<Rightarrow> nat \<times> static_field list" where
  "ref_resize s = (\<lambda>(m, es). (s, evict s es))"

text \<open>Each inserted field fits the table at its bound of that moment.\<close>

fun ops_fit :: "nat \<Rightarrow> table_op list \<Rightarrow> bool" where
  "ops_fit m [] = True"
| "ops_fit m (Insert n v # ops) = (entry_size (n, v) \<le> m \<and> ops_fit m ops)"
| "ops_fit m (Resize s # ops) = (s < 2 ^ 64 \<and> ops_fit s ops)"

locale entry_table =
  fixes tbl_ok :: "'t \<Rightarrow> bool"
    and tbl_max :: "'t \<Rightarrow> nat"
    and tbl_entries :: "'t \<Rightarrow> static_field list"
    and tbl_insert :: "byte list \<Rightarrow> byte list \<Rightarrow> 't \<Rightarrow> 't"
    and tbl_update_size :: "nat \<Rightarrow> 't \<Rightarrow> 't"
    and tbl_at :: "'t \<Rightarrow> nat \<Rightarrow> static_field result"
  assumes ok_bound: "tbl_ok t \<Longrightarrow> total_size (tbl_entries t) \<le> tbl_max t"
    and ok_insert: "tbl_ok t \<Longrightarrow> entry_size (n, v) \<le> tbl_max t \<Longrightarrow> tbl_ok (tbl_insert n v t)"
    and max_insert: "tbl_ok t \<Longrightarrow> entry_size (n, v) \<le> tbl_max t \<Longrightarrow> tbl_max (tbl_insert n v t) = tbl_max t"
    and entries_insert: "tbl_ok t \<Longrightarrow> entry_size (n, v) \<le> tbl_max t \<Longrightarrow>
      tbl_entries (tbl_insert n v t) = (n, v) # evict (tbl_max t - entry_size (n, v)) (tbl_entries t)"
    and ok_update: "tbl_ok t \<Longrightarrow> s < 2 ^ 64 \<Longrightarrow> tbl_ok (tbl_update_size s t)"
    and max_update: "tbl_ok t \<Longrightarrow> s < 2 ^ 64 \<Longrightarrow> tbl_max (tbl_update_size s t) = s"
    and entries_update: "tbl_ok t \<Longrightarrow> s < 2 ^ 64 \<Longrightarrow> tbl_entries (tbl_update_size s t) = evict s (tbl_entries t)"
    and at_entries: "tbl_ok t \<Longrightarrow> tbl_at t i = (if i = 0 then Inl undefined_behaviour
      else if i \<le> length (tbl_entries t) then Inr (tbl_entries t ! (i - 1)) else Inl runtime_error)"
begin

text \<open>The newest entry has index 1, and every older one that stays moves up by one.\<close>

lemma at_insert:
  assumes "tbl_ok t" "entry_size (n, v) \<le> tbl_max t"
  shows "tbl_at (tbl_insert n v t) 1 = Inr (n, v)"
    and "1 \<le> i \<Longrightarrow> i < length (tbl_entries (tbl_insert n v t)) \<Longrightarrow> tbl_at (tbl_insert n v t) (Suc i) = tbl_at t i"
proof -
  let ?rest = "evict (tbl_max t - entry_size (n, v)) (tbl_entries t)"
  note ins = entries_insert [OF assms] and ok = ok_insert [OF assms]
  show "tbl_at (tbl_insert n v t) 1 = Inr (n, v)" by (simp add: at_entries [OF ok] ins)
  obtain k where k: "?rest = take k (tbl_entries t)" using evict_prefix by blast
  show "tbl_at (tbl_insert n v t) (Suc i) = tbl_at t i"
    if "1 \<le> i" "i < length (tbl_entries (tbl_insert n v t))"
    using that by (auto simp: at_entries [OF ok] at_entries [OF assms(1)] ins k nth_Cons')
qed

lemma run_ops:
  assumes "tbl_ok t" "ops_fit (tbl_max t) ops"
  defines "t' \<equiv> fold (apply_op tbl_insert tbl_update_size) ops t"
  shows "tbl_ok t' \<and>
    (tbl_max t', tbl_entries t') = fold (apply_op ref_insert ref_resize) ops (tbl_max t, tbl_entries t)"
  using assms(1,2) unfolding t'_def
proof (induction ops arbitrary: t)
  case (Cons op ops)
  show ?case
  proof (cases op)
    case (Insert n v)
    then show ?thesis
      using Cons.prems Cons.IH [of "tbl_insert n v t"]
      by (simp add: ok_insert max_insert entries_insert ref_insert_def)
  next
    case (Resize s)
    then show ?thesis
      using Cons.prems Cons.IH [of "tbl_update_size s t"]
      by (simp add: ok_update max_update entries_update ref_resize_def)
  qed
qed simp

end

interpretation dyn: entry_table table_bounded dt_hpack_max_size entries dt_insert dt_update_size dt_at
  by unfold_locales
    (simp_all add: dt_insert_entries dt_update_size_entries dt_at_entries, simp add: table_bounded_def table_ok_def)

definition indexed_ok :: "indexed_dynamic_table \<Rightarrow> bool" where
  "indexed_ok t \<longleftrightarrow> table_bounded t \<and> index_ok t"

interpretation idx: entry_table indexed_ok dt_hpack_max_size entries it_insert it_update_size dt_at
  by unfold_locales
    (simp_all add: indexed_ok_def it_insert_entries it_update_size_entries dt_at_entries,
      simp add: table_bounded_def table_ok_def)

lemma tables_new:
  "m < 2 ^ 64 \<Longrightarrow> table_bounded (dynamic_table_new m)" "m < 2 ^ 64 \<Longrightarrow> indexed_ok (indexed_dynamic_table_new m)"
  "entries (dynamic_table_new m) = []" "entries (indexed_dynamic_table_new m) = []"
  "dt_hpack_max_size (dynamic_table_new m) = m" "dt_hpack_max_size (indexed_dynamic_table_new m) = m"
  by (simp_all add: table_bounded_def table_ok_def entries_def indices_ok_def index_ok_def indexed_ok_def
      dynamic_table_new_def indexed_dynamic_table_new_def)

section \<open>Properties\<close>

text \<open>
  C9: The table of the decoder and the table of the encoder implement one list of entries. After
  the same insertions and size changes, of fields that fit, both hold the entries of the
  reference list in the same order, so that an index means the same to both sides, and their
  sizes stay within the bound.
\<close>

theorem tables_agree:
  assumes "m < 2 ^ 64" "ops_fit m ops"
  shows "let dec = fold (apply_op dt_insert dt_update_size) ops (dynamic_table_new m);
             enc = fold (apply_op it_insert it_update_size) ops (indexed_dynamic_table_new m)
         in entries dec = snd (fold (apply_op ref_insert ref_resize) ops (m, [])) \<and>
            entries enc = entries dec \<and> dt_hpack_max_size enc = dt_hpack_max_size dec \<and>
            dt_table_size dec \<le> dt_hpack_max_size dec \<and> dt_table_size enc = dt_table_size dec"
proof -
  let ?dec = "fold (apply_op dt_insert dt_update_size) ops (dynamic_table_new m)"
  let ?enc = "fold (apply_op it_insert it_update_size) ops (indexed_dynamic_table_new m)"
  have dec: "table_bounded ?dec" "(dt_hpack_max_size ?dec, entries ?dec) = fold (apply_op ref_insert ref_resize) ops (m, [])"
    using dyn.run_ops [of "dynamic_table_new m" ops] assms by (simp_all add: tables_new)
  have enc: "indexed_ok ?enc" "(dt_hpack_max_size ?enc, entries ?enc) = fold (apply_op ref_insert ref_resize) ops (m, [])"
    using idx.run_ops [of "indexed_dynamic_table_new m" ops] assms by (simp_all add: tables_new)
  have same: "dt_hpack_max_size ?enc = dt_hpack_max_size ?dec" "entries ?enc = entries ?dec"
    using dec(2) enc(2) by (metis prod.inject)+
  moreover have "entries ?dec = snd (fold (apply_op ref_insert ref_resize) ops (m, []))" using dec(2) by (metis snd_conv)
  ultimately show ?thesis
    using dec(1) enc(1) by (simp add: table_bounded_def table_ok_def indexed_ok_def)
qed

theorem tables_agree_witness:
  "entries (fold (apply_op it_insert it_update_size) [Insert [1] [2], Insert [3] [], Resize 40] (indexed_dynamic_table_new 70))
     = []"
proof -
  have fit: "ops_fit 70 [Insert [1] [2], Insert [3] [], Resize 40]" by (simp add: entry_size_def)
  show ?thesis
    using tables_agree [OF _ fit]
    by (simp add: Let_def ref_insert_def ref_resize_def entry_size_def evict_rfc_evict)
qed

text \<open>
  C32: Eviction, compared with RFC 7541. When the size is lowered both tables keep what the RFC
  keeps if everything fits or if the entries that stay have exactly the new size. In every
  other case they drop all entries, because the \<open>size_t\<close> that counts what is left to evict wraps.
\<close>

theorem eviction_against_rfc:
  assumes "table_bounded t" "indexed_ok u" "s < 2 ^ 64"
  shows "entries (dt_update_size s t) =
      (if total_size (entries t) \<le> s \<or> total_size (rfc_evict s (entries t)) = s then rfc_evict s (entries t) else []) \<and>
    entries (it_update_size s u) =
      (if total_size (entries u) \<le> s \<or> total_size (rfc_evict s (entries u)) = s then rfc_evict s (entries u) else [])"
  using dyn.entries_update [OF assms(1,3)] idx.entries_update [OF assms(2,3)] by (simp add: evict_rfc_evict)

theorem eviction_against_rfc_witness:
  "let t = dt_insert [1] [] (dt_insert [2] [] (dynamic_table_new 4096))
   in entries t = [([1], []), ([2], [])] \<and> rfc_evict 40 (entries t) = [([1], [])] \<and> entries (dt_update_size 40 t) = []"
proof -
  let ?t = "dt_insert [1] [] (dt_insert [2] [] (dynamic_table_new 4096))"
  have ok: "table_bounded (dt_insert [2] [] (dynamic_table_new 4096))"
    "dt_hpack_max_size (dt_insert [2] [] (dynamic_table_new 4096)) = 4096"
    "entries (dt_insert [2] [] (dynamic_table_new 4096)) = [([2], [])]"
    using dt_insert_entries [of "dynamic_table_new 4096" "[2]" "[]"] by (simp_all add: tables_new entry_size_def)
  then have t: "table_bounded ?t" "entries ?t = [([1], []), ([2], [])]"
    using dt_insert_entries [OF ok(1), of "[1]" "[]"] by (simp_all add: entry_size_def)
  show ?thesis
    using eviction_against_rfc [OF t(1) tables_new(2) [of 0], of 40] t(2) by (simp add: entry_size_def)
qed

text \<open>
  No pointer of \<open>index_set\<close> dangles, and the set stays ordered by its comparator, after any
  insertions of fields that fit and any size changes.
\<close>

lemma index_set_never_dangles:
  assumes "m < 2 ^ 64" "ops_fit m ops"
  shows "let t = fold (apply_op it_insert it_update_size) ops (indexed_dynamic_table_new m)
         in set (it_index_set t) \<subseteq> set (dt_table t) \<and> sorted_wrt record_less (it_index_set t)"
proof -
  have "indexed_ok (fold (apply_op it_insert it_update_size) ops (indexed_dynamic_table_new m))"
    using idx.run_ops [of "indexed_dynamic_table_new m" ops] assms by (simp add: tables_new)
  then show ?thesis by (simp add: indexed_ok_def index_ok_def Let_def)
qed

text \<open>
  \<open>indexed_dynamic_table::field_index\<close> is sound: an index it returns is the index \<open>at\<close> reads an entry
  with this name from, and the flag tells whether that entry has this value, wherever the
  search of the set ends, and also after \<open>init_index\<close> has wrapped.
\<close>

lemma field_index_sound:
  assumes "indexed_ok t" "length (dt_table t) < 2 ^ 31" "it_field_index stray t name val = (i, has_value)" "i \<noteq> - 1"
  shows "\<exists>e. dt_at t (nat i) = Inr e \<and> fst e = name \<and> (has_value \<longleftrightarrow> e = (name, val))"
proof -
  have ok: "table_ok t" "index_ok t" using assms(1) by (simp_all add: indexed_ok_def table_bounded_def)
  from ok assms(2) show ?thesis
  proof (cases rule: it_field_index_sound [where stray = stray and name = name and val = val])
    case (found j b)
    then show ?thesis using assms(3) by (auto simp: dt_at_entries)
  next
    case missing
    then show ?thesis using assms(3,4) by simp
  qed
qed

lemmas table_eval = it_insert_def it_update_size_def dt_insert_def dt_update_size_def shrink_to_def erase_back_def
  insert_impl_def index_set_insert_def record_less_def tr_key_def tr_hpack_size_def indexed_dynamic_table_new_def
  dynamic_table_new_def Let_def

lemma unat_underflow:
  assumes "m < s" "s < 2 ^ 64"
  shows "unat (of_nat m - of_nat s :: u64) = 2 ^ 64 - (s - m)"
proof -
  define d where "d = s - m"
  then have d: "s = m + d" "0 < d" "d < 2 ^ 64" using assms by simp_all
  have "of_nat m - of_nat s = (of_nat (2 ^ 64 - d) :: u64)" using d by (simp add: of_nat_diff)
  moreover have "unat (of_nat (2 ^ 64 - d) :: u64) = 2 ^ 64 - d" by (subst unat_of_nat) (use d in simp)
  ultimately show ?thesis by (simp only: d_def)
qed

lemma dt_insert_oversized:
  assumes "entry_size (n, v) > dt_hpack_max_size t" "entry_size (n, v) + dt_table_size t < 2 ^ 64"
  shows "dt_insert n v t = insert_impl \<lparr>tr_name = n, tr_value = v, tr_init_index = 0\<rparr> t"
proof -
  let ?r = "\<lparr>tr_name = n, tr_value = v, tr_init_index = 0\<rparr>"
  let ?rq = "unat (of_nat (dt_hpack_max_size t) - of_nat (entry_size (n, v)) :: u64)"
  have r: "tr_hpack_size ?r = entry_size (n, v)" by (simp add: tr_hpack_size_def entry_size_def)
  have "?rq = 2 ^ 64 - (entry_size (n, v) - dt_hpack_max_size t)" using assms by (intro unat_underflow) linarith+
  then have "dt_table_size t \<le> ?rq" using assms by linarith
  then have shrink: "shrink_to ?rq t = (0, t)" by (simp add: shrink_to_def)
  have big: "(entry_size (n, v) + dt_table_size t > dt_hpack_max_size t) = True" using assms(1) by simp
  show ?thesis unfolding dt_insert_def Let_def r big if_True shrink by (simp add: erase_back_def)
qed

lemma it_insert_oversized:
  assumes "indexed_ok u" "entry_size (n, v) > dt_hpack_max_size u"
  shows "entries (it_insert n v u) = [(n, v)]"
proof -
  obtain k t1 where shrink: "shrink_to 0 u = (k, t1)" by (cases "shrink_to 0 u")
  have u: "table_ok u" "dt_table_size u < 2 ^ 64" "(0::nat) < 2 ^ 64"
    using assms(1) by (simp_all add: indexed_ok_def table_bounded_def)
  note e = shrink_erase [OF u shrink]
  obtain sz where t1: "t1 = u\<lparr>dt_table_size := sz\<rparr>" using e(4) by blast
  have "entries (erase_evicted k t1) = []" using total_evict [of 0 "entries u"] e(2) by simp
  moreover have "entries (t\<lparr>it_index_set := s\<rparr>) = entries t" for t :: indexed_dynamic_table and s
    by (simp add: entries_def)
  ultimately show ?thesis
    using it_insert_evicts [OF _ t1, of n v k] shrink assms(2) by (simp add: Let_def tr_key_def)
qed

text \<open>
  A field larger than the whole table, compared with RFC 7541, where it empties the table.
  \<open>dynamic_table::insert\<close> computes \<open>hpack_max_size - hsize\<close> below zero, evicts nothing and inserts the field;
  \<open>indexed_dynamic_table::insert\<close> evicts everything and inserts the field. Both tables then exceed
  their bound.
\<close>

lemma oversized_field_inserted:
  assumes "table_bounded t" "indexed_ok u" "entry_size (n, v) > dt_hpack_max_size t" "entry_size (n, v) > dt_hpack_max_size u"
    and "entry_size (n, v) + dt_table_size t < 2 ^ 64"
  shows "entries (dt_insert n v t) = (n, v) # entries t \<and> entries (it_insert n v u) = [(n, v)] \<and>
    dt_table_size (dt_insert n v t) > dt_hpack_max_size (dt_insert n v t)"
  using assms dt_insert_oversized [OF assms(3,5)] it_insert_oversized [OF assms(2,4)]
    insert_impl_ok [of t "\<lparr>tr_name = n, tr_value = v, tr_init_index = 0\<rparr>"]
  by (simp add: table_bounded_def table_ok_def tr_key_def)

text \<open>
  The two comparisons of \<open>index_comparator\<close> disagree: this set, ordered by the one, is not partitioned
  by the other, so that the precondition of \<open>lower_bound\<close> fails.
\<close>

lemma index_set_not_partitioned:
  "\<not> partitioned (it_index_set (it_insert [2] [1] (it_insert [1, 1] [] (indexed_dynamic_table_new 4096)))) ([2], [1, 1])"
  by (simp add: partitioned_def key_less_def span_less_def table_eval)

end
