(* ===== verification/Hpack_Table.thy ===== *)
theory Hpack_Table
  imports Hpack_Dynamic_Table
begin

text \<open>
  The class template \<open>hpack_table\<close> (\<open>lib/hpack/hpack_table.h\<close>): the static and a dynamic table behind one
  range of indices. Each method takes the operation of the dynamic table it forwards to, and
  the lemmas about it are proved from the interface \<open>entry_table\<close>, for both instances.
\<close>

definition ht_at :: "('t \<Rightarrow> nat \<Rightarrow> static_field result) \<Rightarrow> 't \<Rightarrow> nat \<Rightarrow> static_field result" where
  "ht_at dyn_at dyn_table i =
     (if i = 0 then Inl runtime_error
      else if i \<le> st_size then Inr (st_at i)
      else dyn_at dyn_table (i - st_size))"

definition ht_insert :: "(byte list \<Rightarrow> byte list \<Rightarrow> 't \<Rightarrow> 't) \<Rightarrow> byte list \<Rightarrow> byte list \<Rightarrow> 't \<Rightarrow> 't" where
  "ht_insert dyn_insert name val dyn_table = dyn_insert name val dyn_table"

definition ht_update_size :: "(nat \<Rightarrow> 't \<Rightarrow> 't) \<Rightarrow> nat \<Rightarrow> 't \<Rightarrow> 't" where
  "ht_update_size dyn_update_size new_size dyn_table = dyn_update_size new_size dyn_table"

definition ht_field_index ::
  "('t \<Rightarrow> byte list \<Rightarrow> byte list \<Rightarrow> int \<times> bool) \<Rightarrow> 't \<Rightarrow> byte list \<Rightarrow> byte list \<Rightarrow> int \<times> bool" where
  "ht_field_index dyn_field_index dyn_table name val =
     (let (i, has_value) = st_field_index name val
      in if has_value then (i, has_value)
         else
           let (dyn_i, dyn_has_value) = dyn_field_index dyn_table name val
           in if dyn_has_value then (dyn_i + int st_size, dyn_has_value)
              else if i \<noteq> - 1 then (i, has_value)
              else (dyn_i, dyn_has_value))"

type_synonym decoder_table = dynamic_table
type_synonym encoder_table = indexed_dynamic_table

abbreviation decoder_at :: "decoder_table \<Rightarrow> nat \<Rightarrow> static_field result" where
  "decoder_at \<equiv> ht_at dt_at"

abbreviation encoder_field_index :: "stray \<Rightarrow> encoder_table \<Rightarrow> byte list \<Rightarrow> byte list \<Rightarrow> int \<times> bool" where
  "encoder_field_index stray \<equiv> ht_field_index (it_field_index stray)"

text \<open>Whether a name is in the static table.\<close>

definition static_name :: "byte list \<Rightarrow> bool" where
  "static_name name \<longleftrightarrow> name \<in> fst ` set field_table"

section \<open>One range of indices\<close>

text \<open>The indices 1 to 61 are the static entries, those from 62 on the dynamic ones, the newest first.\<close>

definition index_space :: "static_field list \<Rightarrow> static_field list" where
  "index_space es = field_table @ es"

context entry_table
begin

lemma ht_at_index_space:
  assumes "tbl_ok t"
  shows "ht_at tbl_at t i = (if i = 0 \<or> length (index_space (tbl_entries t)) < i then Inl runtime_error
    else Inr (index_space (tbl_entries t) ! (i - 1)))"
  using at_entries [OF assms, of "i - 61"]
  by (auto simp: ht_at_def st_at_def index_space_def nth_append)

lemma ht_at_after_insert:
  assumes "tbl_ok t" "entry_size (n, v) \<le> tbl_max t"
  shows "ht_at tbl_at (ht_insert tbl_insert n v t) 62 = Inr (n, v)"
  using at_insert(1) [OF assms] by (simp add: ht_at_def ht_insert_def)

end

lemma static_name_at: "1 \<le> i \<Longrightarrow> i \<le> 61 \<Longrightarrow> static_name (fst (st_at i))"
  by (auto simp: static_name_def st_at_def intro!: imageI nth_mem)

text \<open>
  What \<open>field_index\<close> of the encoder's table returns. In the last case but one the offset of the dynamic
  table is missing from the index.
\<close>

lemma encoder_field_index_cases:
  assumes ok: "indexed_ok t" "length (dt_table t) < 2 ^ 31"
  obtains (both) i where "1 \<le> i" "i \<le> length (index_space (entries t))" "index_space (entries t) ! (i - 1) = (name, val)"
      "encoder_field_index stray t name val = (int i, True)"
  | (name) i where "1 \<le> i" "i \<le> 61" "fst (index_space (entries t) ! (i - 1)) = name" "static_name name"
      "encoder_field_index stray t name val = (int i, False)"
  | (no_offset) i where "\<not> static_name name" "1 \<le> i" "i \<le> length (entries t)" "fst (entries t ! (i - 1)) = name"
      "encoder_field_index stray t name val = (int i, False)"
  | (none) "\<not> static_name name" "encoder_field_index stray t name val = (- 1, False)"
proof -
  have t: "table_ok t" "index_ok t" using ok(1) by (simp_all add: indexed_ok_def table_bounded_def)
  have st: "index_space (entries t) ! (i - 1) = st_at i" if "1 \<le> i" "i \<le> 61" for i
  proof -
    have "i - 1 < 61" using that by linarith
    then show ?thesis by (simp add: index_space_def st_at_def nth_append)
  qed
  have dyn: "index_space (entries t) ! (i + 61 - 1) = entries t ! (i - 1)" if "1 \<le> i" for i
    using that by (simp add: index_space_def nth_append)
  note fi = ht_field_index_def Let_def
  show thesis
  proof (cases rule: st_field_index_cases [of name val])
    case (both i)
    then show thesis using that(1) [of i] st by (simp add: fi index_space_def)
  next
    case (name i)
    note st_name = name
    then have static: "static_name name" using static_name_at by metis
    from t ok(2) show thesis
    proof (cases rule: it_field_index_sound [where stray = stray and name = name and val = val])
      case (found j b)
      show thesis
      proof (cases b)
        case True
        then show thesis using found st_name that(1) [of "j + 61"] dyn [of j] by (simp add: fi index_space_def)
      next
        case False
        then show thesis using found st_name static that(2) [of i] st by (simp add: fi)
      qed
    next
      case missing
      then show thesis using st_name static that(2) [of i] st by (simp add: fi)
    qed
  next
    case none
    then have static: "\<not> static_name name" by (simp add: static_name_def)
    from t ok(2) show thesis
    proof (cases rule: it_field_index_sound [where stray = stray and name = name and val = val])
      case (found j b)
      show thesis
      proof (cases b)
        case True
        then show thesis using found none that(1) [of "j + 61"] dyn [of j] by (simp add: fi index_space_def)
      next
        case False
        then show thesis using found none static that(3) [of j] by (simp add: fi)
      qed
    next
      case missing
      then show thesis using none static that(4) by (simp add: fi)
    qed
  qed
qed

section \<open>Properties\<close>

text \<open>
  One range of indices over both tables: \<open>hpack_table::at\<close> of the decoder reads entry \<open>i\<close> of the static
  entries followed by the dynamic ones, the newest first, and throws for 0 and past the end; a
  field that fits and is inserted is read back at index 62.
\<close>

lemma decoder_index_space:
  assumes "table_bounded t" "entry_size (n, v) \<le> dt_hpack_max_size t"
  shows "decoder_at t i = (if i = 0 \<or> length (index_space (entries t)) < i then Inl runtime_error
      else Inr (index_space (entries t) ! (i - 1))) \<and>
    decoder_at (ht_insert dt_insert n v t) 62 = Inr (n, v)"
  using dyn.ht_at_index_space [OF assms(1)] dyn.ht_at_after_insert [OF assms] by blast

text \<open>
  The lookup of the encoder agrees with the decoder's reading: while all names in the dynamic
  table are static names, an index that \<open>hpack_table::field_index\<close> returns denotes an entry with that
  name, and with that value when the flag is set.
\<close>

lemma encoder_lookup_sound:
  assumes "indexed_ok t" "length (dt_table t) < 2 ^ 31" "\<forall>e\<in>set (entries t). static_name (fst e)"
    and "encoder_field_index stray t name val = (i, has_value)" "i \<noteq> - 1"
  shows "\<exists>e. ht_at dt_at t (nat i) = Inr e \<and> fst e = name \<and> (has_value \<longrightarrow> e = (name, val))"
proof -
  note at = idx.ht_at_index_space [OF assms(1)]
  from assms(1,2) show ?thesis
  proof (cases rule: encoder_field_index_cases [where stray = stray and name = name and val = val])
    case (both j)
    then show ?thesis using assms(4) by (auto simp: at)
  next
    case (name j)
    then have "j \<le> length (index_space (entries t))" by (simp add: index_space_def)
    then show ?thesis using name assms(4) by (auto simp: at)
  next
    case (no_offset j)
    then have "entries t ! (j - 1) \<in> set (entries t)" by (intro nth_mem) linarith
    then show ?thesis using no_offset assms(3) by metis
  next
    case none
    then show ?thesis using assms(4,5) by simp
  qed
qed

text \<open>
  With another name in the table the lookup returns the index within the dynamic table, which
  the decoder reads as an entry of the static one: here index 1, \<open>:authority\<close>.
\<close>

lemma field_index_misses_offset:
  "encoder_field_index (\<lambda>_ _. 0) (it_insert (sp ''x'') [2] (indexed_dynamic_table_new 4096)) (sp ''x'') [1] = (1, False)"
  by (simp add: ht_field_index_def st_field_index_def st_index_def sp_def it_field_index_def lower_bound_def
      partitioned_def key_less_def span_less_def record_index_def table_eval)

end
