(* ===== verification/Hpack_Header_Field.thy ===== *)
theory Hpack_Header_Field
  imports H2_Prelude
begin

text \<open>
  Header fields (\<open>lib/hpack/header_field.{h,cpp}\<close>). The constructors refuse a field whose name and
  value together are too long; the lemmas turn that into the bounds the encoder needs.
\<close>

datatype index_type = DEFAULT | WITHOUT_INDEX | NEVER_INDEX

record header_field =
  hf_name :: "byte list"
  hf_value :: "byte list"
  hf_type :: index_type

type_synonym header = "header_field list"

definition check_max_size :: "byte list \<Rightarrow> byte list \<Rightarrow> unit result" where
  "check_max_size t v = (if (length t + length v) * 8 div 5 \<ge> 2 ^ 24 - 1 then Inl overflow_error else Inr ())"

text \<open>The three constructors differ only in how the bytes are passed.\<close>

definition header_field_new :: "byte list \<Rightarrow> byte list \<Rightarrow> index_type \<Rightarrow> header_field result" where
  "header_field_new name val type =
     bind_res (check_max_size name val) (\<lambda>_. Inr \<lparr>hf_name = name, hf_value = val, hf_type = type\<rparr>)"

definition hf_hpack_size :: "header_field \<Rightarrow> nat" where
  "hf_hpack_size f = length (hf_name f) + length (hf_value f) + 32"

text \<open>What the destructor leaves in the memory of the name and the value.\<close>

definition header_field_destroy :: "header_field \<Rightarrow> byte list \<times> byte list" where
  "header_field_destroy f =
     (if hf_type f = NEVER_INDEX
      then (replicate (length (hf_name f)) 0, replicate (length (hf_value f)) 0)
      else (hf_name f, hf_value f))"

text \<open>The fields a constructor can have made.\<close>

definition field_ok :: "header_field \<Rightarrow> bool" where
  "field_ok f \<longleftrightarrow> header_field_new (hf_name f) (hf_value f) (hf_type f) = Inr f"

lemma header_field_new_ok: "header_field_new n v t = Inr f \<longleftrightarrow>
    (length n + length v) * 8 div 5 < 2 ^ 24 - 1 \<and> f = \<lparr>hf_name = n, hf_value = v, hf_type = t\<rparr>"
  by (auto simp: header_field_new_def check_max_size_def)

lemma field_ok_bound: "field_ok f \<Longrightarrow> length (hf_name f) + length (hf_value f) \<le> 10485759"
  by (auto simp: field_ok_def header_field_new_ok)

lemma header_field_new_field_ok: "header_field_new n v t = Inr f \<Longrightarrow> field_ok f"
  by (auto simp: field_ok_def header_field_new_ok)

end
