(* ===== verification/Hpack_Encoder.thy ===== *)
theory Hpack_Encoder
  imports Hpack_Encoder_Stream Hpack_Table Hpack_Header_Field
begin

text \<open>
  The HPACK encoder (\<open>lib/hpack/encoder.{h,cpp}\<close>). \<open>encode_field\<close> is the body of the loop over the fields;
  it may throw, end the loop, or go on with the encoder, the stream and the bytes left. The
  lemmas show what one field adds to the output and to the table.
\<close>

record encoder_config =
  init_table_size :: nat
  max_table_size :: nat
  max_header_list_size :: nat
  min_huffman_rate :: nat
  min_dyntable_value_rate :: nat

definition encoder_config_default :: encoder_config where
  "encoder_config_default = \<lparr>init_table_size = 4096, max_table_size = 4096 * 4, max_header_list_size = 0,
     min_huffman_rate = 90, min_dyntable_value_rate = 90\<rparr>"

record encoder =
  enc_config :: encoder_config
  enc_table :: encoder_table

definition encoder_new :: encoder where
  "encoder_new = \<lparr>enc_config = encoder_config_default,
     enc_table = indexed_dynamic_table_new (init_table_size encoder_config_default)\<rparr>"

definition set_config :: "encoder_config \<Rightarrow> encoder \<Rightarrow> encoder" where
  "set_config conf enc = enc\<lparr>enc_config := conf\<rparr>"

text \<open>\<open>100 * encoded_bytes_len\<close> is computed in 32 bits, the quotient in 64.\<close>

definition estimate_string_size :: "encoder_config \<Rightarrow> byte list \<Rightarrow> u32 \<times> string_flag" where
  "estimate_string_size config src =
     (let encoded_bit_len = estimate_len src;
          encoded_bytes_len = ucast (ceil_order2 (of_nat encoded_bit_len) 3 div 8) :: u32;
          src_len = length src
      in if unat encoded_bytes_len < src_len \<and>
            (src_len < 10 \<or> unat (100 * encoded_bytes_len) div src_len \<le> min_huffman_rate config)
         then (encoded_bytes_len, ENCODED)
         else (of_nat src_len, INPLACE))"

definition field_cmd :: "index_type \<Rightarrow> command" where
  "field_cmd type =
     (if type \<noteq> DEFAULT
      then if type = WITHOUT_INDEX then LITERAL_WITHOUT_INDEX else LITERAL_NEVER_INDEX
      else LITERAL_INCREMENTAL_INDEX)"

text \<open>What one field leads to: the state to go on with, or the end of the loop.\<close>

type_synonym field_state = "encoder \<times> encoder_stream \<times> nat"

definition encode_indexed :: "(nat \<Rightarrow> byte) \<Rightarrow> int \<Rightarrow> field_state \<Rightarrow> field_state option result" where
  "encode_indexed fill index = (\<lambda>(enc, out, bytes_left).
     bind_res (int_encode_cmd INDEX (of_int index)) (\<lambda>encoded_index.
       let field_size = length encoded_index
       in if field_size > bytes_left then Inr None
          else Inr (Some (enc, fst (es_push_back fill encoded_index out), bytes_left - field_size))))"

definition encode_indexed_name ::
  "(nat \<Rightarrow> byte) \<Rightarrow> int \<Rightarrow> header_field \<Rightarrow> field_state \<Rightarrow> field_state option result" where
  "encode_indexed_name fill index f = (\<lambda>(enc, out, bytes_left).
     let cmd = field_cmd (hf_type f)
     in bind_res (int_encode_cmd cmd (of_int index)) (\<lambda>name_index.
       let field_size1 = length name_index
       in if field_size1 > bytes_left then Inr None
       else
         let value_sz = estimate_string_size (enc_config enc) (hf_value f);
             field_size2 = field_size1 + unat (fst value_sz)
         in if field_size2 > bytes_left then Inr None
         else bind_res (int_encode_flag (snd value_sz) (fst value_sz)) (\<lambda>encoded_value_size.
           let field_size3 = field_size2 + length encoded_value_size
           in if field_size3 > bytes_left then Inr None
           else
             let out1 = fst (es_push_back fill name_index out);
                 out2 = write_string fill value_sz encoded_value_size (hf_value f) out1;
                 enc' = (if cmd = LITERAL_INCREMENTAL_INDEX
                         then enc\<lparr>enc_table := ht_insert it_insert (hf_name f) (hf_value f) (enc_table enc)\<rparr>
                         else enc)
             in Inr (Some (enc', out2, bytes_left - field_size3)))))"

text \<open>The byte of the command is not counted in \<open>field_size\<close>, and the table is not updated.\<close>

definition encode_new_name :: "(nat \<Rightarrow> byte) \<Rightarrow> header_field \<Rightarrow> field_state \<Rightarrow> field_state option result" where
  "encode_new_name fill f = (\<lambda>(enc, out, bytes_left).
     let cmd = field_cmd (hf_type f);
         name_sz = estimate_string_size (enc_config enc) (hf_name f);
         field_size1 = unat (fst name_sz)
     in if field_size1 > bytes_left then Inr None
     else bind_res (int_encode_flag (snd name_sz) (fst name_sz)) (\<lambda>encoded_name_size.
       let field_size2 = field_size1 + length encoded_name_size
       in if field_size2 > bytes_left then Inr None
       else
         let value_sz = estimate_string_size (enc_config enc) (hf_value f);
             field_size3 = field_size2 + unat (fst value_sz)
         in if field_size3 > bytes_left then Inr None
         else bind_res (int_encode_flag (snd value_sz) (fst value_sz)) (\<lambda>encoded_value_size.
           let field_size4 = field_size3 + length encoded_value_size
           in if field_size4 > bytes_left then Inr None
           else
             let out1 = fst (es_push_back fill [ci_value (cmd_info_get cmd)] out);
                 out2 = write_string fill name_sz encoded_name_size (hf_name f) out1;
                 out3 = write_string fill value_sz encoded_value_size (hf_value f) out2
             in Inr (Some (enc, out3, bytes_left - field_size4)))))"

definition encode_field ::
  "stray \<Rightarrow> (nat \<Rightarrow> byte) \<Rightarrow> header_field \<Rightarrow> field_state \<Rightarrow> field_state option result" where
  "encode_field stray fill f st =
     (let (i, has_value) = encoder_field_index stray (enc_table (fst st)) (hf_name f) (hf_value f);
          has_value' = (if hf_type f \<noteq> DEFAULT then False else has_value)
      in if i \<noteq> - 1 \<and> has_value' then encode_indexed fill i st
         else if i \<noteq> - 1 then encode_indexed_name fill i f st
         else encode_new_name fill f st)"

text \<open>The loop, with the number of fields encoded so far; after a throw the encoder keeps its table.\<close>

fun encode_loop :: "stray \<Rightarrow> (nat \<Rightarrow> byte) \<Rightarrow> header \<Rightarrow> field_state \<Rightarrow> nat \<Rightarrow> encoder \<times> (encoder_stream \<times> nat) result" where
  "encode_loop stray fill [] (enc, out, bytes_left) encoded_fields = (enc, Inr (out, encoded_fields))"
| "encode_loop stray fill (f # fs) (enc, out, bytes_left) encoded_fields =
     (case encode_field stray fill f (enc, out, bytes_left) of
        Inl e \<Rightarrow> (enc, Inl e)
      | Inr None \<Rightarrow> (enc, Inr (out, encoded_fields))
      | Inr (Some st') \<Rightarrow> encode_loop stray fill fs st' (encoded_fields + 1))"

definition hpack_encode ::
  "stray \<Rightarrow> (nat \<Rightarrow> byte) \<Rightarrow> encoder \<Rightarrow> header \<Rightarrow> nat \<Rightarrow> encoder \<times> (buffer list \<times> nat) result" where
  "hpack_encode stray fill enc hs size_limit =
     (case encode_loop stray fill hs (enc, encoder_stream_new size_limit, size_limit) 0 of
        (enc', Inl e) \<Rightarrow> (enc', Inl e)
      | (enc', Inr (out, encoded_fields)) \<Rightarrow> (enc', Inr (fst (es_flush out), encoded_fields)))"

section \<open>Sizes\<close>

lemma estimate_len_le: "estimate_len src \<le> 30 * length src"
proof -
  have "length (code_bits (unat b)) \<le> 30" for b :: byte
  proof -
    obtain c l where "huffman_encode (unat b) = (c, l)" by (cases "huffman_encode (unat b)")
    moreover have "unat b < 257" using unat_byte_less [of b] by simp
    ultimately show ?thesis using code_bits_huffman_encode(2,3) by metis
  qed
  then have "length (text_bits src) \<le> 30 * length src"
    by (induction src) (auto simp: add_mono)
  then show ?thesis by (simp add: estimate_len_text_bits)
qed

text \<open>The announced size is that of the coding, and never more than the string itself.\<close>

lemma estimate_string_size_cases:
  assumes "length src \<le> 10485759"
  shows "estimate_string_size conf src = (of_nat ((estimate_len src + 7) div 8), ENCODED) \<and>
      (estimate_len src + 7) div 8 < length src \<or>
    estimate_string_size conf src = (of_nat (length src), INPLACE)"
    and "unat (fst (estimate_string_size conf src)) \<le> length src"
proof -
  have est: "estimate_len src \<le> 314572770" using estimate_len_le [of src] assms by simp
  let ?n = "(estimate_len src + 7) div 8"
  have "unat (ceil_order2 (of_nat (estimate_len src)) 3 div 8) = ?n" using est by (intro unat_ceil_bytes) simp
  then have "ceil_order2 (of_nat (estimate_len src)) 3 div 8 = (of_nat ?n :: u64)"
    by (metis of_nat_unat ucast_id)
  then have n: "(ucast (ceil_order2 (of_nat (estimate_len src)) 3 div 8 :: u64) :: u32) = of_nat ?n"
    by (simp add: ucast_of_nat_u32)
  have u: "unat (of_nat ?n :: u32) = ?n" "unat (of_nat (length src) :: u32) = length src"
    using est assms by (simp_all add: unat_of_nat)
  show cases: "estimate_string_size conf src = (of_nat ?n, ENCODED) \<and> ?n < length src \<or>
      estimate_string_size conf src = (of_nat (length src), INPLACE)"
    unfolding estimate_string_size_def Let_def n u by simp
  then show "unat (fst (estimate_string_size conf src)) \<le> length src" using u by auto
qed

section \<open>What is written\<close>

definition stream_ok :: "encoder_stream \<Rightarrow> nat \<Rightarrow> bool" where
  "stream_ok out bytes_left \<longleftrightarrow> streambuf_ok (es_stream out) \<and> bytes_left \<le> es_left out"

abbreviation written :: "encoder_stream \<Rightarrow> byte list" where
  "written out \<equiv> contents (es_stream out)"

lemma es_push_back_written:
  assumes "stream_ok out n" "length src \<le> n"
  shows "stream_ok (fst (es_push_back fill src out)) (n - length src)"
    "written (fst (es_push_back fill src out)) = written out @ src"
  using assms by (auto simp: stream_ok_def es_push_back_def sbuf.put_ok sbuf.held_put)

lemma write_string_written:
  assumes "stream_ok out n" "length src \<le> 10485759" "readable 0 src"
    and "int_encode_flag (snd (estimate_string_size conf src)) (fst (estimate_string_size conf src)) = Inr sz"
  shows "stream_ok (write_string fill (estimate_string_size conf src) sz src out) n"
    "\<exists>bs. written (write_string fill (estimate_string_size conf src) sz src out) = written out @ bs \<and>
      string_coding src bs \<and> length bs = length sz + unat (fst (estimate_string_size conf src))"
proof -
  let ?w = "write_string fill (estimate_string_size conf src) sz src out"
  have s: "streambuf_ok (es_stream out)" using assms(1) by (simp add: stream_ok_def)
  note put = sbuf.put_ok [OF s, of fill sz] sbuf.held_put [OF s, of fill sz]
  have "stream_ok ?w n \<and> (\<exists>bs. written ?w = written out @ bs \<and> string_coding src bs \<and>
      length bs = length sz + unat (fst (estimate_string_size conf src)))"
    using estimate_string_size_cases(1) [OF assms(2), of conf]
  proof
    let ?n = "(estimate_len src + 7) div 8"
    assume est: "estimate_string_size conf src = (of_nat ?n, ENCODED) \<and> ?n < length src"
    obtain hb where hb: "contents (encode_string fill src (push_back fill sz (es_stream out))) = written out @ sz @ hb"
        "huffman_coding src hb" "streambuf_ok (encode_string fill src (push_back fill sz (es_stream out)))"
      using encode_string_coding [OF put(1), of fill src] put(2) by auto
    note len = huffman_coding_length [OF hb(2)]
    then have "string_coding src (sz @ hb)"
      unfolding string_coding_def using assms(2-4) est hb(2)
      by (intro exI [of _ ENCODED] exI [of _ sz] exI [of _ hb]) simp
    then show ?thesis using hb est assms(1,2) len
      by (auto simp: write_string_def stream_ok_def unat_of_nat)
  next
    assume est: "estimate_string_size conf src = (of_nat (length src), INPLACE)"
    then have "string_coding src (sz @ src)"
      unfolding string_coding_def using assms(2,4)
      by (intro exI [of _ INPLACE] exI [of _ sz] exI [of _ src]) simp
    then show ?thesis using put est assms(1,2)
      by (auto simp: write_string_def stream_ok_def unat_of_nat sbuf.put_ok sbuf.held_put)
  qed
  then show "stream_ok ?w n" "\<exists>bs. written ?w = written out @ bs \<and> string_coding src bs \<and>
      length bs = length sz + unat (fst (estimate_string_size conf src))" by blast+
qed

lemma int_encode_small: "n \<le> 16777200 \<Longrightarrow> \<exists>bs. int_encode init k (of_nat n) = Inr bs"
proof -
  assume "n \<le> 16777200"
  then have "(of_nat n :: u32) \<le> MAX_HPACK_INT" by (simp add: word_le_nat_alt unat_MAX_HPACK_INT unat_of_nat)
  then show ?thesis using int_encode_ok by blast
qed

lemma estimate_encodable:
  assumes "length src \<le> 10485759"
  shows "\<exists>sz. int_encode_flag (snd (estimate_string_size conf src)) (fst (estimate_string_size conf src)) = Inr sz"
proof -
  let ?e = "fst (estimate_string_size conf src)"
  have "unat ?e \<le> 16777200" using estimate_string_size_cases(2) [OF assms, of conf] assms by simp
  then obtain sz where "int_encode (string_flag_value (snd (estimate_string_size conf src))) 1 (of_nat (unat ?e)) = Inr sz"
    using int_encode_small by blast
  then show ?thesis by (auto simp: int_encode_flag_def)
qed

end
