(* ===== verification/Hpack_Decoder.thy ===== *)
theory Hpack_Decoder
  imports Hpack_String Hpack_Table Hpack_Header_Field
begin

text \<open>
  The HPACK decoder (\<open>lib/hpack/decoder.{h,cpp}\<close>): a table and one command per representation. A
  command takes the rest of the input and the fields decoded so far and returns both updated.
  An exception leaves the table as the commands before it left it. The lemmas show that the
  decoder ends, and what it does on the encoding of each command.
\<close>

definition DefaultTableSize :: nat where "DefaultTableSize = 4096"

definition decoder_new :: decoder_table where
  "decoder_new = dynamic_table_new DefaultTableSize"

definition decode_cmd :: "byte \<Rightarrow> command" where
  "decode_cmd b =
     (if b AND ci_value (cmd_info_get INDEX) \<noteq> 0 then INDEX
      else if b AND ci_mask (cmd_info_get LITERAL_INCREMENTAL_INDEX) = ci_value (cmd_info_get LITERAL_INCREMENTAL_INDEX)
      then LITERAL_INCREMENTAL_INDEX
      else if b AND ci_value (cmd_info_get CHANGE_TABLE_SIZE) = ci_value (cmd_info_get CHANGE_TABLE_SIZE)
      then CHANGE_TABLE_SIZE
      else if b AND ci_mask (cmd_info_get LITERAL_WITHOUT_INDEX) = ci_value (cmd_info_get LITERAL_WITHOUT_INDEX)
      then LITERAL_WITHOUT_INDEX
      else LITERAL_NEVER_INDEX)"

type_synonym cmd_result = "(decoder_table \<times> span \<times> header) result"

definition index_cmd :: "decoder_table \<Rightarrow> span \<Rightarrow> header \<Rightarrow> cmd_result" where
  "index_cmd table src h =
     bind_res (int_decode (ci_bitlen (cmd_info_get INDEX)) (span_bytes src)) (\<lambda>(used_bytes, index).
       if index = 0 then Inl runtime_error
       else bind_res (decoder_at table (unat index)) (\<lambda>(name, val).
         bind_res (header_field_new name val DEFAULT) (\<lambda>f.
           Inr (table, subspan used_bytes src, h @ [f]))))"

definition change_table_size_cmd :: "decoder_table \<Rightarrow> span \<Rightarrow> header \<Rightarrow> cmd_result" where
  "change_table_size_cmd table src h =
     bind_res (int_decode (ci_bitlen (cmd_info_get CHANGE_TABLE_SIZE)) (span_bytes src)) (\<lambda>(used_bytes, max_size).
       Inr (ht_update_size dt_update_size (unat max_size) table, subspan used_bytes src, h))"

definition literal_without_index_impl ::
  "decoder_table \<Rightarrow> span \<Rightarrow> header \<Rightarrow> index_type \<Rightarrow> nat \<Rightarrow> (span \<times> header) result" where
  "literal_without_index_impl table src h type bits =
     bind_res (int_decode bits (span_bytes src)) (\<lambda>(used_bytes, index).
       let src1 = subspan used_bytes src
       in bind_res
         (if index = 0
          then bind_res (string_decode src1) (\<lambda>(used_bytes, name). Inr (subspan used_bytes src1, name))
          else bind_res (decoder_at table (unat index)) (\<lambda>(name_view, value_view). Inr (src1, name_view)))
         (\<lambda>(src2, name).
           bind_res (string_decode src2) (\<lambda>(used_bytes, val).
             bind_res (header_field_new name val type) (\<lambda>f.
               Inr (subspan used_bytes src2, h @ [f])))))"

definition literal_without_index_cmd :: "decoder_table \<Rightarrow> span \<Rightarrow> header \<Rightarrow> cmd_result" where
  "literal_without_index_cmd table src h =
     bind_res (literal_without_index_impl table src h WITHOUT_INDEX (ci_bitlen (cmd_info_get LITERAL_WITHOUT_INDEX)))
       (\<lambda>(res, h'). Inr (table, res, h'))"

definition literal_never_index_cmd :: "decoder_table \<Rightarrow> span \<Rightarrow> header \<Rightarrow> cmd_result" where
  "literal_never_index_cmd table src h =
     bind_res (literal_without_index_impl table src h NEVER_INDEX (ci_bitlen (cmd_info_get LITERAL_NEVER_INDEX)))
       (\<lambda>(res, h'). Inr (table, res, h'))"

definition literal_incremental_index_cmd :: "decoder_table \<Rightarrow> span \<Rightarrow> header \<Rightarrow> cmd_result" where
  "literal_incremental_index_cmd table src h =
     bind_res (literal_without_index_impl table src h DEFAULT (ci_bitlen (cmd_info_get LITERAL_INCREMENTAL_INDEX)))
       (\<lambda>(res, h'). Inr (ht_insert dt_insert (hf_name (last h')) (hf_value (last h')) table, res, h'))"

text \<open>The table of member functions in \<open>decode\<close>, indexed by the command.\<close>

fun run_command :: "command \<Rightarrow> decoder_table \<Rightarrow> span \<Rightarrow> header \<Rightarrow> cmd_result" where
  "run_command INDEX = index_cmd"
| "run_command LITERAL_INCREMENTAL_INDEX = literal_incremental_index_cmd"
| "run_command CHANGE_TABLE_SIZE = change_table_size_cmd"
| "run_command LITERAL_WITHOUT_INDEX = literal_without_index_cmd"
| "run_command LITERAL_NEVER_INDEX = literal_never_index_cmd"

section \<open>Every command uses input\<close>

lemma literal_uses_input:
  assumes "literal_without_index_impl table src h type bits = Inr (src', h')"
  shows "sp_len src' < sp_len src" "\<exists>f. h' = h @ [f] \<and> field_ok f"
proof -
  obtain n i where i: "int_decode bits (span_bytes src) = Inr (n, i)"
    using assms by (auto simp: literal_without_index_impl_def bind_res_Inr_iff)
  note n = int_decode_used [OF i]
  obtain src2 nm where src2: "(if i = 0
      then bind_res (string_decode (subspan n src)) (\<lambda>(used_bytes, name). Inr (subspan used_bytes (subspan n src), name))
      else bind_res (decoder_at table (unat i)) (\<lambda>(name_view, value_view). Inr (subspan n src, name_view))) = Inr (src2, nm)"
      and rest: "bind_res (string_decode src2) (\<lambda>(used_bytes, val).
        bind_res (header_field_new nm val type) (\<lambda>f. Inr (subspan used_bytes src2, h @ [f]))) = Inr (src', h')"
    using assms i by (auto simp: literal_without_index_impl_def Let_def bind_res_Inr_iff)
  have "sp_len src2 \<le> sp_len src - n"
    using src2 by (auto simp: bind_res_Inr_iff split: if_splits)
  moreover obtain m v f where v: "string_decode src2 = Inr (m, v)" "header_field_new nm v type = Inr f"
      "src' = subspan m src2" "h' = h @ [f]"
    using rest by (auto simp: bind_res_Inr_iff)
  moreover note string_decode_used [OF v(1)]
  ultimately show "sp_len src' < sp_len src" using n by simp
  show "\<exists>f. h' = h @ [f] \<and> field_ok f" using v(2,4) header_field_new_field_ok by blast
qed

lemma int_decode_shrinks: "int_decode k (span_bytes src) = Inr (n, v) \<Longrightarrow> sp_len src - n < sp_len src"
  using int_decode_used(1,2) [of k "span_bytes src" n v] by simp

lemma run_command_uses_input:
  assumes "run_command cmd table src h = Inr (table', src', h')"
  shows "sp_len src' < sp_len src"
proof (cases cmd)
  case INDEX
  then show ?thesis
    using assms by (auto simp: index_cmd_def bind_res_Inr_iff split: if_splits dest: int_decode_shrinks)
next
  case CHANGE_TABLE_SIZE
  then show ?thesis
    using assms by (auto simp: change_table_size_cmd_def bind_res_Inr_iff dest: int_decode_shrinks)
qed (use assms in \<open>auto simp: literal_incremental_index_cmd_def literal_without_index_cmd_def literal_never_index_cmd_def
    bind_res_Inr_iff dest: literal_uses_input(1)\<close>)

section \<open>decode\<close>

function decode_loop :: "decoder_table \<Rightarrow> span \<Rightarrow> header \<Rightarrow> decoder_table \<times> header result" where
  "decode_loop table src h =
     (if sp_len src = 0 then (table, Inr h)
      else case run_command (decode_cmd (hd (span_bytes src))) table src h of
        Inl e \<Rightarrow> (table, Inl e)
      | Inr (table', src', h') \<Rightarrow> decode_loop table' src' h')"
  by pat_completeness auto
termination
  by (relation "measure (\<lambda>(table, src, h). sp_len src)") (auto dest: run_command_uses_input)

definition hpack_decode :: "decoder_table \<Rightarrow> span \<Rightarrow> decoder_table \<times> header result" where
  "hpack_decode table src = decode_loop table src []"

declare decode_loop.simps [simp del]

section \<open>Commands and their encodings\<close>

lemma decode_cmd_value: "b AND ci_mask (cmd_info_get cmd) = ci_value (cmd_info_get cmd) \<Longrightarrow> decode_cmd b = cmd"
proof -
  assume b: "b AND ci_mask (cmd_info_get cmd) = ci_value (cmd_info_get cmd)"
  have part: "b AND k = ci_value (cmd_info_get cmd) AND k" if "ci_mask (cmd_info_get cmd) AND k = k" for k
  proof -
    have "b AND k = b AND (ci_mask (cmd_info_get cmd) AND k)" using that by simp
    then show ?thesis by (simp only: and.assoc [symmetric] b)
  qed
  show ?thesis
    using b part [of "0x80"] part [of "0xc0"] part [of "0x20"] part [of "0xf0"]
    by (cases cmd) (simp_all add: decode_cmd_def)
qed

lemma decode_cmd_encode:
  assumes "int_encode_cmd cmd v = Inr bs"
  shows "decode_cmd (hd bs) = cmd"
proof (rule decode_cmd_value)
  obtain p where p: "hd bs = ci_value (cmd_info_get cmd) OR p AND make_mask (8 - ci_bitlen (cmd_info_get cmd))"
    using int_encode_first assms unfolding int_encode_cmd_def by blast
  have "make_mask (8 - ci_bitlen (cmd_info_get cmd)) AND ci_mask (cmd_info_get cmd) = 0"
    by (cases cmd) (simp_all add: make_mask_eq_mask mask_eq_exp_minus_1)
  moreover have "ci_value (cmd_info_get cmd) AND ci_mask (cmd_info_get cmd) = ci_value (cmd_info_get cmd)"
    by (cases cmd) simp_all
  ultimately show "hd bs AND ci_mask (cmd_info_get cmd) = ci_value (cmd_info_get cmd)"
    unfolding p by (simp add: bit.conj_disj_distrib2 and.assoc)
qed

lemma subspan_subspan [simp]: "subspan m (subspan n s) = subspan (n + m) s"
  by (simp add: subspan_def algebra_simps)

text \<open>One round of the loop on input that starts with an encoded command.\<close>

lemma decode_loop_command:
  assumes "int_encode_cmd cmd v = Inr bs" "span_bytes src = bs @ rest"
  shows "decode_loop table src h =
    (case run_command cmd table src h of Inl e \<Rightarrow> (table, Inl e) | Inr (table', src', h') \<Rightarrow> decode_loop table' src' h')"
proof -
  have bs: "bs \<noteq> []" using assms(1) int_encode_nonempty by (auto simp: int_encode_cmd_def)
  then have "span_bytes src \<noteq> []" "hd (span_bytes src) = hd bs" using assms(2) by simp_all
  then show ?thesis using decode_cmd_encode [OF assms(1)] by (subst decode_loop.simps) simp
qed

lemma decode_loop_index:
  assumes "int_encode_cmd INDEX (of_nat i) = Inr bs" "span_bytes src = bs @ rest" "0 < i" "i < 2 ^ 32"
    and "decoder_at table i = Inr (n, v)" "header_field_new n v DEFAULT = Inr f"
  shows "decode_loop table src h = decode_loop table (subspan (length bs) src) (h @ [f])"
proof -
  have i: "unat (of_nat i :: u32) = i" using assms(4) by (simp add: unat_of_nat)
  then have "(of_nat i :: u32) \<noteq> 0" using assms(3) by (metis unat_0 less_irrefl)
  then have "run_command INDEX table src h = Inr (table, subspan (length bs) src, h @ [f])"
    using cmd_codec.dec_encodes [OF assms(1,2)] assms(5,6) i by (simp add: index_cmd_def)
  then show ?thesis using decode_loop_command [OF assms(1,2)] by simp
qed

lemma literal_impl_indexed:
  assumes "int_encode_cmd cmd (of_nat i) = Inr ib" "string_coding v vb" "span_bytes src = ib @ vb @ rest"
    and "0 < i" "i < 2 ^ 32" "decoder_at table i = Inr e" "header_field_new (fst e) v type = Inr f"
  shows "literal_without_index_impl table src h type (ci_bitlen (cmd_info_get cmd)) =
    Inr (subspan (length (ib @ vb)) src, h @ [f])"
proof -
  have i: "unat (of_nat i :: u32) = i" using assms(5) by (simp add: unat_of_nat)
  then have "(of_nat i :: u32) \<noteq> 0" using assms(4) by (metis unat_0 less_irrefl)
  moreover have "string_decode (subspan (length ib) src) = Inr (length vb, v)"
    using assms(3) by (intro string_codec.dec_encodes [OF assms(2), where rest = rest]) simp
  ultimately show ?thesis
    using cmd_codec.dec_encodes [OF assms(1,3)] assms(6,7) i
    by (cases e) (simp add: literal_without_index_impl_def Let_def)
qed

lemma literal_impl_named:
  assumes "int_encode_cmd cmd 0 = Inr ib" "string_coding n nb" "string_coding v vb" "span_bytes src = ib @ nb @ vb @ rest"
    and "header_field_new n v type = Inr f"
  shows "literal_without_index_impl table src h type (ci_bitlen (cmd_info_get cmd)) =
    Inr (subspan (length (ib @ nb @ vb)) src, h @ [f])"
proof -
  have "string_decode (subspan (length ib) src) = Inr (length nb, n)"
    using assms(4) by (intro string_codec.dec_encodes [OF assms(2), where rest = "vb @ rest"]) simp
  moreover have "string_decode (subspan (length ib + length nb) src) = Inr (length vb, v)"
    using assms(4) by (intro string_codec.dec_encodes [OF assms(3), where rest = rest]) simp
  ultimately show ?thesis
    using cmd_codec.dec_encodes [OF assms(1,4)] assms(5)
    by (simp add: literal_without_index_impl_def Let_def add.assoc)
qed

section \<open>The invariant of the decoder\<close>

lemma evict_le: "total_size (evict rq es) \<le> total_size es"
proof -
  obtain k where "evict rq es = take k es" using evict_prefix by blast
  then show ?thesis using total_take_drop [of k es] by simp
qed

lemma dt_insert_ok:
  assumes "table_ok t" "dt_hpack_max_size t < 2 ^ 64" "entry_size (n, v) + dt_table_size t < 2 ^ 64"
  shows "table_ok (dt_insert n v t)" "dt_hpack_max_size (dt_insert n v t) = dt_hpack_max_size t"
    "dt_table_size (dt_insert n v t) \<le> entry_size (n, v) + dt_table_size t"
proof -
  let ?r = "\<lparr>tr_name = n, tr_value = v, tr_init_index = 0\<rparr>"
  define rq where "rq = (if tr_hpack_size ?r + dt_table_size t > dt_hpack_max_size t
      then unat (of_nat (dt_hpack_max_size t) - of_nat (tr_hpack_size ?r) :: u64) else tr_hpack_size ?r + dt_table_size t)"
  obtain k t1 where shrink: "shrink_to rq t = (k, t1)" by (cases "shrink_to rq t")
  have ins: "dt_insert n v t = insert_impl ?r (erase_back k t1)"
    unfolding dt_insert_def Let_def rq_def [symmetric] shrink by simp
  have r: "tr_hpack_size ?r = entry_size (n, v)" "tr_key ?r = (n, v)"
    by (simp_all add: tr_hpack_size_def entry_size_def tr_key_def)
  have "rq < 2 ^ 64" "dt_table_size t < 2 ^ 64"
    using assms(3) r(1) unat_u64_less [of "of_nat (dt_hpack_max_size t) - of_nat (tr_hpack_size ?r)"]
    by (auto simp: rq_def)
  note e = shrink_erase [OF assms(1) this(2,1) shrink]
  show ok: "table_ok (dt_insert n v t)" using ins e(1) by (simp add: insert_impl_ok)
  show "dt_hpack_max_size (dt_insert n v t) = dt_hpack_max_size t" using ins e(3) by simp
  have "entries (dt_insert n v t) = (n, v) # evict rq (entries t)" using ins e(2) r(2) by simp
  then show "dt_table_size (dt_insert n v t) \<le> entry_size (n, v) + dt_table_size t"
    using ok assms(1) evict_le [of rq "entries t"] by (simp add: table_ok_def)
qed

lemma dt_update_size_ok:
  assumes "table_ok t" "new_size < 2 ^ 64" "dt_table_size t < 2 ^ 64"
  shows "table_ok (dt_update_size new_size t)" "dt_hpack_max_size (dt_update_size new_size t) = new_size"
    "dt_table_size (dt_update_size new_size t) \<le> dt_table_size t"
proof -
  obtain k t1 where shrink: "shrink_to new_size t = (k, t1)" by (cases "shrink_to new_size t")
  note e = shrink_erase [OF assms(1,3,2) shrink]
  have upd: "dt_update_size new_size t = (erase_back k t1)\<lparr>dt_hpack_max_size := new_size\<rparr>"
    by (simp add: dt_update_size_def shrink)
  show ok: "table_ok (dt_update_size new_size t)" using e(1) by (simp add: upd table_ok_def entries_def)
  show "dt_hpack_max_size (dt_update_size new_size t) = new_size" by (simp add: upd)
  have "entries (dt_update_size new_size t) = evict new_size (entries t)" using e(2) by (simp add: upd entries_def)
  then show "dt_table_size (dt_update_size new_size t) \<le> dt_table_size t"
    using ok assms(1) evict_le [of new_size "entries t"] by (simp add: table_ok_def)
qed

definition decoder_ok :: "decoder_table \<Rightarrow> nat \<Rightarrow> bool" where
  "decoder_ok t n \<longleftrightarrow> table_ok t \<and> dt_hpack_max_size t < 2 ^ 64 \<and> dt_table_size t + 2 ^ 24 * n < 2 ^ 64"

lemma decoder_ok_mono: "decoder_ok t n \<Longrightarrow> m \<le> n \<Longrightarrow> decoder_ok t m"
  by (auto simp: decoder_ok_def intro: le_less_trans)

lemma run_command_ok:
  assumes "run_command cmd table src h = Inr (table', src', h')" "decoder_ok table (sp_len src)"
  shows "decoder_ok table' (sp_len src')" "\<forall>f\<in>set h. field_ok f \<Longrightarrow> \<forall>f\<in>set h'. field_ok f"
    "length h' + sp_len src' \<le> length h + sp_len src"
proof -
  have less: "sp_len src' < sp_len src" by (rule run_command_uses_input [OF assms(1)])
  have keep: "decoder_ok table (sp_len src')" using assms(2) less by (auto intro: decoder_ok_mono)
  have "decoder_ok table' (sp_len src') \<and> ((\<forall>f\<in>set h. field_ok f) \<longrightarrow> (\<forall>f\<in>set h'. field_ok f)) \<and> length h' \<le> length h + 1"
  proof (cases cmd)
    case INDEX
    then show ?thesis
      using assms(1) keep header_field_new_field_ok by (auto simp: index_cmd_def bind_res_Inr_iff split: if_splits)
  next
    case CHANGE_TABLE_SIZE
    then obtain n v where *: "table' = dt_update_size (unat (v :: u32)) table" "h' = h"
      using assms(1) by (auto simp: change_table_size_cmd_def bind_res_Inr_iff ht_update_size_def)
    have "unat v < 2 ^ 64" using unat_u32_less [of v] by simp
    then show ?thesis
      using dt_update_size_ok [of table "unat v"] keep * by (auto simp: decoder_ok_def)
  next
    case LITERAL_INCREMENTAL_INDEX
    then obtain src1 f where *: "table' = dt_insert (hf_name f) (hf_value f) table" "h' = h @ [f]" "field_ok f"
      using assms(1) by (auto simp: literal_incremental_index_cmd_def bind_res_Inr_iff ht_insert_def dest!: literal_uses_input(2))
    have "entry_size (hf_name f, hf_value f) \<le> 2 ^ 24" using field_ok_bound [OF *(3)] by (simp add: entry_size_def)
    then have "entry_size (hf_name f, hf_value f) + dt_table_size table + 2 ^ 24 * sp_len src' < 2 ^ 64"
      using assms(2) less by (auto simp: decoder_ok_def)
    then show ?thesis
      using dt_insert_ok [of table "hf_name f" "hf_value f"] keep * by (auto simp: decoder_ok_def)
  qed (use assms(1) keep in \<open>auto simp: literal_without_index_cmd_def literal_never_index_cmd_def
      bind_res_Inr_iff dest!: literal_uses_input(2)\<close>)
  then show "decoder_ok table' (sp_len src')" "\<forall>f\<in>set h. field_ok f \<Longrightarrow> \<forall>f\<in>set h'. field_ok f"
    "length h' + sp_len src' \<le> length h + sp_len src"
    using less by auto
qed

lemma decode_loop_ok:
  assumes "decode_loop table src h = (table', res)" "decoder_ok table (sp_len src)" "\<forall>f\<in>set h. field_ok f"
  shows "decoder_ok table' 0 \<and> (\<forall>h'. res = Inr h' \<longrightarrow> (\<forall>f\<in>set h'. field_ok f) \<and> length h' \<le> length h + sp_len src)"
  using assms
proof (induction table src h rule: decode_loop.induct)
  case (1 table src h)
  note p = "1.prems"
  show ?case
  proof (cases "sp_len src = 0")
    case True
    then show ?thesis using p by (auto simp: decode_loop.simps [of table src])
  next
    case False
    note more = False
    show ?thesis
    proof (cases "run_command (decode_cmd (hd (span_bytes src))) table src h")
      case (Inl e)
      then show ?thesis using p more decoder_ok_mono [of table "sp_len src" 0] by (auto simp: decode_loop.simps [of table src])
    next
      case (Inr r)
      obtain t1 s1 h1 where r: "r = (t1, s1, h1)" by (cases r)
      note ok = run_command_ok [OF Inr [unfolded r] p(2)]
      have "decode_loop t1 s1 h1 = (table', res)" using p(1) Inr r more by (simp add: decode_loop.simps [of table src])
      then show ?thesis using "1.IH" [OF more Inr r [symmetric] refl] ok p(3) by fastforce
    qed
  qed
qed

section \<open>Properties\<close>

text \<open>
  C10: Whatever bytes arrive, \<open>decoder::decode\<close> keeps its table consistent, also when it throws: the
  stored size is the sum of the sizes of the entries and the indices are consecutive. The
  fields it returns are at most as many as the bytes it was given, and each respects the
  size limit of \<open>header_field\<close>.
\<close>

theorem decoder_invariant:
  assumes "table_ok table" "dt_hpack_max_size table < 2 ^ 64" "dt_table_size table + 2 ^ 24 * sp_len src < 2 ^ 64"
    and "hpack_decode table src = (table', res)"
  shows "table_ok table' \<and> (\<forall>h. res = Inr h \<longrightarrow> length h \<le> sp_len src \<and> (\<forall>f\<in>set h. field_ok f))"
  using decode_loop_ok [of table src "[]" table' res] assms by (auto simp: hpack_decode_def decoder_ok_def)

theorem decoder_invariant_witness:
  "table_ok (fst (hpack_decode decoder_new (span_of (\<lambda>_. 0) [0x3f])))"
  using decoder_invariant [of decoder_new "span_of (\<lambda>_. 0) [0x3f]"
      "fst (hpack_decode decoder_new (span_of (\<lambda>_. 0) [0x3f]))" "snd (hpack_decode decoder_new (span_of (\<lambda>_. 0) [0x3f]))"]
  by (simp add: decoder_new_def DefaultTableSize_def dynamic_table_new_def table_ok_def entries_def indices_ok_def)

end
