(* ===== verification/Hpack_Coding.thy ===== *)
theory Hpack_Coding
  imports Hpack_Encoder Hpack_Decoder
begin

text \<open>
  Encoder and decoder together. \<open>header_coding\<close> says which bytes are an encoding of a list of fields, for
  a table with a given bound and given entries, and what the entries are afterwards. The
  decoder reads every such encoding; the encoder writes such encodings as long as every field
  it indexes has a static name, and both then keep equal tables.
\<close>

section \<open>The encodings of a list of fields\<close>

type_synonym table_state = "nat \<times> static_field list"

definition name_coding :: "static_field list \<Rightarrow> command \<Rightarrow> byte list \<Rightarrow> byte list \<Rightarrow> bool" where
  "name_coding es cmd n nb \<longleftrightarrow>
     (\<exists>i. 0 < i \<and> i \<le> length (index_space es) \<and> i < 2 ^ 32 \<and> fst (index_space es ! (i - 1)) = n \<and>
       int_encode_cmd cmd (of_nat i) = Inr nb) \<or>
     (\<exists>ib sb. int_encode_cmd cmd 0 = Inr ib \<and> string_coding n sb \<and> nb = ib @ sb)"

definition after_literal :: "header_field \<Rightarrow> table_state \<Rightarrow> table_state" where
  "after_literal f st = (if hf_type f = DEFAULT then ref_insert (hf_name f) (hf_value f) st else st)"

inductive header_coding :: "table_state \<Rightarrow> header \<Rightarrow> byte list \<Rightarrow> table_state \<Rightarrow> bool" where
  nil: "header_coding st [] [] st"
| index: "header_coding st (f # hs) (ib @ bs) st'"
    if "0 < i" "i \<le> length (index_space (snd st))" "i < 2 ^ 32"
    and "index_space (snd st) ! (i - 1) = (hf_name f, hf_value f)" "hf_type f = DEFAULT" "field_ok f"
    and "int_encode_cmd INDEX (of_nat i) = Inr ib" "header_coding st hs bs st'"
| literal: "header_coding st (f # hs) (nb @ vb @ bs) st'"
    if "name_coding (snd st) (field_cmd (hf_type f)) (hf_name f) nb" "string_coding (hf_value f) vb" "field_ok f"
    and "hf_type f = DEFAULT \<longrightarrow> entry_size (hf_name f, hf_value f) \<le> fst st"
    and "header_coding (after_literal f st) hs bs st'"
| resize: "header_coding st hs (ib @ bs) st'"
    if "int_encode_cmd CHANGE_TABLE_SIZE s = Inr ib" "header_coding (ref_resize (unat s) st) hs bs st'"

section \<open>The decoder reads them\<close>

definition decoder_sim :: "decoder_table \<Rightarrow> table_state \<Rightarrow> bool" where
  "decoder_sim t st \<longleftrightarrow> table_bounded t \<and> dt_hpack_max_size t = fst st \<and> entries t = snd st"

lemma decoder_sim_at:
  "decoder_sim t st \<Longrightarrow> 0 < i \<Longrightarrow> i \<le> length (index_space (snd st)) \<Longrightarrow> decoder_at t i = Inr (index_space (snd st) ! (i - 1))"
  using dyn.ht_at_index_space [of t i] by (auto simp: decoder_sim_def)

lemma decoder_sim_insert:
  "decoder_sim t st \<Longrightarrow> entry_size (n, v) \<le> fst st \<Longrightarrow> decoder_sim (dt_insert n v t) (ref_insert n v st)"
  using dt_insert_entries [of t n v] by (cases st) (auto simp: decoder_sim_def ref_insert_def)

lemma decoder_sim_resize:
  "decoder_sim t st \<Longrightarrow> s < 2 ^ 64 \<Longrightarrow> decoder_sim (dt_update_size s t) (ref_resize s st)"
  using dt_update_size_entries [of t s] by (cases st) (auto simp: decoder_sim_def ref_resize_def)

lemma field_eta: "field_ok f \<Longrightarrow> header_field_new (hf_name f) (hf_value f) (hf_type f) = Inr f"
  by (simp add: field_ok_def)

lemma literal_impl_coding:
  assumes "name_coding (snd st) cmd (hf_name f) nb" "string_coding (hf_value f) vb" "field_ok f" "decoder_sim t st"
    and "span_bytes src = nb @ vb @ rest"
  shows "literal_without_index_impl t src h (hf_type f) (ci_bitlen (cmd_info_get cmd)) =
    Inr (subspan (length (nb @ vb)) src, h @ [f])"
  using assms(1) unfolding name_coding_def
proof (elim disjE exE conjE)
  fix i assume "0 < i" "i \<le> length (index_space (snd st))" "i < 2 ^ 32" "fst (index_space (snd st) ! (i - 1)) = hf_name f"
    "int_encode_cmd cmd (of_nat i) = Inr nb"
  then show ?thesis
    using literal_impl_indexed [OF _ assms(2,5) _ _ decoder_sim_at [OF assms(4)]] field_eta [OF assms(3)] by simp
next
  fix ib sb assume "int_encode_cmd cmd 0 = Inr ib" "string_coding (hf_name f) sb" "nb = ib @ sb"
  then show ?thesis
    using literal_impl_named [OF _ _ assms(2) _ field_eta [OF assms(3)], of cmd ib sb src rest t h] assms(5) by simp
qed

lemma run_literal:
  assumes "name_coding (snd st) (field_cmd (hf_type f)) (hf_name f) nb" "string_coding (hf_value f) vb" "field_ok f"
    and "hf_type f = DEFAULT \<longrightarrow> entry_size (hf_name f, hf_value f) \<le> fst st" "decoder_sim t st"
    and "span_bytes src = nb @ vb @ rest"
  shows "\<exists>t'. run_command (field_cmd (hf_type f)) t src h = Inr (t', subspan (length (nb @ vb)) src, h @ [f]) \<and>
    decoder_sim t' (after_literal f st)"
proof -
  note impl = literal_impl_coding [OF assms(1-3,5,6), of h]
  show ?thesis
    using impl assms(4,5) decoder_sim_insert [of t st "hf_name f" "hf_value f"]
    by (cases "hf_type f")
      (auto simp: field_cmd_def after_literal_def literal_incremental_index_cmd_def literal_without_index_cmd_def
        literal_never_index_cmd_def ht_insert_def)
qed

lemma name_coding_first:
  assumes "name_coding es cmd n nb"
  shows "\<exists>v ib rest. int_encode_cmd cmd v = Inr ib \<and> nb = ib @ rest"
  using assms unfolding name_coding_def by (metis append_Nil2)

lemma decode_loop_coding:
  assumes "header_coding st hs bs st'" "decoder_sim t st" "span_bytes src = bs @ rest"
  shows "\<exists>t'. decode_loop t src h = decode_loop t' (subspan (length bs) src) (h @ hs) \<and> decoder_sim t' st'"
  using assms
proof (induction arbitrary: t src h rule: header_coding.induct)
  case (nil st)
  moreover have "subspan 0 src = src" by (simp add: subspan_def)
  ultimately show ?case by auto
next
  case (index i st f ib hs bs st')
  then have "decode_loop t src h = decode_loop t (subspan (length ib) src) (h @ [f])"
    using decode_loop_index [of i ib src "bs @ rest" t "hf_name f" "hf_value f" f h] field_eta [of f]
      decoder_sim_at [of t st i] by simp
  moreover have "span_bytes (subspan (length ib) src) = bs @ rest" using index.prems(2) by simp
  ultimately show ?case using index.IH [OF index.prems(1), of "subspan (length ib) src" "h @ [f]"] by simp
next
  case (literal st f nb vb hs bs st')
  have src: "span_bytes src = nb @ vb @ (bs @ rest)" using literal.prems(2) by simp
  obtain t1 where t1: "run_command (field_cmd (hf_type f)) t src h = Inr (t1, subspan (length (nb @ vb)) src, h @ [f])"
      "decoder_sim t1 (after_literal f st)"
    using run_literal [OF literal.hyps(1-4) literal.prems(1) src] by blast
  obtain v ib r where "int_encode_cmd (field_cmd (hf_type f)) v = Inr ib" "nb = ib @ r"
    using name_coding_first [OF literal.hyps(1)] by blast
  then have "decode_loop t src h = decode_loop t1 (subspan (length (nb @ vb)) src) (h @ [f])"
    using decode_loop_command [of "field_cmd (hf_type f)" v ib src "r @ vb @ bs @ rest" t h] src t1(1) by simp
  moreover have "span_bytes (subspan (length (nb @ vb)) src) = bs @ rest" using src by simp
  ultimately show ?case
    using literal.IH [OF t1(2), of "subspan (length (nb @ vb)) src" "h @ [f]"] by (simp add: add.assoc)
next
  case (resize s ib st hs bs st')
  have "unat s < 2 ^ 64" using unat_u32_less [of s] by simp
  then have sim: "decoder_sim (dt_update_size (unat s) t) (ref_resize (unat s) st)"
    by (rule decoder_sim_resize [OF resize.prems(1)])
  have src: "span_bytes src = ib @ bs @ rest" using resize.prems(2) by simp
  have "run_command CHANGE_TABLE_SIZE t src h = Inr (dt_update_size (unat s) t, subspan (length ib) src, h)"
    using cmd_codec.dec_encodes [OF resize.hyps(1) src] by (simp add: change_table_size_cmd_def ht_update_size_def)
  then have "decode_loop t src h = decode_loop (dt_update_size (unat s) t) (subspan (length ib) src) h"
    using decode_loop_command [OF resize.hyps(1) src] by simp
  moreover have "span_bytes (subspan (length ib) src) = bs @ rest" using src by simp
  ultimately show ?case using resize.IH [OF sim, of "subspan (length ib) src" h] by simp
qed

lemma hpack_decode_coding:
  assumes "header_coding st hs bs st'" "decoder_sim t st" "span_bytes src = bs"
  shows "\<exists>t'. hpack_decode t src = (t', Inr hs) \<and> decoder_sim t' st'"
proof -
  obtain t' where t': "decode_loop t src [] = decode_loop t' (subspan (length bs) src) hs" "decoder_sim t' st'"
    using decode_loop_coding [OF assms(1,2), of src "[]" "[]"] assms(3) by auto
  have "sp_len (subspan (length bs) src) = 0" using assms(3) by (simp flip: assms(3))
  then show ?thesis using t' by (auto simp: hpack_decode_def decode_loop.simps [of t'])
qed

section \<open>The encoder writes them\<close>

definition encoder_ok :: "encoder \<Rightarrow> bool" where
  "encoder_ok enc \<longleftrightarrow> indexed_ok (enc_table enc) \<and> dt_hpack_max_size (enc_table enc) \<le> 2 ^ 23 \<and>
     (\<forall>e\<in>set (entries (enc_table enc)). static_name (fst e))"

abbreviation encoder_state :: "encoder \<Rightarrow> table_state" where
  "encoder_state enc \<equiv> (dt_hpack_max_size (enc_table enc), entries (enc_table enc))"

text \<open>
  The fields the encoder handles as intended: their strings can be read back, and those to be
  indexed have a static name and fit the table.
\<close>

definition encodable :: "nat \<Rightarrow> header_field \<Rightarrow> bool" where
  "encodable m f \<longleftrightarrow> field_ok f \<and> readable 0 (hf_name f) \<and> readable 0 (hf_value f) \<and>
     (hf_type f = DEFAULT \<longrightarrow> static_name (hf_name f) \<and> entry_size (hf_name f, hf_value f) \<le> m)"

text \<open>One field written: the loop goes on with a state from which the rest extends the encoding.\<close>

definition field_written :: "header_field \<Rightarrow> field_state \<Rightarrow> field_state \<Rightarrow> bool" where
  "field_written f = (\<lambda>(enc, out, n) (enc', out', n').
     encoder_ok enc' \<and> stream_ok out' n' \<and> dt_hpack_max_size (enc_table enc') = dt_hpack_max_size (enc_table enc) \<and>
     n \<le> n' + hf_hpack_size f \<and>
     (\<exists>bs. written out' = written out @ bs \<and> length bs + n' \<le> n + 1 \<and>
       (\<forall>hs rest st'. header_coding (encoder_state enc') hs rest st' \<longrightarrow>
         header_coding (encoder_state enc) (f # hs) (bs @ rest) st')))"

lemma index_space_bound:
  assumes "encoder_ok enc" "i \<le> length (index_space (entries (enc_table enc)))"
  shows "i \<le> 16777200" "i < 2 ^ 32"
proof -
  have b: "table_bounded (enc_table enc)" "dt_hpack_max_size (enc_table enc) \<le> 2 ^ 23"
    using assms(1) by (simp_all add: encoder_ok_def indexed_ok_def)
  then have "32 * length (dt_table (enc_table enc)) \<le> 2 ^ 23" using length_bounded [OF b(1)] by linarith
  moreover have "i \<le> 61 + length (dt_table (enc_table enc))" using assms(2) by (simp add: index_space_def entries_def)
  ultimately show "i \<le> 16777200" "i < 2 ^ 32" by simp_all
qed

lemma field_sizes: "field_ok f \<Longrightarrow> length (hf_name f) \<le> 10485759 \<and> length (hf_value f) \<le> 10485759"
  using field_ok_bound [of f] by simp

lemma encode_indexed_written:
  assumes ok: "encoder_ok enc" "stream_ok out n" "field_ok f" "hf_type f = DEFAULT"
    and i: "1 \<le> i" "i \<le> length (index_space (entries (enc_table enc)))"
      "index_space (entries (enc_table enc)) ! (i - 1) = (hf_name f, hf_value f)"
  shows "encode_indexed fill (int i) (enc, out, n) = Inr None \<and> n < hf_hpack_size f \<or>
    (\<exists>st'. encode_indexed fill (int i) (enc, out, n) = Inr (Some st') \<and> field_written f (enc, out, n) st')"
proof -
  note ib = index_space_bound [OF ok(1) i(2)]
  obtain bs where bs: "int_encode_cmd INDEX (of_nat i) = Inr bs"
    using int_encode_small [OF ib(1)] by (auto simp: int_encode_cmd_def)
  have len: "length bs \<le> 5" using bs int_encode_length by (auto simp: int_encode_cmd_def)
  have "header_coding (encoder_state enc) (f # hs) (bs @ rest) st'" if "header_coding (encoder_state enc) hs rest st'" for hs rest st'
    using header_coding.index [of i "encoder_state enc" f bs] i ib(2) ok(3,4) bs that by simp
  then show ?thesis
    using bs len ok es_push_back_written [OF ok(2), of bs fill]
    by (auto simp: encode_indexed_def Let_def field_written_def hf_hpack_size_def)
qed

lemma encoder_after_literal:
  assumes "encoder_ok enc" "encodable (dt_hpack_max_size (enc_table enc)) f"
  defines "enc' \<equiv> (if field_cmd (hf_type f) = LITERAL_INCREMENTAL_INDEX
      then enc\<lparr>enc_table := ht_insert it_insert (hf_name f) (hf_value f) (enc_table enc)\<rparr> else enc)"
  shows "encoder_ok enc'" "dt_hpack_max_size (enc_table enc') = dt_hpack_max_size (enc_table enc)"
    "encoder_state enc' = after_literal f (encoder_state enc)"
proof -
  let ?t = "enc_table enc"
  have "encoder_ok enc' \<and> dt_hpack_max_size (enc_table enc') = dt_hpack_max_size ?t \<and>
      encoder_state enc' = after_literal f (encoder_state enc)"
  proof (cases "hf_type f = DEFAULT")
    case True
    have t: "indexed_ok ?t" "entry_size (hf_name f, hf_value f) \<le> dt_hpack_max_size ?t" "static_name (hf_name f)"
      using assms(1,2) True by (auto simp: encoder_ok_def encodable_def)
    note ins = idx.ok_insert [OF t(1,2)] idx.max_insert [OF t(1,2)] idx.entries_insert [OF t(1,2)]
    obtain k where "evict (dt_hpack_max_size ?t - entry_size (hf_name f, hf_value f)) (entries ?t) = take k (entries ?t)"
      using evict_prefix by blast
    then have "\<forall>e\<in>set (evict (dt_hpack_max_size ?t - entry_size (hf_name f, hf_value f)) (entries ?t)). static_name (fst e)"
      using assms(1) by (auto simp: encoder_ok_def dest: in_set_takeD)
    then show ?thesis
      using True ins t(3) assms(1) by (auto simp: enc'_def field_cmd_def encoder_ok_def ht_insert_def after_literal_def ref_insert_def)
  qed (use assms(1) in \<open>simp add: enc'_def field_cmd_def after_literal_def\<close>)
  then show "encoder_ok enc'" "dt_hpack_max_size (enc_table enc') = dt_hpack_max_size ?t"
    "encoder_state enc' = after_literal f (encoder_state enc)" by blast+
qed

lemma encode_indexed_name_written:
  assumes ok: "encoder_ok enc" "stream_ok out n" "encodable (dt_hpack_max_size (enc_table enc)) f"
    and i: "1 \<le> i" "i \<le> length (index_space (entries (enc_table enc)))"
      "fst (index_space (entries (enc_table enc)) ! (i - 1)) = hf_name f"
  shows "encode_indexed_name fill (int i) f (enc, out, n) = Inr None \<and> n < hf_hpack_size f \<or>
    (\<exists>st'. encode_indexed_name fill (int i) f (enc, out, n) = Inr (Some st') \<and> field_written f (enc, out, n) st')"
proof -
  let ?cmd = "field_cmd (hf_type f)" and ?est = "estimate_string_size (enc_config enc) (hf_value f)"
  have f: "field_ok f" "readable 0 (hf_value f)" using ok(3) by (simp_all add: encodable_def)
  have vlen: "length (hf_value f) \<le> 10485759" using field_sizes [OF f(1)] by simp
  note ib = index_space_bound [OF ok(1) i(2)]
  obtain nb where nb: "int_encode_cmd ?cmd (of_nat i) = Inr nb"
    using int_encode_small [OF ib(1)] by (auto simp: int_encode_cmd_def)
  obtain sz where sz: "int_encode_flag (snd ?est) (fst ?est) = Inr sz" using estimate_encodable [OF vlen] by blast
  have len: "length nb \<le> 5" "length sz \<le> 5" "unat (fst ?est) \<le> length (hf_value f)"
    using nb sz int_encode_length estimate_string_size_cases(2) [OF vlen]
    by (auto simp: int_encode_cmd_def int_encode_flag_def)
  let ?size = "length nb + unat (fst ?est) + length sz"
  define enc' where "enc' = (if ?cmd = LITERAL_INCREMENTAL_INDEX
      then enc\<lparr>enc_table := ht_insert it_insert (hf_name f) (hf_value f) (enc_table enc)\<rparr> else enc)"
  let ?out1 = "fst (es_push_back fill nb out)"
  let ?out2 = "write_string fill ?est sz (hf_value f) ?out1"
  have run: "encode_indexed_name fill (int i) f (enc, out, n) =
      (if ?size > n then Inr None else Inr (Some (enc', ?out2, n - ?size)))"
    using nb sz by (auto simp: encode_indexed_name_def Let_def enc'_def)
  show ?thesis
  proof (cases "?size > n")
    case True
    then show ?thesis using run len by (simp add: hf_hpack_size_def)
  next
    case False
    note o1 = es_push_back_written [OF ok(2), of nb fill]
    have "length nb \<le> n" using False by simp
    note w = write_string_written [OF o1(1) [OF this] vlen f(2) sz, of fill]
    obtain vb where vb: "written ?out2 = written ?out1 @ vb" "string_coding (hf_value f) vb" "length vb = length sz + unat (fst ?est)"
      using w(2) by blast
    note enc' = encoder_after_literal [OF ok(1,3), folded enc'_def]
    have name: "name_coding (entries (enc_table enc)) ?cmd (hf_name f) nb"
      unfolding name_coding_def using i ib(2) nb by (intro disjI1 exI [of _ i]) simp
    have code: "header_coding (encoder_state enc) (f # hs) ((nb @ vb) @ rest) st'"
      if "header_coding (encoder_state enc') hs rest st'" for hs rest st'
      using header_coding.literal [of "encoder_state enc" f nb vb hs rest st'] name vb(2) f(1) ok(3) that enc'(3)
      by (simp add: encodable_def)
    have "stream_ok ?out2 (n - ?size)" using w(1) by (auto simp: stream_ok_def)
    moreover have "written ?out2 = written out @ nb @ vb" using vb(1) o1(2) False by simp
    ultimately have "field_written f (enc, out, n) (enc', ?out2, n - ?size)"
      using enc' code vb(3) False len by (auto simp: field_written_def hf_hpack_size_def intro!: exI [of _ "nb @ vb"])
    then show ?thesis using run False by auto
  qed
qed

lemma int_encode_cmd_0: "int_encode_cmd cmd 0 = Inr [ci_value (cmd_info_get cmd)]"
  by (cases cmd) (simp_all add: int_encode_cmd_def int_encode_def MAX_HPACK_INT_def make_mask_eq_mask mask_eq_exp_minus_1)

text \<open>
  A field with a new name takes one byte more than is counted. It is an encoding after which
  the table should hold the field, if it is to be indexed; the encoder does not change.
\<close>

lemma encode_new_name_coding:
  assumes ok: "stream_ok out n" "field_ok f" "readable 0 (hf_value f)" "readable 0 (hf_name f)"
    and fits: "hf_type f = DEFAULT \<longrightarrow> entry_size (hf_name f, hf_value f) \<le> dt_hpack_max_size (enc_table enc)"
  shows "encode_new_name fill f (enc, out, n) = Inr None \<and> n < hf_hpack_size f \<or>
    (\<exists>out' n' bs. encode_new_name fill f (enc, out, n) = Inr (Some (enc, out', n')) \<and> stream_ok out' n' \<and>
      n \<le> n' + hf_hpack_size f \<and> written out' = written out @ bs \<and> length bs + n' = n + 1 \<and>
      (\<forall>hs rest st'. header_coding (after_literal f (encoder_state enc)) hs rest st' \<longrightarrow>
        header_coding (encoder_state enc) (f # hs) (bs @ rest) st'))"
proof -
  let ?cmd = "field_cmd (hf_type f)" and ?vest = "estimate_string_size (enc_config enc) (hf_value f)"
    and ?nest = "estimate_string_size (enc_config enc) (hf_name f)"
  note f = ok(2-4)
  have lens: "length (hf_name f) \<le> 10485759" "length (hf_value f) \<le> 10485759" using field_sizes [OF f(1)] by simp_all
  obtain ns vs where sz: "int_encode_flag (snd ?nest) (fst ?nest) = Inr ns" "int_encode_flag (snd ?vest) (fst ?vest) = Inr vs"
    using estimate_encodable lens by blast
  have len: "length ns \<le> 5" "length vs \<le> 5" "unat (fst ?nest) \<le> length (hf_name f)"
      "unat (fst ?vest) \<le> length (hf_value f)" "1 \<le> length ns"
    using sz int_encode_length int_encode_nonempty estimate_string_size_cases(2) lens
    by (auto simp: int_encode_flag_def Suc_le_eq)
  let ?size = "unat (fst ?nest) + length ns + unat (fst ?vest) + length vs"
  let ?out1 = "fst (es_push_back fill [ci_value (cmd_info_get ?cmd)] out)"
  let ?out2 = "write_string fill ?nest ns (hf_name f) ?out1"
  let ?out3 = "write_string fill ?vest vs (hf_value f) ?out2"
  have run: "encode_new_name fill f (enc, out, n) =
      (if ?size > n then Inr None else Inr (Some (enc, ?out3, n - ?size)))"
    using sz by (auto simp: encode_new_name_def Let_def)
  show ?thesis
  proof (cases "?size > n")
    case True
    then show ?thesis using run len by (simp add: hf_hpack_size_def)
  next
    case False
    have "length [ci_value (cmd_info_get ?cmd)] \<le> n" using False len(5) by simp
    note o1 = es_push_back_written [OF ok(1) this, of fill]
    note w2 = write_string_written [OF o1(1) lens(1) f(3) sz(1), of fill]
    note w3 = write_string_written [OF w2(1) lens(2) f(2) sz(2), of fill]
    obtain nb where nb: "written ?out2 = written ?out1 @ nb" "string_coding (hf_name f) nb" "length nb = length ns + unat (fst ?nest)"
      using w2(2) by blast
    obtain vb where vb: "written ?out3 = written ?out2 @ vb" "string_coding (hf_value f) vb" "length vb = length vs + unat (fst ?vest)"
      using w3(2) by blast
    let ?bs = "(ci_value (cmd_info_get ?cmd) # nb) @ vb"
    have name: "name_coding (entries (enc_table enc)) ?cmd (hf_name f) (ci_value (cmd_info_get ?cmd) # nb)"
      unfolding name_coding_def using nb(2) int_encode_cmd_0
      by (intro disjI2 exI [of _ "[ci_value (cmd_info_get ?cmd)]"] exI [of _ nb]) simp
    have code: "header_coding (encoder_state enc) (f # hs) (?bs @ rest) st'"
      if "header_coding (after_literal f (encoder_state enc)) hs rest st'" for hs rest st'
      using header_coding.literal [of "encoder_state enc" f "ci_value (cmd_info_get ?cmd) # nb" vb hs rest st']
        name vb(2) f(1) that fits by simp
    have "stream_ok ?out3 (n - ?size)" using w3(1) False len(5) by (auto simp: stream_ok_def)
    moreover have "written ?out3 = written out @ ?bs" using vb(1) nb(1) o1(2) by simp
    ultimately show ?thesis
      using run code vb(3) nb(3) False len by (intro disjI2 exI [of _ ?out3] exI [of _ "n - ?size"] exI [of _ ?bs])
        (auto simp: hf_hpack_size_def)
  qed
qed

lemma encode_new_name_written:
  assumes ok: "encoder_ok enc" "stream_ok out n" "encodable (dt_hpack_max_size (enc_table enc)) f"
    and new: "hf_type f \<noteq> DEFAULT"
  shows "encode_new_name fill f (enc, out, n) = Inr None \<and> n < hf_hpack_size f \<or>
    (\<exists>st'. encode_new_name fill f (enc, out, n) = Inr (Some st') \<and> field_written f (enc, out, n) st')"
  using encode_new_name_coding [OF ok(2), of f enc fill] ok(1,3) new
  by (fastforce simp: encodable_def field_written_def after_literal_def)

lemma encode_field_written:
  assumes ok: "encoder_ok enc" "stream_ok out n" "encodable (dt_hpack_max_size (enc_table enc)) f"
  shows "encode_field stray fill f (enc, out, n) = Inr None \<and> n < hf_hpack_size f \<or>
    (\<exists>st'. encode_field stray fill f (enc, out, n) = Inr (Some st') \<and> field_written f (enc, out, n) st')"
proof -
  let ?t = "enc_table enc"
  have t: "indexed_ok ?t" "length (dt_table ?t) < 2 ^ 31"
    using ok(1) length_bounded [of ?t] by (auto simp: encoder_ok_def indexed_ok_def)
  have f: "field_ok f" "hf_type f = DEFAULT \<Longrightarrow> static_name (hf_name f)" using ok(3) by (simp_all add: encodable_def)
  from t show ?thesis
  proof (cases rule: encoder_field_index_cases [where stray = stray and name = "hf_name f" and val = "hf_value f"])
    case (both i)
    show ?thesis
    proof (cases "hf_type f = DEFAULT")
      case True
      then show ?thesis
        using both encode_indexed_written [OF ok(1,2) f(1) True both(1-3), of fill] by (simp add: encode_field_def)
    next
      case False
      then show ?thesis
        using both encode_indexed_name_written [OF ok both(1,2), of fill] by (simp add: encode_field_def)
    qed
  next
    case (name i)
    then have "i \<le> length (index_space (entries ?t))" by (simp add: index_space_def)
    then show ?thesis
      using name encode_indexed_name_written [OF ok name(1) _ name(3), of fill] by (simp add: encode_field_def)
  next
    case (no_offset i)
    then have "entries ?t ! (i - 1) \<in> set (entries ?t)" by (intro nth_mem) linarith
    then show ?thesis using no_offset ok(1) unfolding encoder_ok_def by metis
  next
    case none
    then show ?thesis using encode_new_name_written [OF ok, of fill] f(2) by (auto simp: encode_field_def)
  qed
qed

lemma encode_loop_coding:
  assumes "encoder_ok enc" "stream_ok out n" "\<forall>f\<in>set fs. encodable (dt_hpack_max_size (enc_table enc)) f"
  shows "\<exists>enc' out' k bs. encode_loop stray fill fs (enc, out, n) c = (enc', Inr (out', c + k)) \<and> k \<le> length fs \<and>
    encoder_ok enc' \<and> written out' = written out @ bs \<and> length bs \<le> n + k \<and>
    header_coding (encoder_state enc) (take k fs) bs (encoder_state enc') \<and>
    (sum_list (map hf_hpack_size fs) \<le> n \<longrightarrow> k = length fs)"
  using assms
proof (induction fs arbitrary: enc out n c)
  case Nil
  then show ?case using header_coding.nil by fastforce
next
  case (Cons f fs)
  have "encodable (dt_hpack_max_size (enc_table enc)) f" using Cons.prems(3) by simp
  from encode_field_written [OF Cons.prems(1,2) this, of stray fill] show ?case
  proof
    assume stop: "encode_field stray fill f (enc, out, n) = Inr None \<and> n < hf_hpack_size f"
    then show ?thesis
      using Cons.prems(1) header_coding.nil
      by (intro exI [of _ enc] exI [of _ out] exI [of _ 0] exI [of _ "[]"]) auto
  next
    assume "\<exists>st'. encode_field stray fill f (enc, out, n) = Inr (Some st') \<and> field_written f (enc, out, n) st'"
    then obtain enc1 out1 n1 where step: "encode_field stray fill f (enc, out, n) = Inr (Some (enc1, out1, n1))"
        "field_written f (enc, out, n) (enc1, out1, n1)" by (metis prod_cases3)
    obtain bs1 where w: "encoder_ok enc1" "stream_ok out1 n1" "dt_hpack_max_size (enc_table enc1) = dt_hpack_max_size (enc_table enc)"
        "n \<le> n1 + hf_hpack_size f" "written out1 = written out @ bs1" "length bs1 + n1 \<le> n + 1"
        "\<And>hs rest st'. header_coding (encoder_state enc1) hs rest st' \<Longrightarrow> header_coding (encoder_state enc) (f # hs) (bs1 @ rest) st'"
      using step(2) by (auto simp: field_written_def)
    have "\<forall>f\<in>set fs. encodable (dt_hpack_max_size (enc_table enc1)) f" using Cons.prems(3) w(3) by simp
    from Cons.IH [OF w(1,2) this, of "c + 1"]
    obtain enc' out' k bs where r: "encode_loop stray fill fs (enc1, out1, n1) (c + 1) = (enc', Inr (out', c + 1 + k))"
        "k \<le> length fs" "encoder_ok enc'" "written out' = written out1 @ bs" "length bs \<le> n1 + k"
        "header_coding (encoder_state enc1) (take k fs) bs (encoder_state enc')"
        "sum_list (map hf_hpack_size fs) \<le> n1 \<longrightarrow> k = length fs" by blast
    show ?thesis
      using step(1) r w(4-6) w(7) [OF r(6)]
      by (intro exI [of _ enc'] exI [of _ out'] exI [of _ "Suc k"] exI [of _ "bs1 @ bs"]) auto
  qed
qed

lemma hpack_encode_coding:
  assumes "encoder_ok enc" "\<forall>f\<in>set fs. encodable (dt_hpack_max_size (enc_table enc)) f"
  shows "\<exists>enc' bufs k. hpack_encode stray fill enc fs limit = (enc', Inr (bufs, k)) \<and> k \<le> length fs \<and> encoder_ok enc' \<and>
    length (contents bufs) \<le> limit + k \<and> header_coding (encoder_state enc) (take k fs) (contents bufs) (encoder_state enc') \<and>
    (sum_list (map hf_hpack_size fs) \<le> limit \<longrightarrow> k = length fs)"
proof -
  have "stream_ok (encoder_stream_new limit) limit" "written (encoder_stream_new limit) = []"
    by (simp_all add: stream_ok_def encoder_stream_new_def)
  then show ?thesis
    using encode_loop_coding [OF assms(1) _ assms(2), of "encoder_stream_new limit" limit stray fill 0]
    by (force simp: hpack_encode_def es_flush_def flush_def)
qed

text \<open>A name that is not static is not found by the encoder.\<close>

lemma encoder_lookup_new:
  assumes "encoder_ok enc" "\<not> static_name n"
  shows "encoder_field_index stray (enc_table enc) n v = (- 1, False)"
proof -
  let ?t = "enc_table enc"
  have t: "indexed_ok ?t" "length (dt_table ?t) < 2 ^ 31"
    using assms(1) length_bounded [of ?t] by (auto simp: encoder_ok_def indexed_ok_def)
  have names: "static_name (fst e)" if "e \<in> set (index_space (entries ?t))" for e
    using that assms(1) by (auto simp: index_space_def encoder_ok_def static_name_def)
  from t show ?thesis
  proof (cases rule: encoder_field_index_cases [where stray = stray and name = n and val = v])
    case (both i)
    then have "(n, v) \<in> set (index_space (entries ?t))" using nth_mem [of "i - 1" "index_space (entries ?t)"] by simp
    then show ?thesis using names assms(2) by fastforce
  next
    case (no_offset i)
    then have "entries ?t ! (i - 1) \<in> set (index_space (entries ?t))" by (simp add: index_space_def)
    then show ?thesis using no_offset names assms(2) by metis
  qed (use assms(2) in simp_all)
qed

section \<open>Properties\<close>

text \<open>
  C1: The HPACK round trip. From equal tables, \<open>encoder::encode\<close> does not throw, and \<open>decoder::decode\<close>
  returns from its output exactly the fields it reports as encoded, with their types, and both
  tables are equal again, so that the next block round-trips as well; all fields are encoded when
  the limit is at least their HPACK size. This holds for fields whose strings can be read back
  and, where they are to be indexed, have a static name and fit the table.
\<close>

theorem hpack_roundtrip:
  assumes "encoder_ok enc" "decoder_sim dec (encoder_state enc)" "\<forall>f\<in>set fs. encodable (dt_hpack_max_size (enc_table enc)) f"
  shows "\<exists>enc' bufs k. hpack_encode stray fill enc fs limit = (enc', Inr (bufs, k)) \<and> k \<le> length fs \<and>
    (sum_list (map hf_hpack_size fs) \<le> limit \<longrightarrow> k = length fs) \<and> encoder_ok enc' \<and>
    (\<forall>src. span_bytes src = contents bufs \<longrightarrow>
      (\<exists>dec'. hpack_decode dec src = (dec', Inr (take k fs)) \<and> decoder_sim dec' (encoder_state enc')))"
  using hpack_encode_coding [OF assms(1,3), of stray fill limit] hpack_decode_coding [OF _ assms(2)] by metis

lemma encoder_new_ok:
  "encoder_ok encoder_new" "decoder_sim decoder_new (encoder_state encoder_new)"
  "dt_hpack_max_size (enc_table encoder_new) = 4096"
  by (simp_all add: encoder_ok_def decoder_sim_def encoder_new_def decoder_new_def DefaultTableSize_def
      encoder_config_default_def tables_new)

theorem hpack_roundtrip_witness:
  "\<exists>enc' bufs. hpack_encode (\<lambda>_ _. 0) (\<lambda>_. 0) encoder_new [\<lparr>hf_name = [0x61], hf_value = [0x61], hf_type = NEVER_INDEX\<rparr>] 100
     = (enc', Inr (bufs, 1)) \<and>
   snd (hpack_decode decoder_new (span_of (\<lambda>_. 0) (contents bufs))) = Inr [\<lparr>hf_name = [0x61], hf_value = [0x61], hf_type = NEVER_INDEX\<rparr>]"
proof -
  let ?fs = "[\<lparr>hf_name = [0x61], hf_value = [0x61], hf_type = NEVER_INDEX\<rparr>]"
  have "\<forall>f\<in>set ?fs. encodable (dt_hpack_max_size (enc_table encoder_new)) f"
    by (simp add: encodable_def field_ok_def header_field_new_ok code_bits_97)
  from hpack_roundtrip [OF encoder_new_ok(1,2) this, of "\<lambda>_ _. 0" "\<lambda>_. 0" 100]
  obtain enc' bufs k where r: "hpack_encode (\<lambda>_ _. 0) (\<lambda>_. 0) encoder_new ?fs 100 = (enc', Inr (bufs, k))"
      "sum_list (map hf_hpack_size ?fs) \<le> 100 \<longrightarrow> k = length ?fs"
      "\<forall>src. span_bytes src = contents bufs \<longrightarrow>
        (\<exists>dec'. hpack_decode decoder_new src = (dec', Inr (take k ?fs)) \<and> decoder_sim dec' (encoder_state enc'))"
    by blast
  have "k = 1" using r(2) by (simp add: hf_hpack_size_def)
  moreover obtain dec' where "hpack_decode decoder_new (span_of (\<lambda>_. 0) (contents bufs)) = (dec', Inr (take k ?fs))"
    using r(3) span_bytes_span_of by blast
  ultimately show ?thesis using r(1) by auto
qed

text \<open>
  C8: \<open>decoder::decode\<close> reads every encoding of a list of fields, with indexed fields, literals of all
  three kinds with indexed or literal names and strings plain or Huffman-coded, and changes of the table
  size in between; its table then holds the entries these leave in the reference list.
\<close>

theorem decoder_reads_codings:
  assumes "header_coding st hs bs st'" "decoder_sim dec st" "span_bytes src = bs"
  shows "\<exists>dec'. hpack_decode dec src = (dec', Inr hs) \<and> decoder_sim dec' st'"
  using assms by (rule hpack_decode_coding)

theorem decoder_reads_codings_witness:
  "snd (hpack_decode decoder_new (span_of (\<lambda>_. 0) [0x40, 0x01, 0x61, 0x01, 0x62])) =
     Inr [\<lparr>hf_name = [0x61], hf_value = [0x62], hf_type = DEFAULT\<rparr>]"
proof -
  let ?f = "\<lparr>hf_name = [0x61], hf_value = [0x62], hf_type = DEFAULT\<rparr>"
  have str: "string_coding [b] [0x01, b]" for b
    unfolding string_coding_def
    by (intro exI [of _ INPLACE] exI [of _ "[0x01]"] exI [of _ "[b]"])
      (simp add: int_encode_flag_def int_encode_def MAX_HPACK_INT_def make_mask_def)
  have "name_coding [] LITERAL_INCREMENTAL_INDEX [0x61] [0x40, 0x01, 0x61]"
    unfolding name_coding_def using str int_encode_cmd_0 [of LITERAL_INCREMENTAL_INDEX]
    by (intro disjI2 exI [of _ "[0x40]"] exI [of _ "[0x01, 0x61]"]) simp
  then have "header_coding (4096, []) [?f] ([0x40, 0x01, 0x61] @ [0x01, 0x62] @ []) (after_literal ?f (4096, []))"
    using str by (intro header_coding.literal header_coding.nil)
      (simp_all add: field_cmd_def field_ok_def header_field_new_ok entry_size_def)
  from decoder_reads_codings [OF this, of decoder_new "span_of (\<lambda>_. 0) [0x40, 0x01, 0x61, 0x01, 0x62]"]
  show ?thesis using encoder_new_ok(2,3) by (auto simp: encoder_new_def tables_new encoder_config_default_def)
qed

text \<open>
  C35: A field that is to be indexed and has a new name puts the tables out of step: \<open>encoder::encode\<close>
  announces the insertion to the decoder and does not insert the field itself. The decoder's
  newest entry is then one the encoder's table does not have, and every later index into the
  dynamic table means different entries to the two.
\<close>

theorem new_name_desynchronises:
  assumes "encoder_ok enc" "decoder_sim dec (encoder_state enc)" "field_ok f" "readable 0 (hf_name f)" "readable 0 (hf_value f)"
    and "hf_type f = DEFAULT" "\<not> static_name (hf_name f)" "entry_size (hf_name f, hf_value f) \<le> dt_hpack_max_size (enc_table enc)"
    and "hf_hpack_size f \<le> limit"
  shows "\<exists>bufs. hpack_encode stray fill enc [f] limit = (enc, Inr (bufs, 1)) \<and>
    (\<forall>src. span_bytes src = contents bufs \<longrightarrow> (\<exists>dec'. hpack_decode dec src = (dec', Inr [f]) \<and>
      hd (entries dec') = (hf_name f, hf_value f) \<and> entries dec' \<noteq> entries (enc_table enc)))"
proof -
  let ?out = "encoder_stream_new limit"
  have field: "encode_field stray fill f (enc, ?out, limit) = encode_new_name fill f (enc, ?out, limit)"
    using encoder_lookup_new [OF assms(1,7), of stray "hf_value f"] by (simp add: encode_field_def)
  have out: "stream_ok ?out limit" "written ?out = []" by (simp_all add: stream_ok_def encoder_stream_new_def)
  obtain out' n' bs where new: "encode_new_name fill f (enc, ?out, limit) = Inr (Some (enc, out', n'))" "written out' = bs"
      "\<forall>hs rest st'. header_coding (after_literal f (encoder_state enc)) hs rest st' \<longrightarrow>
        header_coding (encoder_state enc) (f # hs) (bs @ rest) st'"
    using encode_new_name_coding [OF out(1) assms(3,5,4), of enc fill] assms(8,9) out(2) by fastforce
  have enc: "hpack_encode stray fill enc [f] limit = (enc, Inr (es_stream out', 1))"
    using field new(1) by (simp add: hpack_encode_def es_flush_def flush_def)
  have "header_coding (encoder_state enc) [f] bs (after_literal f (encoder_state enc))"
    using new(3) header_coding.nil by fastforce
  note dec = hpack_decode_coding [OF this assms(2)]
  have "hd (entries dec') = (hf_name f, hf_value f) \<and> entries dec' \<noteq> entries (enc_table enc)"
    if "decoder_sim dec' (after_literal f (encoder_state enc))" for dec'
  proof -
    have "entries dec' \<noteq> []" "hd (entries dec') = (hf_name f, hf_value f)"
      using that assms(6) by (simp_all add: decoder_sim_def after_literal_def ref_insert_def)
    then show ?thesis using assms(1,7) hd_in_set unfolding encoder_ok_def by (metis fst_conv)
  qed
  then show ?thesis using enc dec new(2) by metis
qed

lemma static_name_length: "static_name n \<Longrightarrow> 3 \<le> length n"
proof -
  assume "static_name n"
  then obtain i where "i < 61" "fst (field_table ! i) = n"
    by (auto simp: static_name_def in_set_conv_nth)
  then have "0 \<le> fst (st_index n)" using st_index_name [of i] by simp
  then show ?thesis by (auto simp: st_index_def split: if_splits)
qed

theorem new_name_desynchronises_witness:
  "\<exists>bufs. hpack_encode (\<lambda>_ _. 0) (\<lambda>_. 0) encoder_new [\<lparr>hf_name = [0x61], hf_value = [0x61], hf_type = DEFAULT\<rparr>] 100
     = (encoder_new, Inr (bufs, 1)) \<and>
   entries (fst (hpack_decode decoder_new (span_of (\<lambda>_. 0) (contents bufs)))) \<noteq> entries (enc_table encoder_new)"
proof -
  let ?f = "\<lparr>hf_name = [0x61], hf_value = [0x61], hf_type = DEFAULT\<rparr>"
  have "field_ok ?f" "readable 0 [0x61]" "\<not> static_name [0x61]"
    using static_name_length [of "[0x61]"] by (auto simp: field_ok_def header_field_new_ok code_bits_97)
  then have "\<exists>bufs. hpack_encode (\<lambda>_ _. 0) (\<lambda>_. 0) encoder_new [?f] 100 = (encoder_new, Inr (bufs, 1)) \<and>
    (\<forall>src. span_bytes src = contents bufs \<longrightarrow> (\<exists>dec'. hpack_decode decoder_new src = (dec', Inr [?f]) \<and>
      hd (entries dec') = ([0x61], [0x61]) \<and> entries dec' \<noteq> entries (enc_table encoder_new)))"
    using new_name_desynchronises [OF encoder_new_ok(1,2), of ?f 100 "\<lambda>_ _. 0" "\<lambda>_. 0"] encoder_new_ok(3)
    by (simp add: entry_size_def hf_hpack_size_def)
  then show ?thesis by (metis fst_conv span_bytes_span_of)
qed

text \<open>
  The byte of the command of a field with a new name is not counted, so that the output can be
  longer than the limit.
\<close>

lemma encode_exceeds_limit:
  "\<exists>bufs. hpack_encode stray fill encoder_new [\<lparr>hf_name = [0x61], hf_value = [0x61], hf_type = NEVER_INDEX\<rparr>] 4
     = (encoder_new, Inr (bufs, 1)) \<and> length (contents bufs) = 5"
proof -
  let ?f = "\<lparr>hf_name = [0x61], hf_value = [0x61], hf_type = NEVER_INDEX\<rparr>" and ?out = "encoder_stream_new 4"
  have est: "estimate_string_size conf [0x61] = (1, INPLACE)" for conf
    using estimate_string_size_cases(1) [of "[0x61]" conf] by (simp add: estimate_len_text_bits code_bits_97)
  have sz: "int_encode_flag INPLACE 1 = Inr [1]"
    by (simp add: int_encode_flag_def int_encode_def MAX_HPACK_INT_def make_mask_def)
  have "\<not> static_name [0x61]" using static_name_length [of "[0x61]"] by auto
  then have field: "encode_field stray fill ?f (encoder_new, ?out, 4) = encode_new_name fill ?f (encoder_new, ?out, 4)"
    using encoder_lookup_new [OF encoder_new_ok(1)] by (simp add: encode_field_def)
  have out: "stream_ok ?out 4" "written ?out = []" by (simp_all add: stream_ok_def encoder_stream_new_def)
  have "encode_new_name fill ?f (encoder_new, ?out, 4) \<noteq> Inr None"
    using est sz by (simp add: encode_new_name_def Let_def)
  moreover have "field_ok ?f" "readable 0 [0x61]" by (simp_all add: field_ok_def header_field_new_ok code_bits_97)
  moreover have "n' = 0" if "encode_new_name fill ?f (encoder_new, ?out, 4) = Inr (Some (encoder_new, out', n'))" for out' n'
    using that est sz by (simp add: encode_new_name_def Let_def)
  ultimately obtain out' where "encode_new_name fill ?f (encoder_new, ?out, 4) = Inr (Some (encoder_new, out', 0))"
      "length (written out') = 5"
    using encode_new_name_coding [OF out(1), of ?f encoder_new fill] out(2) by fastforce
  then show ?thesis using field by (auto simp: hpack_encode_def es_flush_def flush_def)
qed

end
