(* ===== verification/Http2_Frame_Builder.thy ===== *)
theory Http2_Frame_Builder
  imports Http2_Frame
begin

text \<open>
  Frames as they are written (\<open>lib/frame_builder.{h,cpp}\<close>): each builder allocates a buffer, assigns the
  members of a packed struct in it and commits the whole. What is not assigned stays as the
  allocation left it (\<open>fill\<close>). The lemmas give the bytes of every frame, and the properties that
  the analyzer reads back what was meant, and where it does not.
\<close>

section \<open>Members\<close>

definition put_length :: "u32 \<Rightarrow> byte list \<Rightarrow> byte list" where
  "put_length n = poke 0 (be_bytes 3 n)"

definition put_type :: "frame_type \<Rightarrow> byte list \<Rightarrow> byte list" where
  "put_type t = poke 3 [frame_type_value t]"

definition put_flags :: "byte \<Rightarrow> byte list \<Rightarrow> byte list" where
  "put_flags f = poke 4 [f]"

definition put_stream_id :: "byte_order \<Rightarrow> u32 \<Rightarrow> byte list \<Rightarrow> byte list" where
  "put_stream_id native i = poke 5 (store_native native 4 i)"

text \<open>Writing to \<open>prepare().data()\<close> of a new buffer and committing it.\<close>

definition build :: "(nat \<Rightarrow> byte) \<Rightarrow> nat \<Rightarrow> (byte list \<Rightarrow> byte list) \<Rightarrow> nat \<Rightarrow> buffer" where
  "build fill sz assign count =
     (let b = buffer_new fill sz
      in fst (commit count (b\<lparr>buf_memory := assign (buf_memory b)\<rparr>)))"

section \<open>Builders\<close>

definition goaway :: "byte_order \<Rightarrow> (nat \<Rightarrow> byte) \<Rightarrow> u32 \<Rightarrow> u32 \<Rightarrow> byte list \<Rightarrow> buffer" where
  "goaway native fill err last_stream_id additional =
     build fill (17 + length additional)
       (\<lambda>m. poke 17 additional
         (put_length (of_nat (17 - header_size + length additional))
         (poke 13 (store_native native 4 err)
         (poke 9 (store_native native 4 last_stream_id)
         (put_stream_id native 0 (put_flags 0 (put_type GOAWAY m)))))))
       (17 + length additional)"

definition ping :: "byte_order \<Rightarrow> (nat \<Rightarrow> byte) \<Rightarrow> byte list \<Rightarrow> buffer" where
  "ping native fill additional =
     build fill 17
       (\<lambda>m. poke 9 (take (min (length additional) 8) additional)
         (put_length 8 (put_stream_id native 0 (put_flags 0 (put_type PING m)))))
       17"

definition reset :: "byte_order \<Rightarrow> (nat \<Rightarrow> byte) \<Rightarrow> u32 \<Rightarrow> u32 \<Rightarrow> buffer" where
  "reset native fill err stream_id =
     build fill 13
       (\<lambda>m. poke 9 (store_native native 4 (native_to_big32 native err))
         (put_stream_id native stream_id (put_length (of_nat (13 - header_size)) (put_flags 0 (put_type RST_STREAM m)))))
       13"

definition update_window :: "byte_order \<Rightarrow> (nat \<Rightarrow> byte) \<Rightarrow> u32 \<Rightarrow> u32 \<Rightarrow> buffer" where
  "update_window native fill sz stream_id =
     build fill 13
       (\<lambda>m. poke 9 (be_bytes 4 sz)
         (put_stream_id native stream_id (put_length (of_nat (13 - header_size)) (put_flags 0 (put_type WINDOW_UPDATE m)))))
       13"

text \<open>\<open>memcpy\<close> of an array of \<open>settings_item\<close>.\<close>

definition item_bytes :: "byte_order \<Rightarrow> settings_item \<Rightarrow> byte list" where
  "item_bytes native i = store_native native 2 (si_type i) @ store_native native 4 (si_value i)"

definition settings_frame :: "byte_order \<Rightarrow> (nat \<Rightarrow> byte) \<Rightarrow> settings_item list \<Rightarrow> buffer" where
  "settings_frame native fill items =
     (let payload_sz = settings_item_size * length items
      in build fill (header_size + payload_sz)
        (\<lambda>m. poke header_size (concat (map (item_bytes native) items))
          (put_length (of_nat payload_sz) (put_stream_id native 0 (put_flags 0 (put_type SETTINGS m)))))
        (header_size + payload_sz))"

definition settings_ack :: "byte_order \<Rightarrow> (nat \<Rightarrow> byte) \<Rightarrow> buffer" where
  "settings_ack native fill =
     build fill header_size
       (\<lambda>m. put_length 0 (put_stream_id native 0 (put_flags ACK (put_type SETTINGS m))))
       header_size"

definition headers_frame :: "byte_order \<Rightarrow> (nat \<Rightarrow> byte) \<Rightarrow> u32 \<Rightarrow> byte \<Rightarrow> u32 \<Rightarrow> buffer" where
  "headers_frame native fill stream_id flags payload_sz =
     (let sz = header_size + (if has_flag flags PADDED then 1 else 0) + (if has_flag flags PRIORITY_FLAG then 5 else 0)
      in build fill sz
        (\<lambda>m. put_length payload_sz (put_stream_id native stream_id (put_flags flags (put_type HEADERS m))))
        sz)"

definition continuation_frame :: "byte_order \<Rightarrow> (nat \<Rightarrow> byte) \<Rightarrow> u32 \<Rightarrow> byte \<Rightarrow> u32 \<Rightarrow> buffer" where
  "continuation_frame native fill stream_id flags payload_sz =
     build fill header_size
       (\<lambda>m. put_length payload_sz (put_stream_id native stream_id (put_flags flags (put_type CONTINUATION m))))
       header_size"

text \<open>\<open>data\<close> also returns the span of the payload in the buffer: its offset and its length.\<close>

definition data_frame :: "byte_order \<Rightarrow> (nat \<Rightarrow> byte) \<Rightarrow> u32 \<Rightarrow> byte \<Rightarrow> u32 \<Rightarrow> buffer \<times> nat \<times> nat" where
  "data_frame native fill stream_id flags payload_sz =
     (let sz = header_size + (if has_flag flags PADDED then 1 else 0)
      in (build fill (sz + unat payload_sz)
           (\<lambda>m. put_length payload_sz (put_stream_id native stream_id (put_flags flags (put_type DATA m))))
           (sz + unat payload_sz),
          sz, unat payload_sz))"

section \<open>The bytes of a frame\<close>

lemma poke_append: "length as = off \<Longrightarrow> length bs = length src \<Longrightarrow> poke off src (as @ bs @ cs) = as @ src @ cs"
  by (simp add: poke_def)

lemma data_view_build:
  "length (assign (map fill [0..<sz])) = sz \<Longrightarrow> data_view (build fill sz assign sz) = assign (map fill [0..<sz])"
  by (simp add: build_def buffer_defs Let_def)

lemma buffer_ok_build: "length (assign (map fill [0..<sz])) = sz \<Longrightarrow> buffer_ok (build fill sz assign n)"
  by (simp add: build_def buffer_defs Let_def)

text \<open>Assigning the four members of the header to memory of at least nine bytes.\<close>

definition wire_header :: "byte_order \<Rightarrow> u32 \<Rightarrow> byte \<Rightarrow> byte \<Rightarrow> u32 \<Rightarrow> byte list" where
  "wire_header native n t flags sid = be_bytes 3 n @ [t, flags] @ store_native native 4 sid"

lemma length_wire_header [simp]: "length (wire_header native n t flags sid) = 9"
  by (simp add: wire_header_def)

lemma wire_frame_eq:
  "length payload = k \<Longrightarrow> wire_header native (of_nat k) t flags sid @ payload = wire_frame native t flags sid payload"
  by (auto simp: wire_header_def wire_frame_def)

lemma put_header:
  assumes "9 \<le> length m"
  shows "put_length n (put_stream_id native sid (put_flags flags (put_type t m))) =
      wire_header native n (frame_type_value t) flags sid @ drop 9 m"
    and "put_stream_id native sid (put_length n (put_flags flags (put_type t m))) =
      wire_header native n (frame_type_value t) flags sid @ drop 9 m"
proof -
  obtain a b c d e f g i j r where "m = a # b # c # d # e # f # g # i # j # r"
    using assms by (auto simp: numeral_eq_Suc Suc_le_length_iff)
  then have m: "m = [a, b, c] @ [d] @ [e] @ [f, g, i, j] @ r" by simp
  have "put_type t m = [a, b, c] @ [frame_type_value t] @ [e] @ [f, g, i, j] @ r"
    unfolding m put_type_def by (rule poke_append) simp_all
  moreover have "put_flags flags ([a, b, c] @ [x] @ [e] @ [f, g, i, j] @ r) = [a, b, c] @ [x, flags] @ [f, g, i, j] @ r" for x
    using poke_append [of "[a, b, c, x]" 4 "[e]" "[flags]"] by (simp add: put_flags_def)
  moreover have sid: "put_stream_id native sid (p @ q @ [f, g, i, j] @ r) = p @ q @ store_native native 4 sid @ r"
    if "length p = 3" "length q = 2" for p q
    using that poke_append [of "p @ q" 5 "[f, g, i, j]" "store_native native 4 sid" r] by (simp add: put_stream_id_def)
  note sid [of "[a, b, c]" "[frame_type_value t, flags]"] sid [of "be_bytes 3 n" "[frame_type_value t, flags]"]
  moreover have "put_length n ([a, b, c] @ q) = be_bytes 3 n @ q" for q
    using poke_append [of "[]" 0 "[a, b, c]" "be_bytes 3 n" q] by (simp add: put_length_def)
  ultimately show "put_length n (put_stream_id native sid (put_flags flags (put_type t m))) =
      wire_header native n (frame_type_value t) flags sid @ drop 9 m"
    and "put_stream_id native sid (put_length n (put_flags flags (put_type t m))) =
      wire_header native n (frame_type_value t) flags sid @ drop 9 m"
    by (simp_all add: wire_header_def m)
qed

lemma poke_payload:
  assumes "length src \<le> length m"
  shows "poke 9 src (wire_header native n t flags sid @ m) = wire_header native n t flags sid @ src @ drop (length src) m"
  using assms by (simp add: poke_def)

lemma put_length_pokes:
  "9 \<le> off \<Longrightarrow> off + length src \<le> length m \<Longrightarrow> put_length n (poke off src m) = poke off src (put_length n m)"
  by (auto simp: put_length_def poke_def drop_take)

lemma length_item_bytes [simp]: "length (concat (map (item_bytes native) items)) = settings_item_size * length items"
  by (induction items) (auto simp: item_bytes_def settings_item_size_def)

lemmas build_simps = data_view_build put_header poke_payload header_size_def

text \<open>What each builder returns.\<close>

lemma update_window_bytes:
  "data_view (update_window native fill sz sid) = wire_frame native 8 0 sid (be_bytes 4 sz)"
  by (simp add: update_window_def build_simps) (simp add: wire_header_def wire_frame_def)

lemma reset_bytes: "data_view (reset native fill err sid) = wire_frame native 3 0 sid (be_bytes 4 err)"
  by (simp add: reset_def build_simps store_native_to_big) (simp add: wire_header_def wire_frame_def)

lemma ping_bytes:
  assumes "length opaque = 8"
  shows "data_view (ping native fill opaque) = wire_frame native 6 0 0 opaque"
  using assms by (simp add: ping_def build_simps) (simp add: wire_header_def wire_frame_def)

lemma settings_frame_bytes:
  "data_view (settings_frame native fill items) = wire_frame native 4 0 0 (concat (map (item_bytes native) items))"
  unfolding settings_frame_def Let_def
  by (subst data_view_build) (simp_all add: build_simps del: of_nat_mult, simp add: wire_frame_eq del: of_nat_mult)

lemma settings_ack_bytes: "data_view (settings_ack native fill) = wire_frame native 4 ACK 0 []"
  by (simp add: settings_ack_def build_simps) (simp add: wire_header_def wire_frame_def)

lemma headers_frame_bytes:
  assumes "\<not> has_flag flags PADDED" "\<not> has_flag flags PRIORITY_FLAG"
  shows "data_view (headers_frame native fill sid flags n) = wire_header native n 1 flags sid"
  using assms by (simp add: headers_frame_def build_simps)

lemma continuation_frame_bytes:
  "data_view (continuation_frame native fill sid flags n) = wire_header native n 9 flags sid"
  by (simp add: continuation_frame_def build_simps)

lemma data_frame_bytes:
  assumes "\<not> has_flag flags PADDED"
  shows "data_view (fst (data_frame native fill sid flags n)) =
      wire_header native n 0 flags sid @ map fill [9..<9 + unat n]"
    and "snd (data_frame native fill sid flags n) = (9, unat n)"
  using assms by (simp_all add: data_frame_def build_simps Let_def drop_map)

lemma goaway_bytes:
  "data_view (goaway native fill err last_id additional) =
     wire_frame native 7 0 0 (store_native native 4 last_id @ store_native native 4 err @ additional)"
proof -
  let ?m = "map fill [0..<17 + length additional]"
  let ?h = "wire_header native (of_nat (8 + length additional)) 7 0 0"
  have "put_length (of_nat (8 + length additional)) (poke 13 (store_native native 4 err)
      (poke 9 (store_native native 4 last_id) (put_stream_id native 0 (put_flags 0 (put_type GOAWAY ?m))))) =
    poke 13 (store_native native 4 err) (poke 9 (store_native native 4 last_id)
      (put_length (of_nat (8 + length additional)) (put_stream_id native 0 (put_flags 0 (put_type GOAWAY ?m)))))"
    by (simp add: put_length_pokes put_stream_id_def put_flags_def put_type_def)
  also have "\<dots> = ?h @ store_native native 4 last_id @ store_native native 4 err @ drop 17 ?m"
    by (simp add: put_header poke_payload) (simp add: poke_def)
  finally have m: "poke 17 additional (put_length (of_nat (8 + length additional)) (poke 13 (store_native native 4 err)
      (poke 9 (store_native native 4 last_id) (put_stream_id native 0 (put_flags 0 (put_type GOAWAY ?m)))))) =
    ?h @ store_native native 4 last_id @ store_native native 4 err @ additional"
    by (simp add: poke_def)
  have n: "17 - header_size + length additional = 8 + length additional" by (simp add: header_size_def)
  show ?thesis
    unfolding goaway_def n by (subst data_view_build) (simp_all add: m wire_frame_eq header_size_def del: of_nat_add)
qed

section \<open>Reading what was built\<close>

lemma analyze_wire:
  assumes "span_bytes s = wire_frame native t flags sid payload" "length payload < 2 ^ 24"
  shows "from_buffer native s = Inr s" "is_complete native s"
    "off + n \<le> length payload \<Longrightarrow> slice s (9 + off) n = take n (drop off payload)"
proof -
  have len: "sp_len s = 9 + length payload" using arg_cong [OF assms(1), of length] by (simp add: header_size_def)
  have h: "payload_size native s = length payload" using wire_frame_header(2) [of s native t flags sid payload "[]"] assms by simp
  show "from_buffer native s = Inr s" "is_complete native s"
    using len h by (simp_all add: from_buffer_def frame_analyzer_new_def header_size_def first_span_def is_complete_def frame_size_def)
  have "drop 9 (span_bytes s) = payload" by (simp add: assms(1) wire_frame_def)
  then have "drop (9 + off) (span_bytes s) = drop off payload" for off by (metis add.commute drop_drop)
  then show "slice s (9 + off) n = take n (drop off payload)" if "off + n \<le> length payload"
    using that len by (subst slice_eq) simp_all
qed

lemma get_frame_wire:
  assumes "span_bytes s = wire_frame native (frame_type_value t) flags sid payload" "length payload < 2 ^ 24"
  shows "get_frame native t s = Inr s" "fh_flags (frame_header native s) = flags" "fh_stream_id (frame_header native s) = sid"
    "payload_size native s = length payload"
  using wire_frame_header [of s native "frame_type_value t" flags sid payload "[]"] assms by (simp_all add: get_frame_def)

definition parsed :: "byte_order \<Rightarrow> frame_type \<Rightarrow> span \<Rightarrow> bool" where
  "parsed native t f \<longleftrightarrow> from_buffer native f = Inr f \<and> is_complete native f \<and> get_frame native t f = Inr f"

lemma parsed_wire:
  "span_bytes s = wire_frame native (frame_type_value t) flags sid payload \<Longrightarrow> length payload < 2 ^ 24 \<Longrightarrow> parsed native t s"
  by (simp add: parsed_def analyze_wire get_frame_wire)

lemma settings_items_wire:
  assumes "span_bytes s = wire_frame native 4 flags sid (concat (map (item_bytes native) items))"
    and "settings_item_size * length items < 2 ^ 24"
  shows "settings_items native s = items"
proof (rule nth_equalityI)
  let ?p = "concat (map (item_bytes native) items)"
  have lp: "length ?p < 2 ^ 24" using assms(2) by simp
  have ps: "payload_size native s = settings_item_size * length items"
    using get_frame_wire(4) [of s native SETTINGS flags sid ?p] assms by simp
  then show len: "length (settings_items native s) = length items"
    by (simp add: settings_items_def settings_item_size_def)
  fix i assume "i < length (settings_items native s)"
  then have i: "i < length items" using len by simp
  have d: "drop (6 * i) ?p = item_bytes native (items ! i) @ concat (map (item_bytes native) (drop (Suc i) items))"
  proof -
    have "?p = concat (map (item_bytes native) (take i items)) @ concat (map (item_bytes native) (drop i items))"
      by (simp flip: concat_append map_append)
    moreover have "length (concat (map (item_bytes native) (take i items))) = 6 * i"
      using i by (simp add: settings_item_size_def)
    ultimately have "drop (6 * i) ?p = concat (map (item_bytes native) (drop i items))" by simp
    then show ?thesis using i by (simp add: Cons_nth_drop_Suc [symmetric])
  qed
  have b: "6 * i + 6 \<le> length ?p" using i by (simp add: settings_item_size_def)
  have sl: "slice s (9 + (6 * i + k)) n = take n (drop k (item_bytes native (items ! i) @ concat (map (item_bytes native) (drop (Suc i) items))))"
    if "k + n \<le> 6" for k n
  proof -
    have "slice s (9 + (6 * i + k)) n = take n (drop (6 * i + k) ?p)"
      using that b by (intro analyze_wire(3) [OF assms(1) lp]) simp
    also have "drop (6 * i + k) ?p = drop k (drop (6 * i) ?p)" by (simp add: add.commute)
    finally show ?thesis unfolding d .
  qed
  have "slice s (9 + 6 * i) 2 = store_native native 2 (si_type (items ! i))"
    "slice s (9 + 6 * i + 2) 4 = store_native native 4 (si_value (items ! i))"
    using sl [of 0 2] sl [of 2 4] by (simp_all add: item_bytes_def)
  then show "settings_items native s ! i = items ! i"
    using i ps by (simp add: settings_items_def header_size_def settings_item_size_def load_store_native)
qed

lemma headers_block_wire:
  assumes "span_bytes s = wire_frame native t flags sid block" "length block < 2 ^ 24" "\<not> has_flag flags PADDED"
  shows "\<not> has_flag flags PRIORITY_FLAG \<Longrightarrow> span_bytes (headers_block native s) = block"
    and "span_bytes (frame_data native s) = block" "span_bytes (continuation_block native s) = block"
proof -
  note h = wire_frame_header [of s native t flags sid block "[]"]
  have len: "sp_len s = 9 + length block" using arg_cong [OF assms(1), of length] by (simp add: header_size_def)
  have u: "unat (of_nat (length block) :: u64) = length block" using assms(2) by (simp add: unat_of_nat)
  have v: "span_bytes (payload_view s 0 (of_nat (length block))) = block"
    using len u by (subst payload_view_bytes) (simp_all add: header_size_def assms(1) wire_frame_def)
  show "\<not> has_flag flags PRIORITY_FLAG \<Longrightarrow> span_bytes (headers_block native s) = block"
    and "span_bytes (frame_data native s) = block" "span_bytes (continuation_block native s) = block"
    using h assms v by (simp_all add: headers_block_def frame_data_def continuation_block_def)
qed

section \<open>Properties\<close>

text \<open>
  C13: what the builders write the analyzer reads back, whatever surrounds the frame in memory and
  on hosts of either byte order: type, stream and content of WINDOW_UPDATE, SETTINGS and PING
  frames, and the content of HEADERS and CONTINUATION frames when a block of the announced length
  follows their header.
\<close>

theorem frames_roundtrip:
  assumes "settings_item_size * length items < 2 ^ 24" "length opaque = 8" "length block < 2 ^ 24"
    and "\<not> has_flag flags PADDED" "\<not> has_flag flags PRIORITY_FLAG"
  shows "(let f = span_of out (data_view (update_window native fill n sid))
      in parsed native WINDOW_UPDATE f \<and> fh_stream_id (frame_header native f) = sid \<and> window_size f = n) \<and>
    (let f = span_of out (data_view (settings_frame native fill items))
      in parsed native SETTINGS f \<and> \<not> has_flag (fh_flags (frame_header native f)) ACK \<and> settings_items native f = items) \<and>
    (let f = span_of out (data_view (ping native fill opaque))
      in parsed native PING f \<and> slice f header_size 8 = opaque) \<and>
    (let f = span_of out (data_view (headers_frame native fill sid flags (of_nat (length block))) @ block)
      in parsed native HEADERS f \<and> fh_stream_id (frame_header native f) = sid \<and>
         fh_flags (frame_header native f) = flags \<and> span_bytes (headers_block native f) = block) \<and>
    (let f = span_of out (data_view (continuation_frame native fill sid flags (of_nat (length block))) @ block)
      in parsed native CONTINUATION f \<and> fh_stream_id (frame_header native f) = sid \<and>
         span_bytes (continuation_block native f) = block)"
proof -
  define w where "w = span_of out (data_view (update_window native fill n sid))"
  have w: "span_bytes w = wire_frame native (frame_type_value WINDOW_UPDATE) 0 sid (be_bytes 4 n)"
    by (simp add: w_def update_window_bytes)
  have "parsed native WINDOW_UPDATE w \<and> fh_stream_id (frame_header native w) = sid \<and> window_size w = n"
    using parsed_wire [OF w] get_frame_wire [OF w] analyze_wire(3) [OF w, of 0 4]
    by (simp add: window_size_def header_size_def from_be_be_bytes)
  moreover define s where "s = span_of out (data_view (settings_frame native fill items))"
  have s: "span_bytes s = wire_frame native (frame_type_value SETTINGS) 0 0 (concat (map (item_bytes native) items))"
    by (simp add: s_def settings_frame_bytes)
  have "parsed native SETTINGS s \<and> \<not> has_flag (fh_flags (frame_header native s)) ACK \<and> settings_items native s = items"
    using parsed_wire [OF s] get_frame_wire [OF s] settings_items_wire [of s native 0 0 items] s assms(1)
    by (simp add: has_flag_def)
  moreover define p where "p = span_of out (data_view (ping native fill opaque))"
  have p: "span_bytes p = wire_frame native (frame_type_value PING) 0 0 opaque"
    by (simp add: p_def ping_bytes assms(2))
  have "parsed native PING p \<and> slice p header_size 8 = opaque"
    using parsed_wire [OF p] analyze_wire(3) [OF p, of 0 8] assms(2) by (simp add: header_size_def)
  moreover define h where "h = span_of out (data_view (headers_frame native fill sid flags (of_nat (length block))) @ block)"
  have h: "span_bytes h = wire_frame native (frame_type_value HEADERS) flags sid block"
    using assms(4,5) by (simp add: h_def headers_frame_bytes wire_frame_eq)
  have "parsed native HEADERS h \<and> fh_stream_id (frame_header native h) = sid \<and>
      fh_flags (frame_header native h) = flags \<and> span_bytes (headers_block native h) = block"
    using parsed_wire [OF h] get_frame_wire [OF h] headers_block_wire(1) [OF h] assms(3-5) by simp
  moreover define c where "c = span_of out (data_view (continuation_frame native fill sid flags (of_nat (length block))) @ block)"
  have c: "span_bytes c = wire_frame native (frame_type_value CONTINUATION) flags sid block"
    by (simp add: c_def continuation_frame_bytes wire_frame_eq)
  have "parsed native CONTINUATION c \<and> fh_stream_id (frame_header native c) = sid \<and> span_bytes (continuation_block native c) = block"
    using parsed_wire [OF c] get_frame_wire [OF c] headers_block_wire(3) [OF c] assms(3-5) by simp
  ultimately show ?thesis by (simp add: Let_def w_def s_def p_def h_def c_def)
qed

theorem frames_roundtrip_witness:
  "window_size (span_of (\<lambda>_. 0) (data_view (update_window little (\<lambda>_. 0) 4096 (native_to_big32 little 3)))) = 4096 \<and>
   settings_items little (span_of (\<lambda>_. 0) (data_view (settings_frame little (\<lambda>_. 0)
     [settings_item_new little SETTINGS_MAX_FRAME_SIZE 16384]))) = [settings_item_new little SETTINGS_MAX_FRAME_SIZE 16384]"
  using frames_roundtrip [of "[settings_item_new little SETTINGS_MAX_FRAME_SIZE 16384]" "replicate 8 0" "[1]" END_HEADERS
      "\<lambda>_. 0" little "\<lambda>_. 0" 4096 "native_to_big32 little 3"]
  by (simp add: settings_item_size_def has_flag_def END_HEADERS_def PADDED_def PRIORITY_FLAG_def Let_def)

text \<open>
  The numbers a peer reads from the error frames. A GOAWAY carries the code that was meant. A
  RST_STREAM carries it only on a big-endian host or when it is \<open>IS_OK\<close>, since the builder swaps
  a value that is in network order already; and the stream identifier 1 that the client passes to
  \<open>goaway\<close> arrives as 1 only on a big-endian host, since it is stored in the order of the host.
\<close>

lemma wire_error_codes:
  "from_be (take 4 (drop 13 (data_view (goaway native fill (error_code_value native e) i additional)))) = error_code_number e \<and>
   (from_be (take 4 (drop 9 (data_view (reset native fill (error_code_value native e) sid)))) = error_code_number e)
     = (native = big \<or> e = IS_OK) \<and>
   (from_be (take 4 (drop 9 (data_view (goaway native fill err 1 additional)))) = (1 :: u32)) = (native = big)"
proof -
  have be: "from_be (be_bytes 4 x) = x" for x :: u32 by (rule from_be_be_bytes) simp
  have code: "store_native native 4 (error_code_value native e) = be_bytes 4 (error_code_number e)"
    by (simp add: error_code_value_def store_native_to_big)
  have d: "drop 9 (wire_frame native t flags s payload) = payload" for t flags s payload by (simp add: wire_frame_def)
  have "from_be (take 4 (drop 13 (data_view (goaway native fill (error_code_value native e) i additional)))) = error_code_number e"
    using d [of 7 0 0 "store_native native 4 i @ store_native native 4 (error_code_value native e) @ additional"]
      drop_drop [of 4 9 "data_view (goaway native fill (error_code_value native e) i additional)", symmetric]
    by (simp add: goaway_bytes code be)
  moreover have "from_be (take 4 (drop 9 (data_view (reset native fill (error_code_value native e) sid)))) =
      native_to_big32 native (error_code_number e)"
    by (simp add: reset_bytes d be error_code_value_def)
  moreover have "native_to_big32 native (error_code_number e) = error_code_number e \<longleftrightarrow> native = big \<or> e = IS_OK"
    by (cases native; cases e) (simp_all add: native_to_big32_def)
  moreover have "from_be (take 4 (drop 9 (data_view (goaway native fill err 1 additional)))) =
      (from_be (store_native native 4 (1 :: u32)) :: u32)"
    by (simp add: goaway_bytes d)
  moreover have "from_be (le_bytes 4 (1 :: u32)) \<noteq> (1 :: u32)"
    by (simp add: le_bytes_def from_be_def upt_rec)
  then have "(from_be (store_native native 4 (1 :: u32)) = (1 :: u32)) \<longleftrightarrow> native = big"
    by (cases native) (simp_all add: store_native_def be)
  ultimately show ?thesis by simp
qed

end
