(* ===== verification/Http2_Window.thy ===== *)
theory Http2_Window
  imports Http2_Frame_Builder
begin

text \<open>
  The receive window of a stream or of the connection (\<open>lib/dummy_window.{h,cpp}\<close>): bytes received are
  subtracted, and once enough of them have been used a WINDOW_UPDATE returns them to the peer.
\<close>

record dummy_window =
  dw_max_size :: u32
  dw_size :: u32
  dw_trigger_size :: u32

definition dummy_window_new :: "u32 \<Rightarrow> u32 \<Rightarrow> dummy_window" where
  "dummy_window_new msize trigger = \<lparr>dw_max_size = msize, dw_size = msize, dw_trigger_size = trigger\<rparr>"

definition dw_dec :: "u32 \<Rightarrow> dummy_window \<Rightarrow> dummy_window" where
  "dw_dec v w = w\<lparr>dw_size := dw_size w - v\<rparr>"

definition need_update :: "dummy_window \<Rightarrow> bool" where
  "need_update w = (let inc_size = dw_max_size w - dw_size w in inc_size \<ge> dw_trigger_size w)"

definition dw_update :: "byte_order \<Rightarrow> (nat \<Rightarrow> byte) \<Rightarrow> u32 \<Rightarrow> dummy_window \<Rightarrow> dummy_window \<times> buffer option" where
  "dw_update native fill http_id w =
     (if \<not> need_update w then (w, None)
      else
        let inc_size = dw_max_size w - dw_size w
        in (w\<lparr>dw_size := dw_size w + inc_size\<rparr>, Some (update_window native fill inc_size http_id)))"

definition dw_current :: "dummy_window \<Rightarrow> u32" where
  "dw_current w = dw_size w"

section \<open>A window in use\<close>

text \<open>A sequence of receptions and chances to update, and the frames it makes the window send.\<close>

datatype window_op = Received u32 | Update

fun window_run ::
  "byte_order \<Rightarrow> (nat \<Rightarrow> byte) \<Rightarrow> u32 \<Rightarrow> dummy_window \<Rightarrow> window_op list \<Rightarrow> dummy_window \<times> buffer list" where
  "window_run native fill i w [] = (w, [])"
| "window_run native fill i w (Received v # ops) = window_run native fill i (dw_dec v w) ops"
| "window_run native fill i w (Update # ops) =
     (case dw_update native fill i w of (w', f) \<Rightarrow>
        case window_run native fill i w' ops of (w'', fs) \<Rightarrow> (w'', (case f of None \<Rightarrow> fs | Some b \<Rightarrow> b # fs)))"

text \<open>The peer keeps to the window it has been given.\<close>

fun obeyed :: "dummy_window \<Rightarrow> window_op list \<Rightarrow> bool" where
  "obeyed w [] = True"
| "obeyed w (Received v # ops) = (v \<le> dw_current w \<and> obeyed (dw_dec v w) ops)"
| "obeyed w (Update # ops) = obeyed (if need_update w then w\<lparr>dw_size := dw_max_size w\<rparr> else w) ops"

definition received :: "window_op list \<Rightarrow> nat" where
  "received ops = sum_list (map (\<lambda>op. case op of Received v \<Rightarrow> unat v | Update \<Rightarrow> 0) ops)"

definition granted :: "buffer list \<Rightarrow> nat" where
  "granted fs = sum_list (map (\<lambda>b. unat (window_size (span_of (\<lambda>_. 0) (data_view b)))) fs)"

lemma window_size_update_window:
  "window_size (span_of out (data_view (update_window native fill n i))) = n"
proof -
  have "slice (span_of out (data_view (update_window native fill n i))) (9 + 0) 4 = be_bytes 4 n"
    by (subst analyze_wire(3) [where payload = "be_bytes 4 n"]) (simp_all add: update_window_bytes)
  then show ?thesis by (simp add: window_size_def header_size_def from_be_be_bytes)
qed

lemma dw_update_eq:
  "dw_update native fill i w =
     (if need_update w then (w\<lparr>dw_size := dw_max_size w\<rparr>, Some (update_window native fill (dw_max_size w - dw_size w) i))
      else (w, None))"
  by (simp add: dw_update_def)

lemma window_run_balance:
  assumes "dw_size w \<le> dw_max_size w" "obeyed w ops" "window_run native fill i w ops = (w', fs)"
  shows "dw_size w' \<le> dw_max_size w' \<and> dw_max_size w' = dw_max_size w \<and> dw_trigger_size w' = dw_trigger_size w \<and>
    unat (dw_size w) + granted fs = unat (dw_size w') + received ops"
  using assms
proof (induction ops arbitrary: w w' fs)
  case Nil
  then show ?case by (simp add: granted_def received_def)
next
  case (Cons op ops)
  show ?case
  proof (cases op)
    case (Received v)
    have "v \<le> dw_size w" using Cons.prems(2) Received by (simp add: dw_current_def)
    then have "unat (dw_size w - v) = unat (dw_size w) - unat v" "unat v \<le> unat (dw_size w)"
      by (simp_all add: unat_sub word_le_nat_alt)
    moreover from this have "dw_size w - v \<le> dw_max_size w"
      using Cons.prems(1) by (simp add: word_le_nat_alt)
    ultimately show ?thesis
      using Cons.IH [of "dw_dec v w" w' fs] Cons.prems Received by (auto simp: dw_dec_def received_def)
  next
    case Update
    show ?thesis
    proof (cases "need_update w")
      case False
      then show ?thesis using Cons.IH [of w w' fs] Cons.prems Update by (auto simp: dw_update_eq received_def split: prod.splits)
    next
      case True
      let ?w = "w\<lparr>dw_size := dw_max_size w\<rparr>"
      obtain fs' where fs': "window_run native fill i ?w ops = (w', fs')"
          "fs = update_window native fill (dw_max_size w - dw_size w) i # fs'"
        using Cons.prems(3) True Update by (auto simp: dw_update_eq split: prod.splits)
      have "unat (dw_max_size w - dw_size w) = unat (dw_max_size w) - unat (dw_size w)"
        "unat (dw_size w) \<le> unat (dw_max_size w)" using Cons.prems(1) by (simp_all add: unat_sub word_le_nat_alt)
      then show ?thesis
        using Cons.IH [of ?w w' fs'] fs' Cons.prems(2) True Update
        by (auto simp: granted_def received_def window_size_update_window)
    qed
  qed
qed

lemma window_run_frames:
  assumes "window_run native fill i w ops = (w', fs)" "f \<in> set fs"
  shows "\<exists>n. f = update_window native fill n i \<and> dw_trigger_size w \<le> n"
  using assms
proof (induction ops arbitrary: w fs)
  case (Cons op ops)
  then show ?case
    by (cases op) (force simp: dw_dec_def dw_update_eq need_update_def Let_def split: prod.splits if_splits)+
qed simp

lemma window_run_append:
  "window_run native fill i w (as @ bs) =
     (case window_run native fill i w as of (w', fs) \<Rightarrow>
        case window_run native fill i w' bs of (w'', fs') \<Rightarrow> (w'', fs @ fs'))"
proof (induction as arbitrary: w)
  case (Cons a as)
  then show ?case by (cases a) (auto split: prod.splits option.splits)
qed simp

section \<open>Properties\<close>

text \<open>
  C25: a receive window whose peer keeps to it never gives away more than it has: the current size
  stays within the maximum, and what has been received is what the WINDOW_UPDATE frames have
  returned plus what is used up. Every such frame returns at least the trigger size, and after a
  chance to update less than the trigger size is used up.
\<close>

theorem window_conservation:
  assumes "obeyed (dummy_window_new msize trigger) ops" "trigger \<noteq> 0"
    and "window_run native fill i (dummy_window_new msize trigger) ops = (w, fs)"
  shows "dw_current w \<le> msize \<and> received ops = granted fs + (unat msize - unat (dw_current w)) \<and>
    (\<forall>f\<in>set fs. \<exists>n. f = update_window native fill n i \<and> trigger \<le> n) \<and>
    (ops \<noteq> [] \<and> last ops = Update \<longrightarrow> \<not> need_update w)"
proof -
  let ?w = "dummy_window_new msize trigger"
  have b: "dw_size w \<le> msize" "unat msize + granted fs = unat (dw_size w) + received ops"
    "dw_max_size w = msize" "dw_trigger_size w = trigger"
    using window_run_balance [OF _ assms(1,3)] by (auto simp: dummy_window_new_def)
  moreover have "\<forall>f\<in>set fs. \<exists>n. f = update_window native fill n i \<and> trigger \<le> n"
    using window_run_frames [OF assms(3)] by (simp add: dummy_window_new_def)
  moreover have "\<not> need_update w" if "ops \<noteq> []" "last ops = Update"
  proof -
    have "ops = butlast ops @ [Update]" using that by (metis append_butlast_last_id)
    moreover obtain w1 fs1 where "window_run native fill i ?w (butlast ops) = (w1, fs1)" by fastforce
    ultimately have "w = fst (dw_update native fill i w1)"
      using assms(3) window_run_append [of native fill i ?w "butlast ops" "[Update]"] by (simp split: prod.splits)
    then show ?thesis using assms(2) b(4) by (auto simp: dw_update_eq need_update_def split: if_splits)
  qed
  moreover have "unat (dw_size w) \<le> unat msize" using b(1) by (simp add: word_le_nat_alt)
  ultimately show ?thesis by (simp add: dw_current_def)
qed

theorem window_conservation_witness:
  "received [Received 700, Update, Received 400, Update] = 1100 \<and>
   granted (snd (window_run little (\<lambda>_. 0) 0 (dummy_window_new 2000 1000) [Received 700, Update, Received 400, Update])) = 1100"
proof -
  let ?ops = "[Received 700, Update, Received 400, Update]"
  obtain w fs where run: "window_run little (\<lambda>_. 0) 0 (dummy_window_new 2000 1000) ?ops = (w, fs)" by fastforce
  then have "dw_size w = 2000"
    by (auto simp: dummy_window_new_def dw_update_eq need_update_def dw_dec_def split: if_splits)
  then show ?thesis
    using window_conservation [OF _ _ run] run
    by (simp add: received_def dummy_window_new_def dw_current_def dw_dec_def need_update_def)
qed

end
