(* ===== verification/Http2_Message.thy ===== *)
theory Http2_Message
  imports Http2_Frame_Builder Hpack_Header_Field
begin

text \<open>
  Requests and responses (\<open>lib/request.{h,cpp}\<close>, \<open>lib/response.{h,cpp}\<close>). A URL is a value of the third
  party: the strings that its accessors return. The deque of spans of a request points to the
  blocks of its body, which never change, so that the model keeps their bytes.
\<close>

section \<open>Requests\<close>

definition str_bytes :: "string \<Rightarrow> byte list" where
  "str_bytes s = map of_char s"

record url_view =
  url_scheme :: string
  url_authority :: string
  url_path :: string
  url_encoded_authority :: string
  url_encoded_resource :: string

datatype block = Block_String string | Block_Vector "byte list"

primrec block_bytes :: "block \<Rightarrow> byte list" where
  "block_bytes (Block_String s) = str_bytes s"
| "block_bytes (Block_Vector v) = v"

record request =
  rq_header_list :: header
  rq_body_list :: "block list"
  rq_span_list :: "byte list list"
  rq_size :: nat
  rq_timeout :: nat

definition request_empty :: request where
  "request_empty = \<lparr>rq_header_list = [], rq_body_list = [], rq_span_list = [], rq_size = 0, rq_timeout = 30000\<rparr>"

definition rq_header :: "header_field \<Rightarrow> request \<Rightarrow> request" where
  "rq_header h r = r\<lparr>rq_header_list := rq_header_list r @ [h]\<rparr>"

definition rq_headers :: "header_field list \<Rightarrow> request \<Rightarrow> request" where
  "rq_headers hs r = r\<lparr>rq_header_list := rq_header_list r @ hs\<rparr>"

definition rq_body :: "block \<Rightarrow> request \<Rightarrow> request" where
  "rq_body b r =
     (let span = block_bytes b
      in r\<lparr>rq_body_list := rq_body_list r @ [b], rq_span_list := rq_span_list r @ [span], rq_size := rq_size r + length span\<rparr>)"

definition rq_bodies :: "block list \<Rightarrow> request \<Rightarrow> request" where
  "rq_bodies bs r = fold rq_body bs r"

definition set_timeout :: "nat \<Rightarrow> request \<Rightarrow> request" where
  "set_timeout ms r = r\<lparr>rq_timeout := ms\<rparr>"

definition generic_url :: "url_view \<Rightarrow> request \<Rightarrow> request result" where
  "generic_url url owner =
     (if url_scheme url = [] then Inl invalid_argument
      else if url_authority url = [] then Inl invalid_argument
      else if url_path url = [] then Inl invalid_argument
      else
        bind_res (header_field_new (str_bytes '':scheme'') (str_bytes (url_scheme url)) DEFAULT) (\<lambda>h1.
          bind_res (header_field_new (str_bytes '':authority'') (str_bytes (url_encoded_authority url)) DEFAULT) (\<lambda>h2.
            bind_res (header_field_new (str_bytes '':path'') (str_bytes (url_encoded_resource url)) DEFAULT) (\<lambda>h3.
              Inr (rq_header h3 (rq_header h2 (rq_header h1 owner)))))))"

definition request_new :: "url_view \<Rightarrow> http_method \<Rightarrow> request result" where
  "request_new url m =
     bind_res (generic_url url request_empty) (\<lambda>r.
       bind_res (header_field_new (str_bytes '':method'') (str_bytes (to_string m)) DEFAULT) (\<lambda>h.
         Inr (rq_header h r)))"

text \<open>Moving: the new object and what is left of \<open>rhs\<close>.\<close>

definition request_move :: "request \<Rightarrow> request \<times> request" where
  "request_move rhs = (rhs, \<lparr>rq_header_list = [], rq_body_list = [], rq_span_list = [], rq_size = 0, rq_timeout = rq_timeout rhs\<rparr>)"

text \<open>\<open>pop_front\<close> of an empty deque is undefined.\<close>

fun commit_headers :: "nat \<Rightarrow> request \<Rightarrow> request result" where
  "commit_headers 0 r = Inr r"
| "commit_headers (Suc n) r =
     (case rq_header_list r of [] \<Rightarrow> Inl undefined_behaviour
      | h # hs \<Rightarrow> commit_headers n (r\<lparr>rq_header_list := hs\<rparr>))"

fun commit_body :: "nat \<Rightarrow> request \<Rightarrow> request result" where
  "commit_body 0 r = Inr r"
| "commit_body (Suc n) r =
     (case (rq_body_list r, rq_span_list r) of
        (b # bs, s # ss) \<Rightarrow> commit_body n (r\<lparr>rq_body_list := bs, rq_span_list := ss\<rparr>)
      | _ \<Rightarrow> Inl undefined_behaviour)"

section \<open>Responses\<close>

text \<open>The span \<open>data_view\<close> of a buffer with the memory around it.\<close>

definition buffer_span :: "(int \<Rightarrow> byte) \<Rightarrow> buffer \<Rightarrow> span" where
  "buffer_span out b =
     \<lparr>sp_mem = (\<lambda>i. if 0 \<le> i \<and> nat i < length (buf_memory b) then buf_memory b ! nat i else out i), sp_len = buf_offset b\<rparr>"

record response =
  rs_header_list :: header
  rs_status_view :: "byte list"
  rs_body_blocks :: "(buffer \<times> span) list"
  rs_size :: u64

definition response_new :: response where
  "response_new = \<lparr>rs_header_list = [], rs_status_view = [], rs_body_blocks = [], rs_size = 0\<rparr>"

definition insert_headers :: "header \<Rightarrow> response \<Rightarrow> response" where
  "insert_headers h r =
     (let r1 = r\<lparr>rs_header_list := rs_header_list r @ h\<rparr>
      in if rs_status_view r1 = []
         then case find (\<lambda>hf. hf_name hf = str_bytes '':status'') (rs_header_list r1) of
                Some hf \<Rightarrow> r1\<lparr>rs_status_view := hf_value hf\<rparr>
              | None \<Rightarrow> r1
         else r1)"

definition insert_body :: "byte_order \<Rightarrow> (int \<Rightarrow> byte) \<Rightarrow> buffer \<Rightarrow> response \<Rightarrow> response result" where
  "insert_body native out b r =
     bind_res (from_buffer native (buffer_span out b)) (\<lambda>analyzer.
       bind_res (get_frame native DATA analyzer) (\<lambda>frame.
         let span = frame_data native frame
         in Inr (r\<lparr>rs_body_blocks := rs_body_blocks r @ [(b, span)], rs_size := rs_size r + of_nat (sp_len span)\<rparr>)))"

definition body_range :: "response \<Rightarrow> byte list" where
  "body_range r = concat (map (span_bytes \<circ> snd) (rs_body_blocks r))"

text \<open>\<open>copy_body\<close>: what it has written to \<open>dst\<close> when it returns; the length of that is \<open>offset\<close>.\<close>

fun copy_body_loop :: "span list \<Rightarrow> nat \<Rightarrow> byte list \<Rightarrow> byte list" where
  "copy_body_loop [] len dst = dst"
| "copy_body_loop (s # ss) len dst =
     (if length dst = len then dst
      else let to_copy = min (sp_len s) (len - length dst) in copy_body_loop ss len (dst @ slice s 0 to_copy))"

definition copy_body :: "nat \<Rightarrow> response \<Rightarrow> byte list" where
  "copy_body len r = copy_body_loop (map snd (rs_body_blocks r)) len []"

definition body_as :: "response \<Rightarrow> byte list" where
  "body_as r = copy_body (unat (rs_size r)) r"

section \<open>Lemmas on requests\<close>

text \<open>The invariant of a request: the spans are those of the blocks, the size is their total.\<close>

definition request_ok :: "request \<Rightarrow> bool" where
  "request_ok r \<longleftrightarrow> rq_span_list r = map block_bytes (rq_body_list r) \<and> rq_size r = length (concat (rq_span_list r))"

lemma request_ok_simps [simp]:
  "request_ok request_empty"
  "request_ok (rq_header h r) = request_ok r"
  "request_ok (rq_headers hs r) = request_ok r"
  "request_ok (set_timeout ms r) = request_ok r"
  by (simp_all add: request_ok_def request_empty_def rq_header_def rq_headers_def set_timeout_def)

lemma request_ok_body: "request_ok r \<Longrightarrow> request_ok (rq_body b r)"
  by (simp add: request_ok_def rq_body_def Let_def)

lemma rq_bodies_eq:
  "rq_bodies bs r = r\<lparr>rq_body_list := rq_body_list r @ bs, rq_span_list := rq_span_list r @ map block_bytes bs,
     rq_size := rq_size r + length (concat (map block_bytes bs))\<rparr>"
  unfolding rq_bodies_def by (induction bs arbitrary: r) (simp_all add: rq_body_def Let_def)

lemma commit_headers_eq:
  "commit_headers n r = (if n \<le> length (rq_header_list r) then Inr (r\<lparr>rq_header_list := drop n (rq_header_list r)\<rparr>)
     else Inl undefined_behaviour)"
  by (induction n r rule: commit_headers.induct) (auto split: list.splits)

definition pseudo_headers :: "url_view \<Rightarrow> http_method \<Rightarrow> (string \<times> string) list" where
  "pseudo_headers url m = [('':scheme'', url_scheme url), ('':authority'', url_encoded_authority url),
     ('':path'', url_encoded_resource url), ('':method'', to_string m)]"

lemma request_new_iff:
  "request_new url m = Inr r \<longleftrightarrow>
     url_scheme url \<noteq> [] \<and> url_authority url \<noteq> [] \<and> url_path url \<noteq> [] \<and>
     (\<forall>(n, v)\<in>set (pseudo_headers url m). (length n + length v) * 8 div 5 < 2 ^ 24 - 1) \<and>
     r = rq_headers (map (\<lambda>(n, v). \<lparr>hf_name = str_bytes n, hf_value = str_bytes v, hf_type = DEFAULT\<rparr>) (pseudo_headers url m))
       request_empty"
  by (auto simp: request_new_def generic_url_def bind_res_Inr_iff header_field_new_ok pseudo_headers_def
      rq_header_def rq_headers_def request_empty_def str_bytes_def)

section \<open>Lemmas on responses\<close>

lemma span_bytes_buffer_span: "buffer_ok b \<Longrightarrow> span_bytes (buffer_span out b) = data_view b"
  by (rule nth_equalityI) (auto simp: buffer_span_def data_view_def buffer_ok_def)

lemma insert_body_wire:
  assumes "buffer_ok b" "data_view b = wire_frame native (frame_type_value DATA) flags sid payload" "length payload < 2 ^ 24"
    and "\<not> has_flag flags PADDED"
  shows "\<exists>span. insert_body native out b r =
      Inr (r\<lparr>rs_body_blocks := rs_body_blocks r @ [(b, span)], rs_size := rs_size r + of_nat (length payload)\<rparr>) \<and>
    span_bytes span = payload"
proof -
  let ?s = "buffer_span out b"
  have s: "span_bytes ?s = wire_frame native (frame_type_value DATA) flags sid payload"
    using assms(1,2) by (simp add: span_bytes_buffer_span)
  have d: "span_bytes (frame_data native ?s) = payload" using headers_block_wire(2) [OF s] assms(3,4) by simp
  then have "sp_len (frame_data native ?s) = length payload" by (metis length_span_bytes)
  then show ?thesis
    using analyze_wire(1) [OF s] get_frame_wire(1) [OF s] assms(3) d
    by (intro exI [where x = "frame_data native ?s"]) (simp add: insert_body_def Let_def)
qed

lemma copy_body_loop_all:
  "length dst + length (concat (map span_bytes ss)) \<le> len \<Longrightarrow> copy_body_loop ss len dst = dst @ concat (map span_bytes ss)"
proof (induction ss arbitrary: dst)
  case (Cons s ss)
  show ?case
  proof (cases "length dst = len")
    case True
    with Cons.prems have "sp_len s = 0" "concat (map span_bytes ss) = []" by auto
    with True show ?thesis by simp
  next
    case False
    have "slice s 0 (sp_len s) = span_bytes s" by (simp add: slice_def span_bytes_def)
    moreover have "min (sp_len s) (len - length dst) = sp_len s" using Cons.prems by simp
    ultimately show ?thesis using False Cons.prems Cons.IH [of "dst @ span_bytes s"] by simp
  qed
qed simp

lemma body_as_range: "unat (rs_size r) = length (body_range r) \<Longrightarrow> body_as r = body_range r"
  using copy_body_loop_all [of "[]" "map snd (rs_body_blocks r)" "length (body_range r)"]
  by (simp add: body_as_def copy_body_def body_range_def comp_def)

lemma insert_headers_status:
  assumes "rs_status_view r = (case find (\<lambda>hf. hf_name hf = str_bytes '':status'') (rs_header_list r) of
      Some hf \<Rightarrow> hf_value hf | None \<Rightarrow> [])"
  shows "rs_status_view (insert_headers h r) = (case find (\<lambda>hf. hf_name hf = str_bytes '':status'') (rs_header_list r @ h) of
      Some hf \<Rightarrow> hf_value hf | None \<Rightarrow> [])"
    and "insert_headers h r = r\<lparr>rs_header_list := rs_header_list r @ h, rs_status_view := rs_status_view (insert_headers h r)\<rparr>"
proof -
  have app: "find P (xs @ ys) = (case find P xs of None \<Rightarrow> find P ys | Some x \<Rightarrow> Some x)" for P and xs ys :: header
    by (induction xs) auto
  show "rs_status_view (insert_headers h r) = (case find (\<lambda>hf. hf_name hf = str_bytes '':status'') (rs_header_list r @ h) of
      Some hf \<Rightarrow> hf_value hf | None \<Rightarrow> [])"
    using assms by (auto simp: insert_headers_def Let_def app split: option.splits)
  show "insert_headers h r = r\<lparr>rs_header_list := rs_header_list r @ h, rs_status_view := rs_status_view (insert_headers h r)\<rparr>"
    by (auto simp: insert_headers_def Let_def split: option.splits)
qed

section \<open>Properties\<close>

text \<open>The calls that build up a request.\<close>

datatype build_op = Add_Header header_field | Add_Headers header | Add_Body block | Set_Timeout nat

primrec build_step :: "build_op \<Rightarrow> request \<Rightarrow> request" where
  "build_step (Add_Header h) r = rq_header h r"
| "build_step (Add_Headers hs) r = rq_headers hs r"
| "build_step (Add_Body b) r = rq_body b r"
| "build_step (Set_Timeout ms) r = set_timeout ms r"

definition added_headers :: "build_op list \<Rightarrow> header" where
  "added_headers ops = concat (map (\<lambda>op. case op of Add_Header h \<Rightarrow> [h] | Add_Headers hs \<Rightarrow> hs | _ \<Rightarrow> []) ops)"

definition added_body :: "build_op list \<Rightarrow> byte list list" where
  "added_body ops = concat (map (\<lambda>op. case op of Add_Body b \<Rightarrow> [block_bytes b] | _ \<Rightarrow> []) ops)"

definition plain_field :: "string \<times> string \<Rightarrow> header_field" where
  "plain_field nv = \<lparr>hf_name = str_bytes (fst nv), hf_value = str_bytes (snd nv), hf_type = DEFAULT\<rparr>"

lemma fold_build_step:
  "request_ok r \<Longrightarrow> request_ok (fold build_step ops r) \<and>
     rq_header_list (fold build_step ops r) = rq_header_list r @ added_headers ops \<and>
     rq_span_list (fold build_step ops r) = rq_span_list r @ added_body ops"
proof (induction ops arbitrary: r)
  case Nil
  then show ?case by (simp add: added_headers_def added_body_def)
next
  case (Cons op ops)
  have "request_ok (build_step op r)" using Cons.prems by (cases op) (simp_all add: request_ok_body)
  from Cons.IH [OF this] show ?case
    by (cases op) (simp_all add: added_headers_def added_body_def rq_header_def rq_headers_def rq_body_def set_timeout_def Let_def)
qed

lemma request_new_eq:
  "request_new url m =
     (if url_scheme url = [] \<or> url_authority url = [] \<or> url_path url = [] then Inl invalid_argument
      else if \<exists>(n, v)\<in>set (pseudo_headers url m). 2 ^ 24 - 1 \<le> (length n + length v) * 8 div 5 then Inl overflow_error
      else Inr (rq_headers (map plain_field (pseudo_headers url m)) request_empty))"
  by (auto simp: request_new_def generic_url_def bind_res_def header_field_new_def check_max_size_def pseudo_headers_def
      rq_header_def rq_headers_def request_empty_def str_bytes_def plain_field_def split: sum.splits if_splits)

text \<open>
  C26: a request is refused when the URL lacks a scheme, an authority or a path; otherwise it begins
  with the four pseudo-headers, and any sequence of calls that add to it keeps them first, keeps
  headers and body slices in the order of the calls, and keeps the size of the body right.
\<close>

theorem request_built:
  "request_new url m =
     (if url_scheme url = [] \<or> url_authority url = [] \<or> url_path url = [] then Inl invalid_argument
      else if \<exists>(n, v)\<in>set (pseudo_headers url m). 2 ^ 24 - 1 \<le> (length n + length v) * 8 div 5 then Inl overflow_error
      else Inr (rq_headers (map plain_field (pseudo_headers url m)) request_empty)) \<and>
   (let r = fold build_step ops (rq_headers (map plain_field (pseudo_headers url m)) request_empty)
    in rq_header_list r = map plain_field (pseudo_headers url m) @ added_headers ops \<and>
       rq_span_list r = added_body ops \<and> map block_bytes (rq_body_list r) = added_body ops \<and>
       rq_size r = length (concat (added_body ops)))"
proof -
  have "request_ok (rq_headers (map plain_field (pseudo_headers url m)) request_empty)" by simp
  from fold_build_step [OF this, of ops] show ?thesis
    unfolding request_new_eq by (auto simp: Let_def request_ok_def rq_headers_def request_empty_def)
qed

text \<open>What a stream does with the DATA frames it receives.\<close>

fun insert_bodies :: "byte_order \<Rightarrow> (int \<Rightarrow> byte) \<Rightarrow> buffer list \<Rightarrow> response \<Rightarrow> response result" where
  "insert_bodies native out [] r = Inr r"
| "insert_bodies native out (b # bs) r = bind_res (insert_body native out b r) (insert_bodies native out bs)"

definition data_buffer :: "byte_order \<Rightarrow> buffer \<Rightarrow> byte list \<Rightarrow> bool" where
  "data_buffer native b payload \<longleftrightarrow> buffer_ok b \<and> length payload < 2 ^ 24 \<and>
     (\<exists>flags sid. \<not> has_flag flags PADDED \<and> data_view b = wire_frame native (frame_type_value DATA) flags sid payload)"

lemma insert_bodies_blocks:
  assumes "list_all2 (data_buffer native) bs ps"
  shows "\<exists>blocks. insert_bodies native out bs r =
      Inr (r\<lparr>rs_body_blocks := rs_body_blocks r @ blocks, rs_size := rs_size r + of_nat (length (concat ps))\<rparr>) \<and>
    map (span_bytes \<circ> snd) blocks = ps"
  using assms
proof (induction arbitrary: r rule: list_all2_induct)
  case Nil
  show ?case by simp
next
  case (Cons b bs p ps)
  obtain span where s: "insert_body native out b r =
      Inr (r\<lparr>rs_body_blocks := rs_body_blocks r @ [(b, span)], rs_size := rs_size r + of_nat (length p)\<rparr>)" "span_bytes span = p"
    using insert_body_wire Cons.hyps(1) unfolding data_buffer_def by metis
  let ?r = "r\<lparr>rs_body_blocks := rs_body_blocks r @ [(b, span)], rs_size := rs_size r + of_nat (length p)\<rparr>"
  obtain blocks where "insert_bodies native out bs ?r =
      Inr (?r\<lparr>rs_body_blocks := rs_body_blocks ?r @ blocks, rs_size := rs_size ?r + of_nat (length (concat ps))\<rparr>)"
      "map (span_bytes \<circ> snd) blocks = ps" using Cons.IH by blast
  with s show ?case by (intro exI [where x = "(b, span) # blocks"]) (simp add: add.assoc comp_def)
qed

lemma fold_insert_headers:
  assumes "rs_status_view r = (case find (\<lambda>hf. hf_name hf = str_bytes '':status'') (rs_header_list r) of
      Some hf \<Rightarrow> hf_value hf | None \<Rightarrow> [])"
  shows "fold insert_headers hss r = r\<lparr>rs_header_list := rs_header_list r @ concat hss,
     rs_status_view := (case find (\<lambda>hf. hf_name hf = str_bytes '':status'') (rs_header_list r @ concat hss) of
       Some hf \<Rightarrow> hf_value hf | None \<Rightarrow> [])\<rparr>"
  using assms
proof (induction hss arbitrary: r)
  case (Cons h hss)
  note i = insert_headers_status [OF Cons.prems, of h]
  let ?r = "r\<lparr>rs_header_list := rs_header_list r @ h, rs_status_view := rs_status_view (insert_headers h r)\<rparr>"
  show ?case using Cons.IH [of ?r] i by simp
qed simp

text \<open>
  A response collects what its stream receives: after any blocks of header fields and any DATA
  frames, its fields are those fields in order, its status is the value of the first \<open>:status\<close>
  among them, and its body, read block by block or copied to one container, is the concatenation
  of the contents of the frames.
\<close>

lemma response_collects:
  assumes "list_all2 (data_buffer native) bs ps" "length (concat ps) < 2 ^ 64"
  shows "\<exists>r. insert_bodies native out bs (fold insert_headers hss response_new) = Inr r \<and>
    rs_header_list r = concat hss \<and>
    rs_status_view r = (case find (\<lambda>hf. hf_name hf = str_bytes '':status'') (concat hss) of Some hf \<Rightarrow> hf_value hf | None \<Rightarrow> []) \<and>
    unat (rs_size r) = length (concat ps) \<and> body_range r = concat ps \<and> body_as r = concat ps"
proof -
  let ?r = "fold insert_headers hss response_new"
  have r: "?r = response_new\<lparr>rs_header_list := concat hss, rs_status_view :=
      (case find (\<lambda>hf. hf_name hf = str_bytes '':status'') (concat hss) of Some hf \<Rightarrow> hf_value hf | None \<Rightarrow> [])\<rparr>"
    by (subst fold_insert_headers) (simp_all add: response_new_def)
  obtain blocks where b: "insert_bodies native out bs ?r =
      Inr (?r\<lparr>rs_body_blocks := rs_body_blocks ?r @ blocks, rs_size := rs_size ?r + of_nat (length (concat ps))\<rparr>)"
      "map (span_bytes \<circ> snd) blocks = ps" using insert_bodies_blocks [OF assms(1)] by blast
  have u: "unat (of_nat (length (concat ps)) :: u64) = length (concat ps)" using assms(2) by (simp only: unat_of_nat) simp
  have c: "copy_body_loop (map snd blocks) (length (concat ps)) [] = concat ps"
    using copy_body_loop_all [of "[]" "map snd blocks" "length (concat ps)"] b(2) by simp
  show ?thesis unfolding b(1) unfolding r using u b(2) c
    by (simp add: response_new_def body_range_def body_as_def copy_body_def)
qed

end
