(* ===== verification/Http2_Completion.thy ===== *)
theory Http2_Completion
  imports H2_Prelude "HOL-Library.Multiset"
begin

text \<open>
  Completion handlers. The library stores a handler given to it in a slot
  (\<open>boost::asio::any_completion_handler\<close>) and calls it once: it swaps the slot empty first. A handler
  is named by a number here, and a call is a value the operation returns. The locale states what
  the operations on one slot promise, and derives that no sequence of them loses a handler or
  calls one twice. The settings manager and the streams provide it.
\<close>

type_synonym handler = nat

primrec opt_list :: "'a option \<Rightarrow> 'a list" where
  "opt_list None = []"
| "opt_list (Some x) = [x]"

text \<open>A sequence of operations: the calls it makes, and the handlers it is given.\<close>

primrec run_ops :: "('op \<Rightarrow> 's \<Rightarrow> 's \<times> (handler \<times> 'r) list) \<Rightarrow> 'op list \<Rightarrow> 's \<Rightarrow> 's \<times> (handler \<times> 'r) list" where
  "run_ops step [] s = (s, [])"
| "run_ops step (op # ops) s =
     (let (s', calls) = step op s; (s'', calls') = run_ops step ops s' in (s'', calls @ calls'))"

primrec given_ops ::
  "('op \<Rightarrow> 's \<Rightarrow> 's \<times> (handler \<times> 'r) list) \<Rightarrow> ('op \<Rightarrow> 's \<Rightarrow> handler option) \<Rightarrow> 'op list \<Rightarrow> 's \<Rightarrow> handler list" where
  "given_ops step given [] s = []"
| "given_ops step given (op # ops) s = opt_list (given op s) @ given_ops step given ops (fst (step op s))"

locale one_shot =
  fixes step :: "'op \<Rightarrow> 's \<Rightarrow> 's \<times> (handler \<times> 'r) list"
    and given :: "'op \<Rightarrow> 's \<Rightarrow> handler option"
    and pending :: "'s \<Rightarrow> handler option"
  assumes conserve: "mset (opt_list (pending s)) + mset (opt_list (given op s)) =
    mset (map fst (snd (step op s))) + mset (opt_list (pending (fst (step op s))))"
begin

lemma run_conserve:
  "mset (opt_list (pending s)) + mset (given_ops step given ops s) =
     mset (map fst (snd (run_ops step ops s))) + mset (opt_list (pending (fst (run_ops step ops s))))"
proof (induction ops arbitrary: s)
  case (Cons op ops)
  obtain s' calls where s': "step op s = (s', calls)" by fastforce
  obtain s'' calls' where s'': "run_ops step ops s' = (s'', calls')" by fastforce
  have "mset (opt_list (pending s)) + mset (opt_list (given op s)) = mset (map fst calls) + mset (opt_list (pending s'))"
    using conserve [of s op] s' by simp
  moreover have "mset (opt_list (pending s')) + mset (given_ops step given ops s') =
      mset (map fst calls') + mset (opt_list (pending s''))" using Cons.IH [of s'] s'' by simp
  ultimately have "mset (opt_list (pending s)) + mset (opt_list (given op s)) + mset (given_ops step given ops s') =
      mset (map fst calls) + (mset (map fst calls') + mset (opt_list (pending s'')))"
    by (simp only: add.assoc)
  then show ?case using s' s'' by (simp add: add.assoc)
qed simp

lemma called_once:
  assumes "distinct (opt_list (pending s) @ given_ops step given ops s)"
  shows "distinct (map fst (snd (run_ops step ops s)) @ opt_list (pending (fst (run_ops step ops s))))"
    and "set (map fst (snd (run_ops step ops s))) \<union> set (opt_list (pending (fst (run_ops step ops s)))) =
      set (opt_list (pending s)) \<union> set (given_ops step given ops s)"
proof -
  let ?l = "opt_list (pending s) @ given_ops step given ops s"
  let ?r = "map fst (snd (run_ops step ops s)) @ opt_list (pending (fst (run_ops step ops s)))"
  have m: "mset ?l = mset ?r" using run_conserve [of s ops] by simp
  show "distinct ?r" using mset_eq_imp_distinct_iff [OF m] assms by blast
  show "set (map fst (snd (run_ops step ops s))) \<union> set (opt_list (pending (fst (run_ops step ops s)))) =
      set (opt_list (pending s)) \<union> set (given_ops step given ops s)"
    using mset_eq_setD [OF m] by simp
qed

end

end
