(* ===== verification/Http2_Stream.thy ===== *)
theory Http2_Stream
  imports Http2_Window Http2_Message Http2_Completion Hpack_Encoder
begin

text \<open>
  One stream of a connection (\<open>lib/stream.{h,cpp}\<close>): a request that is sent in HEADERS, CONTINUATION and
  DATA frames as the windows allow, and a response that is collected from what is received. Calls
  of the response handler are returned as values. An operation that may throw returns the state
  it leaves behind together with its result.
\<close>

section \<open>State\<close>

datatype http_state = IDLE | OPEN | HALF_CLOSED | CLOSED

record stream =
  stm_timer :: bool
  stm_http_id :: u32
  stm_is_scheduled :: bool
  stm_remote_window :: u64
  stm_local_window :: dummy_window
  stm_http_state :: http_state
  stm_is_continuation :: bool
  stm_send_body_offset :: u64
  stm_request :: request
  stm_response :: response
  stm_handler :: "handler option"

definition stream_new :: "u32 \<Rightarrow> u32 \<Rightarrow> u32 \<Rightarrow> request \<Rightarrow> handler \<Rightarrow> stream" where
  "stream_new http_id remote_size local_size r handler = \<lparr>
     stm_timer = False,
     stm_http_id = http_id,
     stm_is_scheduled = True,
     stm_remote_window = ucast remote_size,
     stm_local_window = dummy_window_new local_size (local_size div 4),
     stm_http_state = IDLE,
     stm_is_continuation = False,
     stm_send_body_offset = 0,
     stm_request = fst (request_move r),
     stm_response = response_new,
     stm_handler = Some handler\<rparr>"

definition has_tx_data :: "stream \<Rightarrow> bool" where
  "has_tx_data s \<longleftrightarrow> stm_http_state s = HALF_CLOSED \<or> need_update (stm_local_window s) \<or>
     rq_header_list (stm_request s) \<noteq> [] \<or> rq_body_list (stm_request s) \<noteq> []"

definition check_tx_data :: "stream \<Rightarrow> stream \<times> bool" where
  "check_tx_data s =
     (if \<not> stm_is_scheduled s \<and> has_tx_data s then (s\<lparr>stm_is_scheduled := True\<rparr>, True) else (s, False))"

definition is_finished :: "stream \<Rightarrow> bool" where
  "is_finished s \<longleftrightarrow> stm_http_state s = CLOSED"

section \<open>Receiving\<close>

type_synonym stream_calls = "(handler \<times> error_value \<times> response) list"

text \<open>What the defaulted move of a response leaves behind: empty deques, the other members as they were.\<close>

definition response_moved :: "response \<Rightarrow> response" where
  "response_moved r = r\<lparr>rs_header_list := [], rs_body_blocks := []\<rparr>"

definition stream_finished :: "error_value \<Rightarrow> stream \<Rightarrow> stream \<times> stream_calls" where
  "stream_finished ec s =
     (case stm_handler s of
        Some h \<Rightarrow> (s\<lparr>stm_handler := None, stm_response := response_moved (stm_response s)\<rparr>, [(h, ec, stm_response s)])
      | None \<Rightarrow> (s, []))"

definition stream_reset :: "error_value \<Rightarrow> stream \<Rightarrow> stream \<times> stream_calls" where
  "stream_reset ec s = stream_finished ec (s\<lparr>stm_http_state := CLOSED, stm_timer := False\<rparr>)"

text \<open>The callback of the timer of a request.\<close>

definition on_stream_timer :: "bool \<Rightarrow> stream \<Rightarrow> stream \<times> stream_calls" where
  "on_stream_timer aborted s =
     (if \<not> aborted then stream_finished (asio_error timed_out) (s\<lparr>stm_timer := False\<rparr>) else (s, []))"

definition end_stream :: "byte \<Rightarrow> stream \<Rightarrow> stream \<times> stream_calls" where
  "end_stream flags s =
     (if has_flag flags END_STREAM
      then stream_finished no_error (s\<lparr>stm_http_state := HALF_CLOSED, stm_timer := False\<rparr>)
      else (s, []))"

definition on_receive_data :: "byte_order \<Rightarrow> (int \<Rightarrow> byte) \<Rightarrow> buffer \<Rightarrow> stream \<Rightarrow> stream \<times> stream_calls result" where
  "on_receive_data native out buff s =
     (let s1 = s\<lparr>stm_local_window := dw_dec (of_nat (length (data_view buff))) (stm_local_window s)\<rparr>
      in case from_buffer native (buffer_span out buff) of
           Inl e \<Rightarrow> (s1, Inl e)
         | Inr analyzer \<Rightarrow>
             case (if payload_size native analyzer \<noteq> 0 then insert_body native out buff (stm_response s1)
                   else Inr (stm_response s1)) of
               Inl e \<Rightarrow> (s1, Inl e)
             | Inr r \<Rightarrow>
                 let (s2, calls) = end_stream (fh_flags (frame_header native analyzer)) (s1\<lparr>stm_response := r\<rparr>)
                 in (s2, Inr calls))"

definition on_receive_headers :: "header \<Rightarrow> byte \<Rightarrow> nat \<Rightarrow> stream \<Rightarrow> stream \<times> stream_calls" where
  "on_receive_headers h flags raw_size s =
     end_stream flags (s\<lparr>stm_local_window := dw_dec (of_nat raw_size) (stm_local_window s),
       stm_response := insert_headers h (stm_response s)\<rparr>)"

definition on_receive_reset :: "u32 \<Rightarrow> stream \<Rightarrow> stream \<times> stream_calls" where
  "on_receive_reset err s = stream_finished (make_error_code err) (s\<lparr>stm_http_state := CLOSED\<rparr>)"

definition on_receive_window_update :: "u32 \<Rightarrow> stream \<Rightarrow> stream \<times> stream_calls" where
  "on_receive_window_update increment s = (s\<lparr>stm_remote_window := stm_remote_window s + ucast increment\<rparr>, [])"

definition on_receive_continuation :: "header \<Rightarrow> byte \<Rightarrow> nat \<Rightarrow> stream \<Rightarrow> stream \<times> stream_calls" where
  "on_receive_continuation h flags raw_size s =
     (let s1 = s\<lparr>stm_local_window := dw_dec (of_nat raw_size) (stm_local_window s),
            stm_response := insert_headers h (stm_response s)\<rparr>
      in if has_flag flags END_STREAM then stream_finished no_error s1 else (s1, []))"

section \<open>Sending\<close>

text \<open>The environment of what allocates and encodes: byte order, what memory holds, stray iterators.\<close>

type_synonym tx_result = "(buffer list \<times> u64) result"

definition prepare_headers ::
  "byte_order \<Rightarrow> stray \<Rightarrow> (nat \<Rightarrow> byte) \<Rightarrow> u64 \<Rightarrow> encoder \<Rightarrow> stream \<Rightarrow> encoder \<times> stream \<times> tx_result" where
  "prepare_headers native stray fill limit enc s =
     (let rq = stm_request s
      in case hpack_encode stray fill enc (rq_header_list rq)
                (unat (if stm_is_continuation s then limit - 2 * of_nat header_size else limit - of_nat header_size)) of
           (enc', Inl e) \<Rightarrow> (enc', s, Inl e)
         | (enc', Inr (buffers, cnt)) \<Rightarrow>
             if cnt = 0 then (enc', s, Inr ([], 0))
             else case commit_headers cnt rq of
                 Inl e \<Rightarrow> (enc', s, Inl e)
               | Inr rq1 \<Rightarrow>
                   let buffer_size = length (contents buffers);
                       flags = (if rq_header_list rq1 = [] then END_HEADERS else 0);
                       (s1, frame) =
                         (if stm_is_continuation s
                          then (s\<lparr>stm_request := rq1\<rparr>,
                                continuation_frame native fill (stm_http_id s) flags (of_nat buffer_size))
                          else
                            let flags' = (if rq_body_list rq1 = [] then flags OR END_STREAM else flags)
                            in (s\<lparr>stm_request := rq1, stm_is_continuation := rq_header_list rq1 \<noteq> [], stm_timer := True\<rparr>,
                                headers_frame native fill (stm_http_id s) flags' (of_nat buffer_size)));
                       used = of_nat (length (data_view frame)) + of_nat buffer_size
                   in if stm_is_continuation s1 \<and> rq_header_list rq1 = [] \<and> rq_body_list rq1 = []
                      then let (last_buf, moved) = buffer_move (fst (data_frame native fill (stm_http_id s) END_STREAM 0))
                           in (enc', s1, Inr (frame # buffers @ [last_buf], used + of_nat (length (data_view moved))))
                      else (enc', s1, Inr (frame # buffers, used)))"

text \<open>
  The loop of \<open>prepare_body\<close>: \<open>pos\<close> and \<open>len\<close> are the payload left in the memory of the frame. Taking
  the first of no slices, or bytes from behind the end of one, is undefined, as is removing the
  first of no blocks.
\<close>

function body_loop ::
  "nat \<Rightarrow> u64 \<Rightarrow> byte list \<Rightarrow> block list \<Rightarrow> byte list list \<Rightarrow> u64 \<Rightarrow> (byte list \<times> block list \<times> byte list list \<times> u64) result" where
  "body_loop pos len mem blocks [] offset = Inl undefined_behaviour"
| "body_loop pos len mem blocks (s # ss) offset =
     (let to_copy = min len (of_nat (length s) - offset)
      in if unat offset + unat to_copy > length s \<or> offset + to_copy = of_nat (length s) \<and> blocks = []
         then Inl undefined_behaviour
         else
           let mem' = poke pos (take (unat to_copy) (drop (unat offset) s)) mem;
               offset1 = offset + to_copy;
               rest = (if offset1 = of_nat (length s) then (tl blocks, ss, 0) else (blocks, s # ss, offset1));
               len1 = len - to_copy
           in if len1 = 0 then Inr (mem', fst rest, fst (snd rest), snd (snd rest))
              else body_loop (pos + unat to_copy) len1 mem' (fst rest) (fst (snd rest)) (snd (snd rest)))"
  by pat_completeness auto
termination
proof (relation "measure (\<lambda>(pos, len, mem, blocks, ss, offset). length ss + unat len)", goal_cases)
  case 1
  show ?case by simp
next
  case (2 pos len mem blocks s ss offset to_copy mem' offset1 rest len1)
  have le: "to_copy \<le> len" using 2 by simp
  have len1: "unat len1 = unat len - unat to_copy" using le 2 by (simp add: unat_sub)
  have tc: "unat to_copy \<le> unat len" using le by (simp add: word_le_nat_alt)
  show ?case
  proof (cases "to_copy = 0")
    case True
    then have "of_nat (length s) - offset = 0" using 2 by (metis diff_zero min_def)
    then have "offset1 = of_nat (length s)" using True 2 by simp
    then show ?thesis using 2 len1 by simp
  next
    case False
    then have "0 < unat to_copy" by (simp add: unat_gt_0)
    then show ?thesis using 2 len1 tc by auto
  qed
qed

definition prepare_body ::
  "byte_order \<Rightarrow> (nat \<Rightarrow> byte) \<Rightarrow> u64 \<Rightarrow> stream \<Rightarrow> stream \<times> tx_result" where
  "prepare_body native fill limit s =
     (let rq = stm_request s;
          left_size = of_nat (rq_size rq) - stm_send_body_offset s;
          payload_sz = min (limit - of_nat header_size) left_size;
          is_last = (payload_sz = left_size);
          (frame, pos, len) = data_frame native fill (stm_http_id s) (if is_last then END_STREAM else 0) (ucast payload_sz);
          (sent, moved) = buffer_move frame
      in case body_loop pos (of_nat len) (buf_memory sent) (rq_body_list rq) (rq_span_list rq) (stm_send_body_offset s) of
           Inl e \<Rightarrow> (s, Inl e)
         | Inr (mem, blocks, spans, offset) \<Rightarrow>
             (s\<lparr>stm_request := rq\<lparr>rq_body_list := blocks, rq_span_list := spans\<rparr>, stm_send_body_offset := offset\<rparr>,
              Inr ([sent\<lparr>buf_memory := mem\<rparr>], of_nat (length (data_view moved)))))"

text \<open>The two \<open>if\<close> statements of \<open>get_tx_data\<close>.\<close>

definition tx_headers ::
  "byte_order \<Rightarrow> stray \<Rightarrow> (nat \<Rightarrow> byte) \<Rightarrow> u64 \<Rightarrow> encoder \<Rightarrow> stream \<Rightarrow> encoder \<times> stream \<times> tx_result" where
  "tx_headers native stray fill limit enc s =
     (if rq_header_list (stm_request s) \<noteq> [] then prepare_headers native stray fill limit enc s else (enc, s, Inr ([], 0)))"

definition tx_body :: "byte_order \<Rightarrow> (nat \<Rightarrow> byte) \<Rightarrow> u64 \<Rightarrow> u64 \<Rightarrow> stream \<Rightarrow> stream \<times> tx_result" where
  "tx_body native fill limit bytes_used s =
     (if rq_header_list (stm_request s) = [] \<and> rq_size (stm_request s) \<noteq> 0 \<and> limit - bytes_used \<ge> 2 * of_nat header_size
      then prepare_body native fill (limit - bytes_used) s
      else (s, Inr ([], 0)))"

text \<open>\<open>get_tx_data\<close>: the frames it appends to \<open>out\<close> and the bytes it reports as used.\<close>

definition get_tx_data ::
  "byte_order \<Rightarrow> stray \<Rightarrow> (nat \<Rightarrow> byte) \<Rightarrow> u64 \<Rightarrow> encoder \<Rightarrow> stream \<Rightarrow> encoder \<times> stream \<times> tx_result" where
  "get_tx_data native stray fill limit0 enc s0 =
     (let s = s0\<lparr>stm_is_scheduled := False\<rparr>
      in if stm_http_state s = HALF_CLOSED
         then
           let last_frame = reset native fill (error_code_value native IS_OK) (stm_http_id s)
           in (enc, s\<lparr>stm_http_state := CLOSED\<rparr>, Inr ([last_frame], of_nat (length (data_view last_frame))))
         else
           let limit = min limit0 (stm_remote_window s)
           in if limit \<le> 16 then (enc, s, Inr ([], 0))
              else
                let (w, upd_window) = dw_update native fill (stm_http_id s) (stm_local_window s);
                    out1 = opt_list upd_window;
                    used1 = of_nat (length (contents out1)) :: u64
                in case tx_headers native stray fill limit enc (s\<lparr>stm_http_state := OPEN, stm_local_window := w\<rparr>) of
                     (enc', s2, Inl e) \<Rightarrow> (enc', s2, Inl e)
                   | (enc', s2, Inr (out2, n2)) \<Rightarrow>
                       (case tx_body native fill limit (used1 + n2) s2 of
                          (s3, Inl e) \<Rightarrow> (enc', s3, Inl e)
                        | (s3, Inr (out3, n3)) \<Rightarrow>
                            let bytes_used = used1 + n2 + n3
                            in (enc', s3\<lparr>stm_remote_window := stm_remote_window s3 - bytes_used\<rparr>,
                                Inr (out1 @ out2 @ out3, bytes_used))))"

declare body_loop.simps [simp del]

section \<open>Sending a body\<close>

lemma data_frame_eq:
  assumes "\<not> has_flag flags PADDED"
  shows "data_frame native fill sid flags n =
    (\<lparr>buf_offset = 9 + unat n, buf_maxsize = 9 + unat n,
      buf_memory = wire_header native n 0 flags sid @ map fill [9..<9 + unat n]\<rparr>, 9, unat n)"
  using assms by (simp add: data_frame_def build_def buffer_defs put_header header_size_def Let_def drop_map)

lemma frame_flags [simp]:
  "\<not> has_flag END_STREAM PADDED" "\<not> has_flag 0 f" "has_flag END_STREAM END_STREAM"
  by (simp_all add: has_flag_def END_STREAM_def PADDED_def)

lemma body_loop_single:
  assumes "unat offset + unat len \<le> length v" "length v < 2 ^ 64"
  shows "body_loop pos len mem [b] [v] offset =
    Inr (poke pos (take (unat len) (drop (unat offset) v)) mem,
      (if unat offset + unat len = length v then ([], [], 0) else ([b], [v], offset + len)))"
proof -
  have v: "unat (of_nat (length v) :: u64) = length v" using assms(2) by (simp only: unat_of_nat) simp
  have diff: "unat (of_nat (length v) - offset) = length v - unat offset"
    using assms(1) by (simp add: unat_sub word_le_nat_alt v)
  have "len \<le> of_nat (length v) - offset" using assms(1) by (simp add: word_le_nat_alt diff)
  then have m: "min len (of_nat (length v) - offset) = len" by simp
  have sum: "unat (offset + len) = unat offset + unat len"
    using assms unat_add_lem [of offset len] by simp
  then have "offset + len = of_nat (length v) \<longleftrightarrow> unat offset + unat len = length v"
    by (metis v word_unat_eq_iff)
  then show ?thesis using assms(1) by (subst body_loop.simps) (simp add: m Let_def)
qed

lemma ucast_of_nat_small: "n < 2 ^ 32 \<Longrightarrow> (ucast (of_nat n :: u64) :: u32) = of_nat n \<and> unat (of_nat n :: u32) = n \<and> unat (of_nat n :: u64) = n"
  by (simp add: ucast_of_nat_u32 unat_of_nat)

text \<open>One call of \<open>prepare_body\<close> on a body of one slice: the next DATA frame, with END_STREAM when it is the last.\<close>

lemma prepare_body_single:
  assumes rq: "rq_body_list (stm_request s) = [b]" "rq_span_list (stm_request s) = [v]" "rq_size (stm_request s) = length v"
    and off: "unat (stm_send_body_offset s) = off"
    and v: "length v < 2 ^ 64" "off < length v"
    and limit: "18 \<le> limit" "limit \<le> 2 ^ 24"
    and n: "n = min (unat limit - 9) (length v - off)"
  shows "\<exists>f. prepare_body native fill limit s =
      ((if off + n = length v
        then s\<lparr>stm_request := (stm_request s)\<lparr>rq_body_list := [], rq_span_list := []\<rparr>, stm_send_body_offset := 0\<rparr>
        else s\<lparr>stm_send_body_offset := stm_send_body_offset s + of_nat n\<rparr>), Inr ([f], 0)) \<and>
    data_view f = wire_frame native 0 (if off + n = length v then END_STREAM else 0) (stm_http_id s) (take n (drop off v))"
proof -
  let ?off = "stm_send_body_offset s"
  have ul: "18 \<le> unat limit" "unat limit \<le> 2 ^ 24" using limit by (simp_all add: word_le_nat_alt)
  have uv: "unat (of_nat (length v) :: u64) = length v" using v(1) by (simp only: unat_of_nat) simp
  have left: "unat (of_nat (length v) - ?off) = length v - off"
    using v(2) by (simp add: unat_sub word_le_nat_alt uv off)
  have lim: "unat (limit - 9) = unat limit - 9" using limit(1) by (simp add: unat_sub word_le_nat_alt)
  have pay: "min (limit - 9) (of_nat (length v) - ?off) = of_nat n"
    by (rule word_unat_eq_iff [THEN iffD2])
      (use ul in \<open>simp add: n min_def word_le_nat_alt left lim unat_of_nat\<close>)
  have n24: "n \<le> 2 ^ 24 - 9" using ul by (simp add: n)
  then have small: "(ucast (of_nat n :: u64) :: u32) = of_nat n" "unat (of_nat n :: u32) = n" "unat (of_nat n :: u64) = n"
    using ucast_of_nat_small [of n] by simp_all
  have last_iff: "of_nat n = of_nat (length v) - ?off \<longleftrightarrow> off + n = length v"
    using v(2) by (auto simp: word_unat_eq_iff left small(3))
  have len: "off + n \<le> length v" using v(2) by (simp add: n)
  let ?flags = "if off + n = length v then END_STREAM else 0"
  define h where "h = wire_header native (of_nat n) 0 ?flags (stm_http_id s)"
  have frame: "data_frame native fill (stm_http_id s) ?flags (of_nat n) =
      (\<lparr>buf_offset = 9 + n, buf_maxsize = 9 + n, buf_memory = h @ map fill [9..<9 + n]\<rparr>, 9, n)"
    using data_frame_eq [of ?flags native fill "stm_http_id s" "of_nat n"] by (simp add: small h_def)
  let ?p = "take n (drop (off) v)"
  have lp: "length ?p = n" using v(2) by (simp add: n)
  have mem: "poke 9 ?p (h @ map fill [9..<9 + n]) = h @ ?p" using lp by (simp add: poke_def h_def)
  have view: "data_view \<lparr>buf_offset = 9 + n, buf_maxsize = 9 + n, buf_memory = h @ ?p\<rparr> = wire_frame native 0 ?flags (stm_http_id s) ?p"
    using lp wire_frame_eq [OF lp] by (simp add: data_view_def h_def header_size_def)
  note loop = body_loop_single [of ?off "of_nat n" v 9 "h @ map fill [9..<9 + n]" b, unfolded small off mem, OF len v(1)]
  have "prepare_body native fill limit s =
    ((if off + n = length v
        then s\<lparr>stm_request := (stm_request s)\<lparr>rq_body_list := [], rq_span_list := []\<rparr>, stm_send_body_offset := 0\<rparr>
        else s\<lparr>stm_send_body_offset := ?off + of_nat n\<rparr>),
      Inr ([\<lparr>buf_offset = 9 + n, buf_maxsize = 9 + n, buf_memory = h @ ?p\<rparr>], 0))"
    unfolding prepare_body_def Let_def rq
    by (simp add: header_size_def pay last_iff small frame buffer_move_def data_view_def loop) (simp flip: rq)
  then show ?thesis using view by blast
qed

text \<open>The calls of \<open>get_tx_data\<close> that a body takes, with the limits of each.\<close>

fun tx_run :: "byte_order \<Rightarrow> stray \<Rightarrow> (nat \<Rightarrow> byte) \<Rightarrow> u64 list \<Rightarrow> encoder \<Rightarrow> stream \<Rightarrow> (stream \<times> buffer list) result" where
  "tx_run native stray fill [] enc s = Inr (s, [])"
| "tx_run native stray fill (l # ls) enc s =
     (if \<not> has_tx_data s then Inr (s, [])
      else case get_tx_data native stray fill l enc s of
          (enc', s', Inl e) \<Rightarrow> Inl e
        | (enc', s', Inr (out, used)) \<Rightarrow>
            bind_res (tx_run native stray fill ls enc' s') (\<lambda>(s'', out'). Inr (s'', out @ out')))"

fun body_frames :: "byte_order \<Rightarrow> u32 \<Rightarrow> nat list \<Rightarrow> byte list \<Rightarrow> byte list list" where
  "body_frames native sid [] v = []"
| "body_frames native sid (c # cs) v =
     (if v = [] then []
      else wire_frame native 0 (if length v \<le> c then END_STREAM else 0) sid (take c v) # body_frames native sid cs (drop c v))"

text \<open>A stream that has sent its headers and has a body of one slice to send.\<close>

definition sending_body :: "block \<Rightarrow> stream \<Rightarrow> bool" where
  "sending_body b s \<longleftrightarrow> rq_header_list (stm_request s) = [] \<and> rq_body_list (stm_request s) = [b] \<and>
     rq_span_list (stm_request s) = [block_bytes b] \<and> rq_size (stm_request s) = length (block_bytes b) \<and>
     unat (stm_send_body_offset s) < length (block_bytes b) \<and> length (block_bytes b) < 2 ^ 64 \<and>
     stm_http_state s \<noteq> HALF_CLOSED \<and> \<not> need_update (stm_local_window s)"

lemma get_tx_data_body:
  assumes s: "sending_body b s" and l: "18 \<le> min l (stm_remote_window s)" "l \<le> 2 ^ 24"
    and off: "unat (stm_send_body_offset s) = off"
    and n: "n = min (unat (min l (stm_remote_window s)) - 9) (length (block_bytes b) - off)"
  shows "\<exists>f s'. get_tx_data native stray fill l enc s = (enc, s', Inr ([f], 0)) \<and>
    data_view f = wire_frame native 0 (if off + n = length (block_bytes b) then END_STREAM else 0) (stm_http_id s)
      (take n (drop off (block_bytes b))) \<and>
    stm_remote_window s' = stm_remote_window s \<and> stm_http_id s' = stm_http_id s \<and>
    (if off + n = length (block_bytes b) then \<not> has_tx_data s'
     else sending_body b s' \<and> unat (stm_send_body_offset s') = off + n)"
proof -
  let ?s = "s\<lparr>stm_is_scheduled := False, stm_http_state := OPEN\<rparr>"
  let ?l = "min l (stm_remote_window s)"
  have lim: "\<not> ?l \<le> 16" "?l \<le> 2 ^ 24" using l by (auto simp: min_def word_le_nat_alt split: if_splits)
  have "\<exists>f. prepare_body native fill ?l ?s = ((if off + n = length (block_bytes b)
        then ?s\<lparr>stm_request := (stm_request s)\<lparr>rq_body_list := [], rq_span_list := []\<rparr>, stm_send_body_offset := 0\<rparr>
        else ?s\<lparr>stm_send_body_offset := stm_send_body_offset s + of_nat n\<rparr>), Inr ([f], 0)) \<and>
      data_view f = wire_frame native 0 (if off + n = length (block_bytes b) then END_STREAM else 0) (stm_http_id s)
        (take n (drop off (block_bytes b)))"
    using prepare_body_single [of ?s b "block_bytes b" off ?l n native fill] s l(1) lim(2) off n
    by (simp add: sending_body_def cong: if_cong)
  then obtain f where f: "prepare_body native fill ?l ?s = ((if off + n = length (block_bytes b)
        then ?s\<lparr>stm_request := (stm_request s)\<lparr>rq_body_list := [], rq_span_list := []\<rparr>, stm_send_body_offset := 0\<rparr>
        else ?s\<lparr>stm_send_body_offset := stm_send_body_offset s + of_nat n\<rparr>), Inr ([f], 0))"
      "data_view f = wire_frame native 0 (if off + n = length (block_bytes b) then END_STREAM else 0) (stm_http_id s)
        (take n (drop off (block_bytes b)))" by blast
  have upd: "dw_update native fill (stm_http_id s) (stm_local_window s) = (stm_local_window s, None)"
    using s by (simp add: sending_body_def dw_update_eq)
  have same: "s\<lparr>stm_is_scheduled := False, stm_http_state := OPEN, stm_local_window := stm_local_window s\<rparr> = ?s" by simp
  have pos: "rq_size (stm_request s) \<noteq> 0" using s by (auto simp: sending_body_def)
  have get: "get_tx_data native stray fill l enc s = (enc, fst (prepare_body native fill ?l ?s), Inr ([f], 0))"
    using s lim l(1) f(1) pos
    by (simp add: get_tx_data_def tx_headers_def tx_body_def Let_def upd sending_body_def header_size_def)
  have "off + n \<le> length (block_bytes b)" "n \<le> 2 ^ 24"
    using s lim(2) by (auto simp: sending_body_def off n word_le_nat_alt)
  then have "unat (stm_send_body_offset s + of_nat n) = off + n" if "off + n \<noteq> length (block_bytes b)"
  proof -
    have "unat (of_nat n :: u64) = n" using \<open>n \<le> 2 ^ 24\<close> by (simp add: unat_of_nat)
    moreover have "off + n < 2 ^ 64" using \<open>off + n \<le> _\<close> s by (simp add: sending_body_def)
    ultimately show ?thesis using unat_add_lem [of "stm_send_body_offset s" "of_nat n"] by (simp add: off)
  qed
  then show ?thesis
    using get f s \<open>off + n \<le> _\<close>
    by (intro exI [where x = f] exI [where x = "fst (prepare_body native fill ?l ?s)"])
      (auto simp: sending_body_def has_tx_data_def)
qed

lemma body_frames_Nil [simp]: "body_frames native sid cs [] = []"
  by (cases cs) simp_all

lemma drop_wire_frame: "drop header_size (wire_frame native t flags sid payload) = payload"
  by (simp add: wire_frame_def header_size_def)

lemma body_frames_content: "concat (map (drop header_size) (body_frames native sid cs v)) = take (sum_list cs) v"
proof (induction cs arbitrary: v)
  case (Cons c cs)
  then show ?case by (cases "v = []") (simp_all add: drop_wire_frame take_add)
qed simp

lemma tx_run_idle: "\<not> has_tx_data s \<Longrightarrow> tx_run native stray fill ls enc s = Inr (s, [])"
  by (cases ls) simp_all

lemma tx_run_body:
  assumes "sending_body b s" "\<forall>l\<in>set ls. 18 \<le> min l (stm_remote_window s) \<and> l \<le> 2 ^ 24" "unat (stm_send_body_offset s) = off"
  defines "cap \<equiv> \<lambda>s l. unat (min l (stm_remote_window s)) - 9"
  shows "\<exists>s' fs. tx_run native stray fill ls enc s = Inr (s', fs) \<and>
    map data_view fs = body_frames native (stm_http_id s) (map (cap s) ls) (drop off (block_bytes b)) \<and>
    stm_remote_window s' = stm_remote_window s \<and>
    has_tx_data s' = (sum_list (map (cap s) ls) < length (block_bytes b) - off)"
  using assms(1-3)
proof (induction ls arbitrary: s off)
  case Nil
  then show ?case by (simp add: sending_body_def has_tx_data_def)
next
  case (Cons l ls)
  let ?v = "block_bytes b"
  let ?n = "min (cap s l) (length ?v - off)"
  have off: "off < length ?v" using Cons.prems by (auto simp: sending_body_def)
  have tx: "has_tx_data s" using Cons.prems(1) by (simp add: sending_body_def has_tx_data_def)
  obtain f s' where g: "get_tx_data native stray fill l enc s = (enc, s', Inr ([f], 0))"
      "data_view f = wire_frame native 0 (if off + ?n = length ?v then END_STREAM else 0) (stm_http_id s) (take ?n (drop off ?v))"
      "stm_remote_window s' = stm_remote_window s" "stm_http_id s' = stm_http_id s"
      "if off + ?n = length ?v then \<not> has_tx_data s' else sending_body b s' \<and> unat (stm_send_body_offset s') = off + ?n"
    using get_tx_data_body [OF Cons.prems(1), of l off ?n native stray fill enc] Cons.prems(2,3) by (auto simp: cap_def)
  have view: "data_view f = wire_frame native 0 (if length ?v - off \<le> cap s l then END_STREAM else 0) (stm_http_id s)
      (take (cap s l) (drop off ?v))"
    using g(2) off by (auto simp: min_def split: if_splits)
  show ?case
  proof (cases "length ?v - off \<le> cap s l")
    case True
    then have "\<not> has_tx_data s'" using g(5) off by (simp add: min_def)
    then show ?thesis using True tx g view off by (simp add: tx_run_idle)
  next
    case False
    then have n: "?n = cap s l" "off + cap s l < length ?v" by simp_all
    have s': "sending_body b s'" "unat (stm_send_body_offset s') = off + cap s l" using g(5) n by auto
    have "\<forall>l\<in>set ls. 18 \<le> min l (stm_remote_window s') \<and> l \<le> 2 ^ 24" using Cons.prems(2) g(3) by simp
    from Cons.IH [OF s'(1) this s'(2)] obtain s'' fs where r: "tx_run native stray fill ls enc s' = Inr (s'', fs)"
        "map data_view fs = body_frames native (stm_http_id s') (map (cap s') ls) (drop (off + cap s l) ?v)"
        "stm_remote_window s'' = stm_remote_window s'"
        "has_tx_data s'' = (sum_list (map (cap s') ls) < length ?v - (off + cap s l))" by blast
    have "cap s' = cap s" using g(3) by (simp add: cap_def fun_eq_iff)
    then show ?thesis using tx g r view n False off
      by (auto simp: drop_drop add.commute)
  qed
qed

section \<open>The response handler\<close>

datatype stream_op =
    Receive_Data buffer
  | Receive_Headers header byte nat
  | Receive_Reset u32
  | Receive_Window_Update u32
  | Receive_Continuation header byte nat
  | Reset error_value
  | Stream_Timer bool
  | Get_Tx_Data u64 encoder

fun stream_step ::
  "byte_order \<Rightarrow> stray \<Rightarrow> (nat \<Rightarrow> byte) \<Rightarrow> (int \<Rightarrow> byte) \<Rightarrow> stream_op \<Rightarrow> stream \<Rightarrow> stream \<times> stream_calls" where
  "stream_step native stray fill out (Receive_Data b) s =
     (case on_receive_data native out b s of (s', Inl e) \<Rightarrow> (s', []) | (s', Inr calls) \<Rightarrow> (s', calls))"
| "stream_step native stray fill out (Receive_Headers h flags n) s = on_receive_headers h flags n s"
| "stream_step native stray fill out (Receive_Reset err) s = on_receive_reset err s"
| "stream_step native stray fill out (Receive_Window_Update inc) s = on_receive_window_update inc s"
| "stream_step native stray fill out (Receive_Continuation h flags n) s = on_receive_continuation h flags n s"
| "stream_step native stray fill out (Reset ec) s = stream_reset ec s"
| "stream_step native stray fill out (Stream_Timer aborted) s = on_stream_timer aborted s"
| "stream_step native stray fill out (Get_Tx_Data limit enc) s = (fst (snd (get_tx_data native stray fill limit enc s)), [])"

text \<open>The handler is called or kept.\<close>

definition handled :: "stream \<Rightarrow> stream \<times> stream_calls \<Rightarrow> bool" where
  "handled s r \<longleftrightarrow> map fst (snd r) @ opt_list (stm_handler (fst r)) = opt_list (stm_handler s)"

lemma handled_finished: "stm_handler s' = stm_handler s \<Longrightarrow> handled s (stream_finished ec s')"
  by (cases "stm_handler s") (auto simp: handled_def stream_finished_def)

lemma handled_end_stream: "stm_handler s' = stm_handler s \<Longrightarrow> handled s (end_stream flags s')"
  using handled_finished by (auto simp: end_stream_def) (simp add: handled_def)

lemma prepare_headers_handler: "stm_handler (fst (snd (prepare_headers native stray fill limit enc s))) = stm_handler s"
  by (auto simp: prepare_headers_def Let_def split: prod.splits sum.splits)

lemma prepare_body_handler: "stm_handler (fst (prepare_body native fill limit s)) = stm_handler s"
  by (auto simp: prepare_body_def Let_def split: prod.splits sum.splits)

lemma tx_headers_handler: "tx_headers native stray fill l enc s = (enc', s', r) \<Longrightarrow> stm_handler s' = stm_handler s"
  using prepare_headers_handler [of native stray fill l enc s] by (auto simp: tx_headers_def split: if_splits)

lemma tx_body_handler: "tx_body native fill l u s = (s', r) \<Longrightarrow> stm_handler s' = stm_handler s"
  using prepare_body_handler [of native fill "l - u" s] by (auto simp: tx_body_def split: if_splits)

lemma get_tx_data_handler: "stm_handler (fst (snd (get_tx_data native stray fill limit enc s))) = stm_handler s"
  unfolding get_tx_data_def Let_def
  by (auto split: prod.splits sum.splits dest!: tx_headers_handler tx_body_handler)

lemma handled_same: "stm_handler s' = stm_handler s \<Longrightarrow> handled s (s', [])"
  by (simp add: handled_def)

lemma handled_data: "handled s (stream_step native stray fill out (Receive_Data b) s)"
proof -
  define s1 where "s1 = s\<lparr>stm_local_window := dw_dec (of_nat (length (data_view b))) (stm_local_window s)\<rparr>"
  have s1: "stm_handler s1 = stm_handler s" by (simp add: s1_def)
  have e: "handled s (x, y)" if "end_stream flags s' = (x, y)" "stm_handler s' = stm_handler s1" for flags s' x y
    using handled_end_stream [of s' s flags] that s1 by simp
  show ?thesis using handled_same [OF s1]
    by (auto simp: on_receive_data_def Let_def simp flip: s1_def split: sum.splits prod.splits elim!: e)
qed

lemma handled_step: "handled s (stream_step native stray fill out op s)"
proof (cases op)
  case (Receive_Data b)
  then show ?thesis using handled_data by simp
qed (auto simp: on_receive_headers_def on_receive_reset_def on_receive_window_update_def on_receive_continuation_def
    stream_reset_def on_stream_timer_def Let_def handled_end_stream handled_finished get_tx_data_handler handled_same)

interpretation stm: one_shot "stream_step native stray fill out" "\<lambda>op s. None" stm_handler
proof
  fix s :: stream and op
  have "mset (map fst (snd (stream_step native stray fill out op s)) @ opt_list (stm_handler (fst (stream_step native stray fill out op s)))) =
      mset (opt_list (stm_handler s))"
    using handled_step [of s native stray fill out op] unfolding handled_def by (rule arg_cong)
  then show "mset (opt_list (stm_handler s)) + mset (opt_list None) =
    mset (map fst (snd (stream_step native stray fill out op s))) +
    mset (opt_list (stm_handler (fst (stream_step native stray fill out op s))))"
    by simp
qed

section \<open>Properties\<close>

text \<open>
  C17: a request body of one slice is sent completely: the calls of \<open>get_tx_data\<close> turn it into DATA
  frames as large as the limits allow, in order and without gap, END_STREAM is set on the last of
  them only, and as soon as the limits add up to its length the stream has nothing more to send.
  The remote window does not shrink meanwhile: the bytes of the body are not counted.
\<close>

theorem single_slice_body_sent:
  assumes "sending_body b s" "stm_send_body_offset s = 0"
    and "\<forall>l\<in>set limits. 18 \<le> min l (stm_remote_window s) \<and> l \<le> 2 ^ 24"
  shows "\<exists>s' frames. tx_run native stray fill limits enc s = Inr (s', frames) \<and>
    (let caps = map (\<lambda>l. unat (min l (stm_remote_window s)) - 9) limits
     in map data_view frames = body_frames native (stm_http_id s) caps (block_bytes b) \<and>
        concat (map (drop header_size \<circ> data_view) frames) = take (sum_list caps) (block_bytes b) \<and>
        has_tx_data s' = (sum_list caps < length (block_bytes b))) \<and>
    stm_remote_window s' = stm_remote_window s"
proof -
  let ?caps = "map (\<lambda>l. unat (min l (stm_remote_window s)) - 9) limits"
  obtain s' fs where r: "tx_run native stray fill limits enc s = Inr (s', fs)"
      "map data_view fs = body_frames native (stm_http_id s) ?caps (block_bytes b)"
      "stm_remote_window s' = stm_remote_window s" "has_tx_data s' = (sum_list ?caps < length (block_bytes b))"
    using tx_run_body [OF assms(1,3), of 0 native stray fill enc] assms(2) by auto
  have "concat (map (drop header_size \<circ> data_view) fs) = take (sum_list ?caps) (block_bytes b)"
    using body_frames_content [of native "stm_http_id s" ?caps "block_bytes b", folded r(2)] by simp
  then show ?thesis using r by (simp add: Let_def)
qed

definition example_stream :: stream where
  "example_stream = (stream_new 1 65535 65535 (rq_body (Block_Vector [1, 2, 3]) request_empty) 5)"

theorem single_slice_body_sent_witness:
  "\<exists>s' frames. tx_run little (\<lambda>_ _. 0) (\<lambda>_. 0) [18, 18] encoder_new example_stream = Inr (s', frames) \<and>
     map data_view frames = [wire_frame little 0 END_STREAM 1 [1, 2, 3]] \<and> \<not> has_tx_data s'"
proof -
  have s: "sending_body (Block_Vector [1, 2, 3]) example_stream" "stm_send_body_offset example_stream = 0"
    "stm_remote_window example_stream = 65535" "stm_http_id example_stream = 1"
    by (simp_all add: sending_body_def example_stream_def stream_new_def request_move_def rq_body_def request_empty_def
        Let_def need_update_def dummy_window_new_def)
  have "\<forall>l\<in>set [18, 18]. 18 \<le> min l (stm_remote_window example_stream) \<and> l \<le> 2 ^ 24" by (simp add: s)
  from single_slice_body_sent [OF s(1,2) this, of little "\<lambda>_ _. 0" "\<lambda>_. 0" encoder_new] show ?thesis
    by (fastforce simp: s Let_def)
qed

text \<open>
  Once its body has been sent, a stream whose receive window wants an update is asked again for
  data, and \<open>prepare_body\<close> then takes the first of no slices: the size of the body still counts as
  something to send, which is undefined behaviour.
\<close>

lemma sent_body_undefined:
  assumes "rq_header_list (stm_request s) = []" "rq_span_list (stm_request s) = []" "rq_size (stm_request s) \<noteq> 0"
    and "stm_http_state s \<noteq> HALF_CLOSED" "need_update (stm_local_window s)" "31 \<le> min limit (stm_remote_window s)"
  shows "has_tx_data s \<and> snd (snd (get_tx_data native stray fill limit enc s)) = Inl undefined_behaviour"
proof -
  let ?l = "min limit (stm_remote_window s)"
  let ?w = "update_window native fill (dw_max_size (stm_local_window s) - dw_size (stm_local_window s)) (stm_http_id s)"
  have len: "length (data_view ?w) = 13" by (simp add: update_window_bytes header_size_def)
  have "\<not> ?l \<le> 16" using assms(6) by (simp add: word_le_nat_alt)
  moreover have "18 \<le> ?l - 13"
  proof -
    have "unat (?l - 13) = unat ?l - 13" using assms(6) by (simp add: unat_sub word_le_nat_alt)
    then show ?thesis using assms(6) by (simp add: word_le_nat_alt)
  qed
  moreover have ub: "r = Inl undefined_behaviour"
    if "prepare_body native fill l (s\<lparr>stm_is_scheduled := a, stm_http_state := st, stm_local_window := w\<rparr>) = (s', r)" for l a st w s' r
    using that by (auto simp: prepare_body_def assms(2) body_loop.simps Let_def split: prod.splits)
  ultimately show ?thesis
    using assms(1-5) len
    by (auto simp: has_tx_data_def get_tx_data_def tx_headers_def tx_body_def Let_def dw_update_eq header_size_def
        split: prod.splits dest!: ub)
qed

text \<open>
  C18: the response handler of a stream is called at most once, whatever is received and sent and
  whether or not the timer fires, and it is kept until then.
\<close>

theorem response_handler_once:
  assumes "run_ops (stream_step native stray fill out) ops (stream_new sid remote local rq h) = (s, calls)"
  shows "map fst calls = (if stm_handler s = None then [h] else []) \<and> (stm_handler s = None \<or> stm_handler s = Some h)"
proof -
  let ?s = "stream_new sid remote local rq h"
  have "given_ops (stream_step native stray fill out) (\<lambda>op s. None) ops ?s = []" for ops
  proof -
    have "given_ops step (\<lambda>op s. None) ops s = []" for step :: "stream_op \<Rightarrow> stream \<Rightarrow> stream \<times> stream_calls" and s
      by (induction ops arbitrary: s) simp_all
    then show ?thesis .
  qed
  then have m: "{#h#} = mset (map fst calls) + mset (opt_list (stm_handler s))"
    using stm.run_conserve [of ?s native stray fill out ops] assms by (simp add: stream_new_def)
  show ?thesis
  proof (cases "stm_handler s")
    case None
    with m have "mset (map fst calls) = {#h#}" by simp
    then show ?thesis using None by (simp only: mset_single_iff) simp
  next
    case (Some h')
    with m have "h' = h \<and> calls = []" by (simp add: single_is_union)
    then show ?thesis using Some by simp
  qed
qed

theorem response_handler_once_witness:
  "map fst (snd (run_ops (stream_step little (\<lambda>_ _. 0) (\<lambda>_. 0) (\<lambda>_. 0))
     [Receive_Headers [] END_STREAM 9, Stream_Timer False, Receive_Reset 0, Reset no_error] example_stream)) = [5]"
proof -
  let ?r = "run_ops (stream_step little (\<lambda>_ _. 0) (\<lambda>_. 0) (\<lambda>_. 0))
     [Receive_Headers [] END_STREAM 9, Stream_Timer False, Receive_Reset 0, Reset no_error] example_stream"
  have "stm_handler (fst ?r) = None"
    by (simp add: on_receive_headers_def end_stream_def stream_finished_def on_stream_timer_def on_receive_reset_def
        stream_reset_def example_stream_def stream_new_def)
  then show ?thesis
    using response_handler_once [of little "\<lambda>_ _. 0" "\<lambda>_. 0" "\<lambda>_. 0"
        "[Receive_Headers [] END_STREAM 9, Stream_Timer False, Receive_Reset 0, Reset no_error]" 1 65535 65535
        "rq_body (Block_Vector [1, 2, 3]) request_empty" 5 "fst ?r" "snd ?r"]
    by (simp only: prod.collapse flip: example_stream_def) simp
qed

text \<open>
  A stream that both sides have finished while its receive window wants an update is not done.
  The call that sends RST_STREAM closes it, but it still has data to send, and the next call opens
  it again and sends a WINDOW_UPDATE for the closed stream.
\<close>

lemma finished_stream_reopens:
  assumes "stm_http_state s = HALF_CLOSED" "need_update (stm_local_window s)"
    and "rq_header_list (stm_request s) = []" "rq_size (stm_request s) = 0"
    and "16 < min limit (stm_remote_window s)"
  shows "\<exists>s1 s2. get_tx_data native stray fill limit' enc s =
      (enc, s1, Inr ([reset native fill (error_code_value native IS_OK) (stm_http_id s)], 13)) \<and>
    stm_http_state s1 = CLOSED \<and> snd (check_tx_data s1) \<and>
    get_tx_data native stray fill limit enc (fst (check_tx_data s1)) = (enc, s2, Inr ([update_window native fill
      (dw_max_size (stm_local_window s) - dw_size (stm_local_window s)) (stm_http_id s)], 13)) \<and>
    stm_http_state s2 = OPEN"
proof -
  have "\<not> min limit (stm_remote_window s) \<le> 16" using assms(5) by (simp add: not_le del: min_less_iff_conj)
  moreover have "length (data_view (reset native fill e i)) = 13" "length (data_view (update_window native fill n i)) = 13" for e i n
    by (simp_all add: reset_bytes update_window_bytes header_size_def)
  ultimately show ?thesis
    using assms(1-4)
    by (simp add: get_tx_data_def check_tx_data_def has_tx_data_def tx_headers_def tx_body_def dw_update_eq Let_def)
qed

end
