(* ===== verification/Http2_Registry.thy ===== *)
theory Http2_Registry
  imports Http2_Stream
begin

text \<open>
  The streams of a connection (\<open>lib/stream_registry.{h,cpp}\<close>). A \<open>stream::ptr\<close> is an address in a heap of
  streams, so that the map, the queue and the callers share and change one object. The queue may
  hold null pointers, which \<open>erase\<close> leaves there. The mutex is not part of the model: an operation
  is one step.
\<close>

section \<open>State\<close>

text \<open>\<open>std::map\<close>: entries in the order of their keys.\<close>

fun map_find :: "u32 \<Rightarrow> (u32 \<times> nat) list \<Rightarrow> nat option" where
  "map_find k [] = None"
| "map_find k ((k', v) # m) = (if k = k' then Some v else map_find k m)"

fun map_emplace :: "u32 \<Rightarrow> nat \<Rightarrow> (u32 \<times> nat) list \<Rightarrow> (u32 \<times> nat) list" where
  "map_emplace k v [] = [(k, v)]"
| "map_emplace k v ((k', v') # m) =
     (if k < k' then (k, v) # (k', v') # m else if k = k' then (k', v') # m else (k', v') # map_emplace k v m)"

definition map_erase :: "u32 \<Rightarrow> (u32 \<times> nat) list \<Rightarrow> (u32 \<times> nat) list" where
  "map_erase k m = filter (\<lambda>(k', v). k' \<noteq> k) m"

record registry =
  reg_heap :: "nat \<Rightarrow> stream"
  reg_next :: nat
  reg_map :: "(u32 \<times> nat) list"
  reg_queue :: "nat option list"

definition some_stream :: stream where
  "some_stream = stream_new 0 0 0 request_empty 0"

definition registry_new :: registry where
  "registry_new = \<lparr>reg_heap = (\<lambda>_. some_stream), reg_next = 0, reg_map = [], reg_queue = []\<rparr>"

text \<open>\<open>new stream\<close>.\<close>

definition alloc_stream :: "stream \<Rightarrow> registry \<Rightarrow> registry \<times> nat" where
  "alloc_stream s r = (r\<lparr>reg_heap := (reg_heap r)(reg_next r := s), reg_next := Suc (reg_next r)\<rparr>, reg_next r)"

section \<open>Operations\<close>

definition add_stream :: "u32 \<Rightarrow> nat \<Rightarrow> registry \<Rightarrow> registry" where
  "add_stream i sptr r = r\<lparr>reg_map := map_emplace i sptr (reg_map r), reg_queue := reg_queue r @ [Some sptr]\<rparr>"

definition get_stream :: "u32 \<Rightarrow> registry \<Rightarrow> nat option" where
  "get_stream i r = map_find i (reg_map r)"

definition has_data :: "registry \<Rightarrow> bool" where
  "has_data r \<longleftrightarrow> reg_queue r \<noteq> []"

definition enqueue :: "nat \<Rightarrow> registry \<Rightarrow> registry" where
  "enqueue sptr r = r\<lparr>reg_queue := reg_queue r @ [Some sptr]\<rparr>"

text \<open>\<open>find_if\<close> and \<open>it->reset()\<close> of \<open>erase\<close>; the predicate dereferences every pointer up to the match.\<close>

fun reset_first :: "(nat \<Rightarrow> stream) \<Rightarrow> u32 \<Rightarrow> nat option list \<Rightarrow> nat option list result" where
  "reset_first heap i [] = Inr []"
| "reset_first heap i (None # q) = Inl undefined_behaviour"
| "reset_first heap i (Some a # q) =
     (if i = stm_http_id (heap a) then Inr (None # q)
      else bind_res (reset_first heap i q) (\<lambda>q'. Inr (Some a # q')))"

definition erase :: "u32 \<Rightarrow> registry \<Rightarrow> registry result" where
  "erase i r =
     bind_res (reset_first (reg_heap r) i (reg_queue r)) (\<lambda>q. Inr (r\<lparr>reg_queue := q, reg_map := map_erase i (reg_map r)\<rparr>))"

fun scheduled_stream :: "nat option list \<Rightarrow> (nat \<times> nat option list) option" where
  "scheduled_stream [] = None"
| "scheduled_stream (Some a # q) = Some (a, q)"
| "scheduled_stream (None # q) = scheduled_stream q"

lemma scheduled_stream_shorter: "scheduled_stream q = Some (a, q') \<Longrightarrow> length q' < length q"
  by (induction q rule: scheduled_stream.induct) auto

text \<open>
  The loop of \<open>get_data\<close>. \<open>next_queue\<close> is local and lost when a stream throws. The queue gets shorter in
  every round, so that the loop ends.
\<close>

function get_data_loop ::
  "byte_order \<Rightarrow> stray \<Rightarrow> (nat \<Rightarrow> byte) \<Rightarrow> u64 \<Rightarrow> registry \<Rightarrow> encoder \<Rightarrow> u64 \<Rightarrow> nat option list \<Rightarrow> buffer list \<Rightarrow>
     registry \<times> encoder \<times> (nat option list \<times> buffer list \<times> u64) result" where
  "get_data_loop native stray fill limit r enc bytes_used next_queue out =
     (if limit < 16 then (r, enc, Inr (next_queue, out, bytes_used))
      else case scheduled_stream (reg_queue r) of
          None \<Rightarrow> (r\<lparr>reg_queue := []\<rparr>, enc, Inr (next_queue, out, bytes_used))
        | Some (a, q) \<Rightarrow>
            let r1 = r\<lparr>reg_queue := q\<rparr>
            in if \<not> has_tx_data (reg_heap r1 a)
               then get_data_loop native stray fill limit r1 enc bytes_used next_queue out
               else case get_tx_data native stray fill (limit - bytes_used) enc (reg_heap r1 a) of
                   (enc', s, Inl e) \<Rightarrow> (r1\<lparr>reg_heap := (reg_heap r1)(a := s)\<rparr>, enc', Inl e)
                 | (enc', s, Inr (frames, n)) \<Rightarrow>
                     (case check_tx_data s of (s', again) \<Rightarrow>
                        get_data_loop native stray fill limit (r1\<lparr>reg_heap := (reg_heap r1)(a := s')\<rparr>) enc' (bytes_used + n)
                          (if again then next_queue @ [Some a] else next_queue) (out @ frames)))"
  by pat_completeness auto
termination
  by (relation "measure (\<lambda>(native, stray, fill, limit, r, enc, bytes_used, next_queue, out). length (reg_queue r))")
    (auto dest: scheduled_stream_shorter)

declare get_data_loop.simps [simp del]

definition get_data ::
  "byte_order \<Rightarrow> stray \<Rightarrow> (nat \<Rightarrow> byte) \<Rightarrow> u64 \<Rightarrow> encoder \<Rightarrow> registry \<Rightarrow> registry \<times> encoder \<times> tx_result" where
  "get_data native stray fill limit enc r =
     (case get_data_loop native stray fill limit r enc 0 [] [] of
        (r', enc', Inl e) \<Rightarrow> (r', enc', Inl e)
      | (r', enc', Inr (next_queue, out, bytes_used)) \<Rightarrow>
          (r'\<lparr>reg_queue := reg_queue r' @ next_queue\<rparr>, enc', Inr (out, bytes_used)))"

fun reset_streams :: "error_value \<Rightarrow> (u32 \<times> nat) list \<Rightarrow> (nat \<Rightarrow> stream) \<Rightarrow> (nat \<Rightarrow> stream) \<times> stream_calls" where
  "reset_streams ec [] heap = (heap, [])"
| "reset_streams ec ((k, a) # m) heap =
     (case stream_reset ec (heap a) of (s, calls) \<Rightarrow>
        case reset_streams ec m (heap(a := s)) of (heap', calls') \<Rightarrow> (heap', calls @ calls'))"

definition reg_reset :: "error_value \<Rightarrow> registry \<Rightarrow> registry \<times> stream_calls" where
  "reg_reset ec r =
     (case reset_streams ec (reg_map r) (reg_heap r) of (heap, calls) \<Rightarrow>
        (r\<lparr>reg_queue := [], reg_heap := heap, reg_map := []\<rparr>, calls))"

text \<open>
  \<open>PrivateClient::invoke_for_stream\<close> (\<open>lib/base_client.cpp\<close>): a receiving member function on the stream of
  an identifier, after which a finished stream is erased and one with data to send is queued.
\<close>

definition invoke_for_stream ::
  "u32 \<Rightarrow> (stream \<Rightarrow> stream \<times> stream_calls result) \<Rightarrow> registry \<Rightarrow> registry \<times> (bool \<times> stream_calls) result" where
  "invoke_for_stream stream_id member r =
     (case get_stream stream_id r of
        None \<Rightarrow> (r, Inr (False, []))
      | Some a \<Rightarrow>
          (case member (reg_heap r a) of
             (s, Inl e) \<Rightarrow> (r\<lparr>reg_heap := (reg_heap r)(a := s)\<rparr>, Inl e)
           | (s, Inr calls) \<Rightarrow>
               if is_finished s
               then let r1 = r\<lparr>reg_heap := (reg_heap r)(a := s)\<rparr>
                    in (case erase stream_id r1 of Inl e \<Rightarrow> (r1, Inl e) | Inr r2 \<Rightarrow> (r2, Inr (True, calls)))
               else (case check_tx_data s of (s', again) \<Rightarrow>
                      let r1 = r\<lparr>reg_heap := (reg_heap r)(a := s')\<rparr>
                      in (if again then enqueue a r1 else r1, Inr (True, calls)))))"

section \<open>The map and the queue\<close>

lemma map_find_in: "map_find k m = Some a \<Longrightarrow> (k, a) \<in> set m"
  by (induction k m rule: map_find.induct) (auto split: if_splits)

lemma map_find_None: "map_find k m = None \<longleftrightarrow> k \<notin> fst ` set m"
  by (induction k m rule: map_find.induct) auto

lemma set_map_emplace: "map_find k m = None \<Longrightarrow> set (map_emplace k v m) = insert (k, v) (set m)"
  by (induction k v m rule: map_emplace.induct) (auto split: if_splits)

lemma sorted_map_emplace:
  "sorted_wrt (<) (map fst m) \<Longrightarrow> map_find k m = None \<Longrightarrow> sorted_wrt (<) (map fst (map_emplace k v m))"
proof (induction k v m rule: map_emplace.induct)
  case (2 k v k' v' m)
  have m: "\<forall>x\<in>set m. k' < fst x" "sorted_wrt (<) (map fst m)" using "2.prems"(1) by simp_all
  show ?case
  proof (cases k k' rule: linorder_cases)
    case less
    then show ?thesis using m less_trans [OF less] by simp
  next
    case equal
    then show ?thesis using "2.prems" by simp
  next
    case greater
    then have n: "map_find k m = None" "\<not> k < k'" "k \<noteq> k'" using "2.prems"(2) by (auto split: if_splits)
    have "\<forall>x\<in>set (map_emplace k v m). k' < fst x" using m(1) greater by (simp add: set_map_emplace [OF n(1)])
    then show ?thesis using "2.IH" [OF n(2,3) m(2) n(1)] n(2,3) by simp
  qed
qed simp

lemma map_find_erase: "k \<noteq> k' \<Longrightarrow> map_find k (map_erase k' m) = map_find k m"
  unfolding map_erase_def by (induction k m rule: map_find.induct) auto

lemma set_map_erase: "set (map_erase k m) = {(k', a) \<in> set m. k' \<noteq> k}"
  by (auto simp: map_erase_def)

lemma sorted_map_erase: "sorted_wrt (<) (map fst m) \<Longrightarrow> sorted_wrt (<) (map fst (map_erase k m))"
  unfolding map_erase_def by (induction m) auto

text \<open>The pointers of the queue that are not null.\<close>

definition somes :: "'a option list \<Rightarrow> 'a list" where
  "somes q = concat (map opt_list q)"

lemma somes_simps [simp]:
  "somes [] = []" "somes (None # q) = somes q" "somes (Some a # q) = a # somes q" "somes (p @ q) = somes p @ somes q"
  by (simp_all add: somes_def)

lemma scheduled_stream_somes:
  "scheduled_stream q = None \<Longrightarrow> somes q = []"
  "scheduled_stream q = Some (a, q') \<Longrightarrow> somes q = a # somes q'"
  by (induction q rule: scheduled_stream.induct) auto

lemma reset_first_somes:
  assumes "reset_first heap i q = Inr q'" "distinct (map (stm_http_id \<circ> heap) (somes q))"
  shows "somes q' = filter (\<lambda>a. stm_http_id (heap a) \<noteq> i) (somes q)"
  using assms
proof (induction q arbitrary: q')
  case (Cons x q)
  show ?case
  proof (cases x)
    case (Some a)
    show ?thesis
    proof (cases "i = stm_http_id (heap a)")
      case True
      then have "filter (\<lambda>a. stm_http_id (heap a) \<noteq> i) (somes q) = somes q"
        using Cons.prems(2) Some by (auto simp: filter_id_conv image_iff)
      then show ?thesis using True Cons.prems(1) Some by auto
    next
      case False
      then obtain q1 where "reset_first heap i q = Inr q1" "q' = Some a # q1"
        using Cons.prems(1) Some by (auto simp: bind_res_Inr_iff)
      then show ?thesis using Cons.IH [of q1] Cons.prems(2) False Some by simp
    qed
  qed (use Cons.prems in simp)
qed simp

section \<open>The invariant\<close>

text \<open>
  The map is ordered and has every stream under its own identifier; the queue has registered
  streams only, each at most once; and for a registered stream being scheduled, having data to
  send and being in the queue are the same.
\<close>

definition stream_in :: "registry \<Rightarrow> nat list \<Rightarrow> u32 \<times> nat \<Rightarrow> bool" where
  "stream_in r q = (\<lambda>(k, a). a < reg_next r \<and> stm_http_id (reg_heap r a) = k \<and>
     dw_size (stm_local_window (reg_heap r a)) \<le> dw_max_size (stm_local_window (reg_heap r a)) \<and>
     stm_is_scheduled (reg_heap r a) = (a \<in> set q) \<and> has_tx_data (reg_heap r a) = (a \<in> set q))"

definition registry_inv :: "registry \<Rightarrow> nat list \<Rightarrow> bool" where
  "registry_inv r q \<longleftrightarrow> sorted_wrt (<) (map fst (reg_map r)) \<and> distinct q \<and> set q \<subseteq> snd ` set (reg_map r) \<and>
     (\<forall>ka\<in>set (reg_map r). stream_in r q ka)"

definition registry_ok :: "registry \<Rightarrow> bool" where
  "registry_ok r \<longleftrightarrow> registry_inv r (somes (reg_queue r))"

lemma registry_inv_unique:
  assumes "registry_inv r q" "(k, a) \<in> set (reg_map r)" "(k', a') \<in> set (reg_map r)"
  shows "a = a' \<longleftrightarrow> k = k'"
proof -
  have dist: "distinct (map fst (reg_map r))" using assms(1) by (simp add: registry_inv_def strict_sorted_iff)
  have "stm_http_id (reg_heap r a) = k" "stm_http_id (reg_heap r a') = k'"
    using assms by (auto simp: registry_inv_def stream_in_def)
  moreover have "k = k' \<Longrightarrow> a = a'" using eq_key_imp_eq_value [OF dist] assms(2,3) by blast
  ultimately show ?thesis by blast
qed

lemma registry_inv_queue: "registry_inv r q \<Longrightarrow> a \<in> set q \<Longrightarrow> \<exists>k. (k, a) \<in> set (reg_map r)"
  by (force simp: registry_inv_def)

text \<open>Changing one registered stream, and with it whether it is in the queue.\<close>

lemma registry_inv_update:
  assumes "registry_inv r q" "(k, a) \<in> set (reg_map r)"
    and "stm_http_id s = k" "dw_size (stm_local_window s) \<le> dw_max_size (stm_local_window s)"
    and "distinct q'" "set q' - {a} = set q - {a}"
    and "stm_is_scheduled s = (a \<in> set q')" "has_tx_data s = (a \<in> set q')"
  shows "registry_inv (r\<lparr>reg_heap := (reg_heap r)(a := s), reg_queue := x\<rparr>) q'"
proof -
  have "stream_in (r\<lparr>reg_heap := (reg_heap r)(a := s), reg_queue := x\<rparr>) q' ka" if "ka \<in> set (reg_map r)" for ka
  proof (cases "snd ka = a")
    case True
    then have "ka = (k, a)" using registry_inv_unique [OF assms(1,2), of "fst ka" a] that by (cases ka) auto
    moreover have "a < reg_next r" using assms(1,2) by (auto simp: registry_inv_def stream_in_def)
    ultimately show ?thesis using assms(3,4,7,8) by (simp add: stream_in_def)
  next
    case False
    then have "snd ka \<in> set q' \<longleftrightarrow> snd ka \<in> set q" using assms(6) by blast
    moreover have "stream_in r q ka" using assms(1) that by (auto simp: registry_inv_def)
    ultimately show ?thesis using False by (cases ka) (simp add: stream_in_def)
  qed
  moreover have "x \<in> snd ` set (reg_map r)" if "x \<in> set q'" for x
  proof (cases "x = a")
    case True
    then show ?thesis using assms(2) by (intro rev_image_eqI [of "(k, a)"]) simp_all
  next
    case False
    then have "x \<in> set q" using that assms(6) by blast
    then show ?thesis using assms(1) by (auto simp: registry_inv_def)
  qed
  ultimately show ?thesis using assms(1,5) by (simp add: registry_inv_def subset_iff)
qed

lemma registry_inv_queue_irrelevant [simp]: "registry_inv (r\<lparr>reg_queue := x\<rparr>) q = registry_inv r q"
  by (simp add: registry_inv_def stream_in_def)

section \<open>What the operations of a stream keep\<close>

lemma prepare_headers_keeps:
  assumes "prepare_headers native stray fill limit enc s = (enc', s', r)"
  shows "stm_http_id s' = stm_http_id s \<and> stm_is_scheduled s' = stm_is_scheduled s \<and> stm_local_window s' = stm_local_window s"
  using assms by (auto simp: prepare_headers_def Let_def split: prod.splits sum.splits if_splits)

lemma prepare_body_keeps:
  assumes "prepare_body native fill limit s = (s', r)"
  shows "stm_http_id s' = stm_http_id s \<and> stm_is_scheduled s' = stm_is_scheduled s \<and> stm_local_window s' = stm_local_window s"
  using assms by (auto simp: prepare_body_def Let_def split: prod.splits sum.splits)

lemma tx_headers_keeps:
  assumes "tx_headers native stray fill limit enc s = (enc', s', r)"
  shows "stm_http_id s' = stm_http_id s \<and> stm_is_scheduled s' = stm_is_scheduled s \<and> stm_local_window s' = stm_local_window s"
  using assms prepare_headers_keeps [of native stray fill limit enc s] by (auto simp: tx_headers_def split: if_splits)

lemma tx_body_keeps:
  assumes "tx_body native fill limit u s = (s', r)"
  shows "stm_http_id s' = stm_http_id s \<and> stm_is_scheduled s' = stm_is_scheduled s \<and> stm_local_window s' = stm_local_window s"
  using assms prepare_body_keeps [of native fill "limit - u" s] by (auto simp: tx_body_def split: if_splits)

abbreviation window_ok :: "stream \<Rightarrow> bool" where
  "window_ok s \<equiv> dw_size (stm_local_window s) \<le> dw_max_size (stm_local_window s)"

lemma get_tx_data_keeps:
  assumes "get_tx_data native stray fill limit enc s = (enc', s', r)" "window_ok s"
  shows "stm_http_id s' = stm_http_id s \<and> \<not> stm_is_scheduled s' \<and> window_ok s'"
  using assms unfolding get_tx_data_def Let_def
  by (auto simp: dw_update_eq split: prod.splits sum.splits if_splits dest!: tx_headers_keeps tx_body_keeps)

lemma check_tx_data_keeps:
  assumes "check_tx_data s = (s', again)" "\<not> stm_is_scheduled s"
  shows "stm_http_id s' = stm_http_id s \<and> stm_local_window s' = stm_local_window s \<and>
    again = has_tx_data s \<and> stm_is_scheduled s' = again \<and> has_tx_data s' = again"
  using assms by (auto simp: check_tx_data_def has_tx_data_def split: if_splits)

text \<open>The member functions that receive, and the bytes they take from the local window.\<close>

definition plain :: "(stream \<Rightarrow> stream \<times> stream_calls) \<Rightarrow> stream \<Rightarrow> stream \<times> stream_calls result" where
  "plain f s = (case f s of (s', calls) \<Rightarrow> (s', Inr calls))"

fun receive_member :: "byte_order \<Rightarrow> (int \<Rightarrow> byte) \<Rightarrow> stream_op \<Rightarrow> stream \<Rightarrow> stream \<times> stream_calls result" where
  "receive_member native out (Receive_Data b) = on_receive_data native out b"
| "receive_member native out (Receive_Headers h flags n) = plain (on_receive_headers h flags n)"
| "receive_member native out (Receive_Reset err) = plain (on_receive_reset err)"
| "receive_member native out (Receive_Window_Update inc) = plain (on_receive_window_update inc)"
| "receive_member native out (Receive_Continuation h flags n) = plain (on_receive_continuation h flags n)"
| "receive_member native out _ = plain (\<lambda>s. (s, []))"

fun received_bytes :: "stream_op \<Rightarrow> nat" where
  "received_bytes (Receive_Data b) = length (data_view b)"
| "received_bytes (Receive_Headers h flags n) = n"
| "received_bytes (Receive_Continuation h flags n) = n"
| "received_bytes _ = 0"

lemma dw_dec_keeps:
  assumes "n \<le> unat (dw_size w)" "dw_size w \<le> dw_max_size w"
  shows "dw_size (dw_dec (of_nat n) w) \<le> dw_max_size (dw_dec (of_nat n) w)" "need_update w \<Longrightarrow> need_update (dw_dec (of_nat n) w)"
proof -
  have n: "unat (of_nat n :: u32) = n" using assms(1) unat_u32_less [of "dw_size w"] by (simp add: unat_of_nat)
  then have sub: "unat (dw_size w - of_nat n) = unat (dw_size w) - n" using assms(1) by (simp add: unat_sub word_le_nat_alt)
  show le: "dw_size (dw_dec (of_nat n) w) \<le> dw_max_size (dw_dec (of_nat n) w)"
    using assms sub by (simp add: dw_dec_def word_le_nat_alt)
  have "unat (dw_max_size w - dw_size w) \<le> unat (dw_max_size w - (dw_size w - of_nat n))"
    using assms le sub by (simp add: dw_dec_def unat_sub word_le_nat_alt)
  then show "need_update (dw_dec (of_nat n) w)" if "need_update w"
    using that by (simp add: need_update_def dw_dec_def word_le_nat_alt)
qed

lemma stream_finished_keeps:
  "stream_finished ec s = (s', calls) \<Longrightarrow> stm_http_id s' = stm_http_id s \<and> stm_is_scheduled s' = stm_is_scheduled s \<and>
     stm_local_window s' = stm_local_window s \<and> stm_http_state s' = stm_http_state s \<and> stm_request s' = stm_request s"
  by (auto simp: stream_finished_def split: option.splits)

lemma end_stream_keeps:
  "end_stream flags s = (s', calls) \<Longrightarrow> stm_http_id s' = stm_http_id s \<and> stm_is_scheduled s' = stm_is_scheduled s \<and>
     stm_local_window s' = stm_local_window s \<and> (stm_http_state s' = stm_http_state s \<or> stm_http_state s' = HALF_CLOSED) \<and>
     stm_request s' = stm_request s"
  by (auto simp: end_stream_def split: if_splits dest!: stream_finished_keeps)

lemma receive_data_keeps:
  assumes "on_receive_data native out b s = (s', r)"
  shows "stm_http_id s' = stm_http_id s \<and> stm_is_scheduled s' = stm_is_scheduled s \<and>
    stm_local_window s' = dw_dec (of_nat (length (data_view b))) (stm_local_window s) \<and>
    (stm_http_state s' = stm_http_state s \<or> stm_http_state s' = HALF_CLOSED) \<and> stm_request s' = stm_request s"
proof -
  define s1 where "s1 = s\<lparr>stm_local_window := dw_dec (of_nat (length (data_view b))) (stm_local_window s)\<rparr>"
  have s1: "stm_http_id s1 = stm_http_id s" "stm_is_scheduled s1 = stm_is_scheduled s" "stm_http_state s1 = stm_http_state s"
    "stm_local_window s1 = dw_dec (of_nat (length (data_view b))) (stm_local_window s)" "stm_request s1 = stm_request s"
    by (simp_all add: s1_def)
  show ?thesis
    using assms s1 unfolding on_receive_data_def Let_def s1_def [symmetric]
    by (auto split: sum.splits prod.splits dest!: end_stream_keeps)
qed

text \<open>Receiving what the window allows keeps a stream that has data to send so, unless it closes it.\<close>

lemma receive_member_keeps:
  assumes "receive_member native out op s = (s', r)" "received_bytes op \<le> unat (dw_current (stm_local_window s))" "window_ok s"
  shows "stm_http_id s' = stm_http_id s" "stm_is_scheduled s' = stm_is_scheduled s" "window_ok s'"
    "has_tx_data s \<Longrightarrow> has_tx_data s' \<or> is_finished s'"
proof -
  have dec: "dw_size (dw_dec (of_nat (received_bytes op)) (stm_local_window s)) \<le>
      dw_max_size (dw_dec (of_nat (received_bytes op)) (stm_local_window s))"
    "need_update (stm_local_window s) \<Longrightarrow> need_update (dw_dec (of_nat (received_bytes op)) (stm_local_window s))"
    using dw_dec_keeps [of "received_bytes op" "stm_local_window s"] assms(2,3) by (simp_all add: dw_current_def)
  have keeps: "stm_http_id s' = stm_http_id s \<and> stm_is_scheduled s' = stm_is_scheduled s \<and>
      (stm_local_window s' = stm_local_window s \<or> stm_local_window s' = dw_dec (of_nat (received_bytes op)) (stm_local_window s)) \<and>
      (stm_http_state s' = stm_http_state s \<or> stm_http_state s' = HALF_CLOSED \<or> stm_http_state s' = CLOSED) \<and>
      stm_request s' = stm_request s"
    using assms(1)
    by (cases op)
      (auto simp: plain_def on_receive_headers_def on_receive_reset_def on_receive_window_update_def on_receive_continuation_def
        Let_def split: prod.splits if_splits dest!: receive_data_keeps end_stream_keeps stream_finished_keeps)
  then show "stm_http_id s' = stm_http_id s" "stm_is_scheduled s' = stm_is_scheduled s" by simp_all
  show "window_ok s'" using keeps dec(1) assms(3) by auto
  show "has_tx_data s' \<or> is_finished s'" if "has_tx_data s"
    using keeps dec(2) that by (auto simp: has_tx_data_def is_finished_def)
qed

section \<open>The operations keep the invariant\<close>

lemma registry_ok_new: "registry_ok registry_new"
  by (simp add: registry_ok_def registry_inv_def registry_new_def)

lemma add_stream_ok:
  assumes "registry_ok r" "get_stream i r = None" "rq_header_list rq \<noteq> []"
    and "alloc_stream (stream_new i remote local rq h) r = (r1, a)"
  shows "registry_ok (add_stream i a r1)"
proof -
  let ?q = "somes (reg_queue r)"
  have a: "a = reg_next r" "r1 = r\<lparr>reg_heap := (reg_heap r)(a := stream_new i remote local rq h), reg_next := Suc a\<rparr>"
    using assms(4) by (auto simp: alloc_stream_def)
  have find: "map_find i (reg_map r) = None" using assms(2) by (simp add: get_stream_def)
  have inv: "sorted_wrt (<) (map fst (reg_map r))" "distinct ?q" "set ?q \<subseteq> snd ` set (reg_map r)"
    "\<forall>ka\<in>set (reg_map r). stream_in r ?q ka" using assms(1) by (simp_all add: registry_ok_def registry_inv_def)
  have old: "b < a" if "b \<in> snd ` set (reg_map r)" for b using that inv(4) a(1) by (auto simp: stream_in_def)
  have "stream_in (add_stream i a r1) (?q @ [a]) ka" if "ka \<in> set (reg_map r)" for ka
    using inv(4) that old [of "snd ka"] a(1) by (cases ka) (force simp: stream_in_def add_stream_def a(2))
  moreover have "stream_in (add_stream i a r1) (?q @ [a]) (i, a)"
    using assms(3) by (simp add: stream_in_def add_stream_def a(2) stream_new_def request_move_def has_tx_data_def dummy_window_new_def)
  moreover have "distinct (?q @ [a])" using inv(2,3) old by force
  moreover have "set (reg_map (add_stream i a r1)) = insert (i, a) (set (reg_map r))"
    using set_map_emplace [OF find] by (simp add: add_stream_def a(2))
  moreover have "sorted_wrt (<) (map fst (reg_map (add_stream i a r1)))"
    using sorted_map_emplace [OF inv(1) find] by (simp add: add_stream_def a(2))
  moreover have "somes (reg_queue (add_stream i a r1)) = ?q @ [a]" by (simp add: add_stream_def a(2))
  ultimately show ?thesis using inv(3) by (auto simp: registry_ok_def registry_inv_def)
qed

lemma erase_ok:
  assumes inv: "registry_inv r q" and a: "(i, a) \<in> set (reg_map r)" and s: "stm_http_id s = i"
    and q: "q = somes (reg_queue r)" and e: "erase i (r\<lparr>reg_heap := (reg_heap r)(a := s)\<rparr>) = Inr r'"
  shows "registry_ok r'"
proof -
  let ?heap = "(reg_heap r)(a := s)"
  obtain q' where q': "reset_first ?heap i (reg_queue r) = Inr q'"
      "r' = r\<lparr>reg_heap := ?heap, reg_queue := q', reg_map := map_erase i (reg_map r)\<rparr>"
    using e by (auto simp: erase_def bind_res_Inr_iff)
  have ids: "\<exists>k. (k, b) \<in> set (reg_map r) \<and> stm_http_id (?heap b) = k" if "b \<in> set q" for b
    using registry_inv_queue [OF inv that] registry_inv_unique [OF inv a] inv s
    by (auto simp: registry_inv_def stream_in_def)
  then have same: "stm_http_id (?heap b) = i \<longleftrightarrow> b = a" if "b \<in> set q" for b
    using that registry_inv_unique [OF inv a] by blast
  have "inj_on (stm_http_id \<circ> ?heap) (set q)"
    using ids registry_inv_unique [OF inv] by (intro inj_onI) (metis comp_apply)
  then have "distinct (map (stm_http_id \<circ> ?heap) q)" using inv by (simp add: distinct_map registry_inv_def)
  then have "somes q' = filter (\<lambda>b. stm_http_id (?heap b) \<noteq> i) q" using reset_first_somes [OF q'(1)] q by simp
  also have "\<dots> = filter (\<lambda>b. b \<noteq> a) q" using same by (intro filter_cong) auto
  finally have somes: "somes q' = filter (\<lambda>b. b \<noteq> a) q" .
  have "stream_in r' (somes q') ka" if "ka \<in> set (map_erase i (reg_map r))" for ka
  proof -
    have ka: "ka \<in> set (reg_map r)" "snd ka \<noteq> a"
      using that registry_inv_unique [OF inv a, of "fst ka" "snd ka"] by (auto simp: set_map_erase)
    then show ?thesis using inv by (cases ka) (auto simp: registry_inv_def stream_in_def somes q'(2))
  qed
  moreover have "set (somes q') \<subseteq> snd ` set (map_erase i (reg_map r))"
    using registry_inv_queue [OF inv] registry_inv_unique [OF inv a] by (force simp: somes set_map_erase)
  moreover have "sorted_wrt (<) (map fst (map_erase i (reg_map r)))" "distinct (somes q')"
    using inv sorted_map_erase by (auto simp: registry_inv_def somes)
  ultimately show ?thesis by (simp add: registry_ok_def registry_inv_def q'(2))
qed

lemma invoke_ok:
  assumes ok: "registry_ok r" and r': "invoke_for_stream i (receive_member native out op) r = (r', Inr res)"
    and obey: "\<forall>a. get_stream i r = Some a \<longrightarrow> received_bytes op \<le> unat (dw_current (stm_local_window (reg_heap r a)))"
  shows "registry_ok r'"
proof (cases "get_stream i r")
  case None
  then show ?thesis using assms by (simp add: invoke_for_stream_def)
next
  case (Some a)
  let ?q = "somes (reg_queue r)"
  have inv: "registry_inv r ?q" using ok by (simp add: registry_ok_def)
  have a: "(i, a) \<in> set (reg_map r)" using Some map_find_in by (simp add: get_stream_def)
  have st: "stm_http_id (reg_heap r a) = i" "window_ok (reg_heap r a)"
    "stm_is_scheduled (reg_heap r a) = (a \<in> set ?q)" "has_tx_data (reg_heap r a) = (a \<in> set ?q)"
    using inv a by (auto simp: registry_inv_def stream_in_def)
  obtain s calls where s: "receive_member native out op (reg_heap r a) = (s, Inr calls)"
    using r' Some by (auto simp: invoke_for_stream_def split: prod.splits sum.splits)
  note keeps = receive_member_keeps [OF s _ st(2)]
  have ob: "received_bytes op \<le> unat (dw_current (stm_local_window (reg_heap r a)))" using obey Some by simp
  show ?thesis
  proof (cases "is_finished s")
    case True
    then have "erase i (r\<lparr>reg_heap := (reg_heap r)(a := s)\<rparr>) = Inr r'"
      using r' Some s by (auto simp: invoke_for_stream_def Let_def split: sum.splits)
    then show ?thesis using erase_ok [OF inv a _ refl] keeps(1) [OF ob] st(1) by simp
  next
    case False
    obtain s' again where c: "check_tx_data s = (s', again)" by fastforce
    have r'_eq: "r' = (if again then enqueue a (r\<lparr>reg_heap := (reg_heap r)(a := s')\<rparr>) else r\<lparr>reg_heap := (reg_heap r)(a := s')\<rparr>)"
      using r' Some s False c by (simp add: invoke_for_stream_def Let_def split: prod.splits)
    let ?q' = "if again then ?q @ [a] else ?q"
    have s': "stm_http_id s' = i" "window_ok s'" "again \<longrightarrow> a \<notin> set ?q" "stm_is_scheduled s' = (a \<in> set ?q')"
        "has_tx_data s' = (a \<in> set ?q')"
      using c keeps [OF ob] st False by (auto simp: check_tx_data_def has_tx_data_def split: if_splits)
    have "registry_inv (r\<lparr>reg_heap := (reg_heap r)(a := s'), reg_queue := reg_queue r'\<rparr>) ?q'"
      using s' inv by (intro registry_inv_update [OF inv a]) (auto simp: registry_inv_def)
    moreover have "r\<lparr>reg_heap := (reg_heap r)(a := s'), reg_queue := reg_queue r'\<rparr> = r'" "somes (reg_queue r') = ?q'"
      by (simp_all add: r'_eq enqueue_def)
    ultimately show ?thesis by (simp add: registry_ok_def)
  qed
qed

lemma get_data_loop_inv:
  assumes "get_data_loop native stray fill limit r enc used next_queue frames = (r', enc', Inr (next_queue', frames', used'))"
    and "registry_inv r (somes (reg_queue r) @ somes next_queue)"
  shows "registry_inv r' (somes (reg_queue r') @ somes next_queue')"
  using assms
proof (induction native stray fill limit r enc used next_queue frames rule: get_data_loop.induct)
  case (1 native stray fill limit r enc used next_queue frames)
  show ?case
  proof (cases "limit < 16")
    case True
    then show ?thesis using "1.prems" by (simp add: get_data_loop.simps [of native stray fill limit r])
  next
    case big: False
    show ?thesis
    proof (cases "scheduled_stream (reg_queue r)")
      case None
      then show ?thesis using "1.prems" big scheduled_stream_somes(1) [OF None]
        by (auto simp: get_data_loop.simps [of native stray fill limit r])
    next
      case (Some aq)
      obtain a q where aq: "aq = (a, q)" by fastforce
      let ?q = "somes q @ somes next_queue"
      have inv: "registry_inv r (a # ?q)" using "1.prems"(2) scheduled_stream_somes(2) [OF Some [unfolded aq]] by simp
      then obtain k where k: "(k, a) \<in> set (reg_map r)" using registry_inv_queue by fastforce
      have st: "has_tx_data (reg_heap r a)" "stm_http_id (reg_heap r a) = k" "window_ok (reg_heap r a)"
        using inv k by (auto simp: registry_inv_def stream_in_def)
      obtain enc1 s f n where g: "get_tx_data native stray fill (limit - used) enc (reg_heap r a) = (enc1, s, Inr (f, n))"
        using "1.prems"(1) big Some aq st(1)
        by (auto simp: get_data_loop.simps [of native stray fill limit r] Let_def split: prod.splits sum.splits)
      obtain s' again where c: "check_tx_data s = (s', again)" by fastforce
      note kept = get_tx_data_keeps [OF g st(3)]
      note kept' = check_tx_data_keeps [OF c conjunct1 [OF conjunct2 [OF kept]]]
      let ?r = "r\<lparr>reg_queue := q, reg_heap := (reg_heap r)(a := s')\<rparr>"
      let ?next = "if again then next_queue @ [Some a] else next_queue"
      have loop: "get_data_loop native stray fill limit ?r enc1 (used + n) ?next (frames @ f) = (r', enc', Inr (next_queue', frames', used'))"
        using "1.prems"(1) big Some aq st(1) g c by (simp add: get_data_loop.simps [of native stray fill limit r] Let_def)
      have "registry_inv (r\<lparr>reg_heap := (reg_heap r)(a := s'), reg_queue := q\<rparr>) (somes q @ somes ?next)"
        using inv kept kept' st(2) by (intro registry_inv_update [OF inv k]) (auto simp: registry_inv_def)
      then have "registry_inv ?r (somes (reg_queue ?r) @ somes ?next)" by (simp add: registry_inv_def stream_in_def)
      then show ?thesis
        using "1.IH"(2) [OF big Some aq [symmetric] refl, of enc1 "(s, Inr (f, n))" s "Inr (f, n)" "(f, n)" f n s' again]
          loop st(1) g c by simp
    qed
  qed
qed

lemma get_data_ok:
  assumes "registry_ok r" "get_data native stray fill limit enc r = (r', enc', Inr res)"
  shows "registry_ok r'"
  using assms get_data_loop_inv [of native stray fill limit r enc 0 "[]" "[]"]
  by (auto simp: get_data_def registry_ok_def split: prod.splits sum.splits)

lemma reg_reset_ok: "reg_reset ec r = (r', calls) \<Longrightarrow> registry_ok r'"
  by (auto simp: reg_reset_def registry_ok_def registry_inv_def split: prod.splits)

lemma stream_timer_ok:
  assumes "registry_ok r" "(k, a) \<in> set (reg_map r)" "on_stream_timer aborted (reg_heap r a) = (s, calls)"
  shows "registry_ok (r\<lparr>reg_heap := (reg_heap r)(a := s)\<rparr>)"
proof -
  have keep: "stm_http_id s = stm_http_id (reg_heap r a) \<and> stm_is_scheduled s = stm_is_scheduled (reg_heap r a) \<and>
      stm_local_window s = stm_local_window (reg_heap r a) \<and> stm_http_state s = stm_http_state (reg_heap r a) \<and>
      stm_request s = stm_request (reg_heap r a)"
    using assms(3) by (auto simp: on_stream_timer_def split: if_splits dest!: stream_finished_keeps)
  have inv: "registry_inv r (somes (reg_queue r))" using assms(1) by (simp add: registry_ok_def)
  have "registry_inv (r\<lparr>reg_heap := (reg_heap r)(a := s), reg_queue := reg_queue r\<rparr>) (somes (reg_queue r))"
    using inv assms(2) keep
    by (intro registry_inv_update [OF inv assms(2)]) (auto simp: registry_inv_def stream_in_def has_tx_data_def)
  then show ?thesis by (simp add: registry_ok_def)
qed

section \<open>Everything that happens to a registry\<close>

text \<open>
  What the client does with its registry, in any order: requests with fresh identifiers, frames for
  a stream whose peer keeps to the receive window, timers of registered streams, collecting data to send,
  and the reset at the end of a connection.
\<close>

inductive registry_step :: "registry \<Rightarrow> registry \<Rightarrow> bool" where
  Request: "get_stream i r = None \<Longrightarrow> rq_header_list rq \<noteq> [] \<Longrightarrow>
    alloc_stream (stream_new i remote local rq h) r = (r1, a) \<Longrightarrow> registry_step r (add_stream i a r1)"
| Frame: "invoke_for_stream i (receive_member native out op) r = (r', Inr res) \<Longrightarrow>
    \<forall>a. get_stream i r = Some a \<longrightarrow> received_bytes op \<le> unat (dw_current (stm_local_window (reg_heap r a))) \<Longrightarrow>
    registry_step r r'"
| Timer: "(i, a) \<in> set (reg_map r) \<Longrightarrow> on_stream_timer aborted (reg_heap r a) = (s, calls) \<Longrightarrow>
    registry_step r (r\<lparr>reg_heap := (reg_heap r)(a := s)\<rparr>)"
| Collect: "get_data native stray fill limit enc r = (r', enc', Inr res) \<Longrightarrow> registry_step r r'"
| Disconnected: "reg_reset ec r = (r', calls) \<Longrightarrow> registry_step r r'"

lemma registry_step_ok: "registry_step r r' \<Longrightarrow> registry_ok r \<Longrightarrow> registry_ok r'"
  by (induction rule: registry_step.induct) (blast intro: add_stream_ok invoke_ok stream_timer_ok get_data_ok reg_reset_ok)+

lemma registry_reachable_ok: "registry_step\<^sup>*\<^sup>* registry_new r \<Longrightarrow> registry_ok r"
  by (induction rule: rtranclp_induct) (auto intro: registry_step_ok registry_ok_new)

lemma some_in_queue: "Some a \<in> set q \<longleftrightarrow> a \<in> set (somes q)"
proof (induction q)
  case (Cons x q)
  then show ?case by (cases x) auto
qed simp

text \<open>
  No wake-up is lost. In every reachable registry a registered stream waits in the queue exactly when it has
  data to send and is marked as scheduled, it waits there once, and the queue holds only registered streams.
\<close>

lemma no_lost_wakeup:
  assumes "registry_step\<^sup>*\<^sup>* registry_new r"
  shows "(\<forall>(i, a)\<in>set (reg_map r). stm_http_id (reg_heap r a) = i \<and>
      (Some a \<in> set (reg_queue r) \<longleftrightarrow> has_tx_data (reg_heap r a)) \<and> (stm_is_scheduled (reg_heap r a) \<longleftrightarrow> has_tx_data (reg_heap r a))) \<and>
    distinct (somes (reg_queue r)) \<and> set (somes (reg_queue r)) \<subseteq> snd ` set (reg_map r)"
  using registry_reachable_ok [OF assms]
  by (auto simp: registry_ok_def registry_inv_def stream_in_def some_in_queue)

definition example_request :: request where
  "example_request = request_empty\<lparr>rq_header_list := [\<lparr>hf_name = [97], hf_value = [98], hf_type = DEFAULT\<rparr>]\<rparr>"

definition example_registry :: registry where
  "example_registry = add_stream 1 0 (fst (alloc_stream (stream_new 1 65535 65535 example_request 7) registry_new))"

lemma example_registry_step: "registry_step registry_new example_registry"
  unfolding example_registry_def
  by (rule registry_step.Request [of 1 _ example_request 65535 65535 7])
    (simp_all add: get_stream_def registry_new_def example_request_def alloc_stream_def)

section \<open>Collecting data\<close>

text \<open>Asking each of some streams once, in order: the streams to queue again, the frames and their bytes.\<close>

fun serve_streams ::
  "byte_order \<Rightarrow> stray \<Rightarrow> (nat \<Rightarrow> byte) \<Rightarrow> u64 \<Rightarrow> nat list \<Rightarrow> (nat \<Rightarrow> stream) \<Rightarrow> encoder \<Rightarrow> u64 \<Rightarrow>
     (nat \<Rightarrow> stream) \<times> encoder \<times> (nat list \<times> buffer list \<times> u64) result" where
  "serve_streams native stray fill limit [] heap enc used = (heap, enc, Inr ([], [], used))"
| "serve_streams native stray fill limit (a # q) heap enc used =
     (case get_tx_data native stray fill (limit - used) enc (heap a) of
        (enc1, s, Inl e) \<Rightarrow> (heap(a := s), enc1, Inl e)
      | (enc1, s, Inr (frames, n)) \<Rightarrow>
          (case serve_streams native stray fill limit q (heap(a := fst (check_tx_data s))) enc1 (used + n) of
             (heap', enc', Inl e) \<Rightarrow> (heap', enc', Inl e)
           | (heap', enc', Inr (again, frames', used')) \<Rightarrow>
               (heap', enc', Inr ((if snd (check_tx_data s) then [a] else []) @ again, frames @ frames', used'))))"

lemma get_data_loop_serves:
  assumes "16 \<le> limit" "distinct (somes (reg_queue r))" "\<forall>a\<in>set (somes (reg_queue r)). has_tx_data (reg_heap r a)"
  shows "case serve_streams native stray fill limit (somes (reg_queue r)) (reg_heap r) enc used of
      (heap, enc', Inl e) \<Rightarrow>
        \<exists>q. get_data_loop native stray fill limit r enc used nq out = (r\<lparr>reg_heap := heap, reg_queue := q\<rparr>, enc', Inl e)
    | (heap, enc', Inr (again, frames, used')) \<Rightarrow>
        get_data_loop native stray fill limit r enc used nq out =
          (r\<lparr>reg_heap := heap, reg_queue := []\<rparr>, enc', Inr (nq @ map Some again, out @ frames, used'))"
  using assms(2,3)
proof (induction "somes (reg_queue r)" arbitrary: r enc used nq out)
  case Nil
  have "scheduled_stream (reg_queue r) = None"
    using Nil(1) scheduled_stream_somes(2) [of "reg_queue r"] by (cases "scheduled_stream (reg_queue r)") force+
  then show ?case using Nil(1) [symmetric] assms(1)
    by (simp add: get_data_loop.simps [of native stray fill limit r] not_less [symmetric])
next
  case (Cons a as)
  obtain q where q: "scheduled_stream (reg_queue r) = Some (a, q)" "as = somes q"
    using Cons(2) scheduled_stream_somes [of "reg_queue r"] by (cases "scheduled_stream (reg_queue r)") force+
  have a: "has_tx_data (reg_heap r a)" "a \<notin> set (somes q)" using Cons(2) [symmetric] Cons(3,4) q(2) by auto
  have big: "\<not> limit < 16" using assms(1) by simp
  note loop = get_data_loop.simps [of native stray fill limit r]
  show ?case
  proof (cases "get_tx_data native stray fill (limit - used) enc (reg_heap r a)")
    case (fields enc1 s res)
    show ?thesis
    proof (cases res)
      case (Inl e)
      then show ?thesis using fields q(1) a(1) big Cons(2) [symmetric] by (auto simp: loop Let_def intro!: exI [of _ q])
    next
      case (Inr fn)
      obtain f n where fn: "fn = (f, n)" by fastforce
      obtain s' again where c: "check_tx_data s = (s', again)" by fastforce
      let ?r = "r\<lparr>reg_queue := q, reg_heap := (reg_heap r)(a := s')\<rparr>"
      have "as = somes (reg_queue ?r)" "distinct (somes (reg_queue ?r))"
        "\<forall>b\<in>set (somes (reg_queue ?r)). has_tx_data (reg_heap ?r b)"
        using Cons(2) [symmetric] Cons(3,4) q(2) a(2) by auto
      from Cons(1) [OF this, of enc1 "used + n" "if again then nq @ [Some a] else nq" "out @ f"]
      show ?thesis using fields Inr fn c q a(1) big Cons(2) [symmetric]
        by (auto simp: loop Let_def split: prod.splits sum.splits)
    qed
  qed
qed

lemma get_data_serves:
  assumes "registry_step\<^sup>*\<^sup>* registry_new r" "16 \<le> limit"
  shows "case serve_streams native stray fill limit (somes (reg_queue r)) (reg_heap r) enc 0 of
      (heap, enc', Inl e) \<Rightarrow> \<exists>q. get_data native stray fill limit enc r = (r\<lparr>reg_heap := heap, reg_queue := q\<rparr>, enc', Inl e)
    | (heap, enc', Inr (again, frames, used)) \<Rightarrow>
        get_data native stray fill limit enc r = (r\<lparr>reg_heap := heap, reg_queue := map Some again\<rparr>, enc', Inr (frames, used))"
proof -
  have "distinct (somes (reg_queue r))" "\<forall>a\<in>set (somes (reg_queue r)). has_tx_data (reg_heap r a)"
    using registry_reachable_ok [OF assms(1)] by (fastforce simp: registry_ok_def registry_inv_def stream_in_def)+
  from get_data_loop_serves [OF assms(2) this, of native stray fill enc 0 "[]" "[]"] show ?thesis
    by (auto simp: get_data_def split: prod.splits sum.splits)
qed

text \<open>
  C16: collecting data ends, and when the limit is at least 16 it asks every stream that has data to send
  exactly once, in the order of the queue, whatever the streams before it used; then the queue holds exactly the
  streams that still have data. It fails exactly when one of the streams does.
\<close>

theorem get_data_serves_each:
  assumes "registry_step\<^sup>*\<^sup>* registry_new r" "16 \<le> limit"
  shows "case serve_streams native stray fill limit (somes (reg_queue r)) (reg_heap r) enc 0 of
      (heap, enc', Inl e) \<Rightarrow> \<exists>q. get_data native stray fill limit enc r = (r\<lparr>reg_heap := heap, reg_queue := q\<rparr>, enc', Inl e)
    | (heap, enc', Inr (again, frames, used)) \<Rightarrow>
        get_data native stray fill limit enc r = (r\<lparr>reg_heap := heap, reg_queue := map Some again\<rparr>, enc', Inr (frames, used))"
  using assms by (rule get_data_serves)

theorem get_data_serves_each_witness:
  "\<exists>heap. get_data little (\<lambda>_ _. 0) (\<lambda>_. 0) 16 encoder_new example_registry =
     (example_registry\<lparr>reg_heap := heap, reg_queue := [Some 0]\<rparr>, encoder_new, Inr ([], 0))"
proof -
  let ?s = "stream_new 1 65535 65535 example_request 7"
  have tx: "get_tx_data little (\<lambda>_ _. 0) (\<lambda>_. 0) 16 encoder_new ?s = (encoder_new, ?s\<lparr>stm_is_scheduled := False\<rparr>, Inr ([], 0))"
    by (simp add: get_tx_data_def stream_new_def Let_def)
  have "check_tx_data (?s\<lparr>stm_is_scheduled := False\<rparr>) = (?s\<lparr>stm_is_scheduled := True\<rparr>, True)"
    by (simp add: check_tx_data_def has_tx_data_def stream_new_def request_move_def example_request_def)
  then have "serve_streams little (\<lambda>_ _. 0) (\<lambda>_. 0) 16 (somes (reg_queue example_registry)) (reg_heap example_registry) encoder_new 0 =
      ((reg_heap example_registry)(0 := ?s\<lparr>stm_is_scheduled := True\<rparr>), encoder_new, Inr ([0], [], 0))"
    using tx by (simp add: example_registry_def add_stream_def alloc_stream_def registry_new_def)
  then show ?thesis
    using get_data_serves_each [OF r_into_rtranclp [of registry_step, OF example_registry_step], of 16 little "\<lambda>_ _. 0" "\<lambda>_. 0" encoder_new]
    by auto
qed

text \<open>
  C36: when two streams wait at the head of the queue and the peer resets both before anything is
  sent, erasing the second one compares the identifier of a null pointer, which the first one left in the queue.
\<close>

theorem second_reset_undefined:
  assumes "registry_step\<^sup>*\<^sup>* registry_new r" "reg_queue r = Some a # Some b # q"
    and "get_stream i r = Some a" "get_stream j r = Some b"
    and "invoke_for_stream i (receive_member native out (Receive_Reset err)) r = (r1, res)"
  shows "snd (invoke_for_stream j (receive_member native out (Receive_Reset err')) r1) = Inl undefined_behaviour"
proof -
  have inv: "registry_inv r (somes (reg_queue r))" using registry_reachable_ok [OF assms(1)] by (simp add: registry_ok_def)
  have m: "(i, a) \<in> set (reg_map r)" "(j, b) \<in> set (reg_map r)" using assms(3,4) map_find_in by (auto simp: get_stream_def)
  have ab: "a \<noteq> b" using inv assms(2) by (simp add: registry_inv_def)
  then have ij: "i \<noteq> j" using registry_inv_unique [OF inv m] by simp
  have ids: "stm_http_id (reg_heap r a) = i" "stm_http_id (reg_heap r b) = j"
    using inv m by (auto simp: registry_inv_def stream_in_def)
  have reset: "\<exists>s calls. receive_member native out (Receive_Reset e) s0 = (s, Inr calls) \<and> is_finished s \<and> stm_http_id s = stm_http_id s0" for e s0
    by (auto simp: plain_def on_receive_reset_def is_finished_def stream_finished_def split: prod.splits option.splits)
  obtain s calls where s: "receive_member native out (Receive_Reset err) (reg_heap r a) = (s, Inr calls)" "is_finished s"
      "stm_http_id s = i" using reset [of err "reg_heap r a"] ids(1) by blast
  have r1: "r1 = r\<lparr>reg_heap := (reg_heap r)(a := s), reg_queue := None # Some b # q, reg_map := map_erase i (reg_map r)\<rparr>"
    using assms(5) s assms(2,3) by (simp add: invoke_for_stream_def erase_def bind_res_def)
  have "get_stream j r1 = Some b" using assms(4) ij by (simp add: get_stream_def r1 map_find_erase)
  moreover obtain s' calls' where "receive_member native out (Receive_Reset err') (reg_heap r1 b) = (s', Inr calls')" "is_finished s'"
    using reset [of err' "reg_heap r1 b"] by blast
  ultimately show ?thesis by (simp add: invoke_for_stream_def erase_def bind_res_def r1 Let_def)
qed

definition two_streams :: registry where
  "two_streams = add_stream 3 1 (fst (alloc_stream (stream_new 3 65535 65535 example_request 8) example_registry))"

lemma two_streams_reachable: "registry_step\<^sup>*\<^sup>* registry_new two_streams"
proof -
  have "registry_step example_registry two_streams"
    unfolding two_streams_def
    by (rule registry_step.Request [of 3 _ example_request 65535 65535 8])
      (simp_all add: get_stream_def example_registry_def add_stream_def registry_new_def example_request_def alloc_stream_def)
  then show ?thesis using example_registry_step by (simp add: r_into_rtranclp rtranclp.rtrancl_into_rtrancl)
qed

lemma two_streams_state:
  "reg_queue two_streams = [Some 0, Some 1]" "get_stream 1 two_streams = Some 0" "get_stream 3 two_streams = Some 1"
  "reg_heap two_streams 0 = stream_new 1 65535 65535 example_request 7" "reg_heap two_streams 1 = stream_new 3 65535 65535 example_request 8"
  by (simp_all add: two_streams_def example_registry_def add_stream_def alloc_stream_def registry_new_def get_stream_def)

theorem second_reset_undefined_witness:
  "snd (invoke_for_stream 3 (receive_member little (\<lambda>_. 0) (Receive_Reset 0))
     (fst (invoke_for_stream 1 (receive_member little (\<lambda>_. 0) (Receive_Reset 0)) two_streams))) = Inl undefined_behaviour"
  by (rule second_reset_undefined [OF two_streams_reachable two_streams_state(1-3) prod.collapse [symmetric]])

end
