(* ===== verification/Http2_Settings.thy ===== *)
theory Http2_Settings
  imports Http2_Frame_Builder Http2_Completion
begin

text \<open>
  The settings handshake (\<open>lib/settings_manager.{h,cpp}\<close>). The state has the settings of both sides, what
  has been received, whether the wait of the timer is pending, and the handler to call at the
  end. The mutex only protects the slot of the handler and is not part of the model.
\<close>

record settings_manager =
  sm_local :: settings
  sm_remote :: settings
  sm_need_remote_sync :: bool
  sm_local_settings_ack :: bool
  sm_remote_settings_got :: bool
  sm_timer :: bool
  sm_handler :: "handler option"

definition settings_manager_new :: settings_manager where
  "settings_manager_new = \<lparr>
     sm_local = settings_default,
     sm_remote = settings_default,
     sm_need_remote_sync = True,
     sm_local_settings_ack = False,
     sm_remote_settings_got = False,
     sm_timer = False,
     sm_handler = None\<rparr>"

type_synonym settings_calls = "(handler \<times> error_value) list"

definition sm_finished :: "error_value \<Rightarrow> settings_manager \<Rightarrow> settings_manager \<times> settings_calls \<times> bool" where
  "sm_finished ec s =
     (case sm_handler s of
        Some h \<Rightarrow> (s\<lparr>sm_handler := None\<rparr>, [(h, ec)], True)
      | None \<Rightarrow> (s, [], False))"

definition settings_fields :: "byte_order \<Rightarrow> settings \<Rightarrow> settings_item list" where
  "settings_fields native l = [
     settings_item_new native SETTINGS_HEADER_TABLE_SIZE (set_header_table_size l),
     settings_item_new native SETTINGS_ENABLE_PUSH (push_state_value native (set_enable_push l)),
     settings_item_new native SETTINGS_MAX_CONCURRENT_STREAMS (set_max_concurrent_streams l),
     settings_item_new native SETTINGS_INITIAL_WINDOW_SIZE (set_initial_window_size l),
     settings_item_new native SETTINGS_MAX_FRAME_SIZE (set_max_frame_size l),
     settings_item_new native SETTINGS_MAX_HEADER_LIST_SIZE (set_max_header_list_size l)]"

definition initiate_sync_settings ::
  "byte_order \<Rightarrow> (nat \<Rightarrow> byte) \<Rightarrow> settings \<Rightarrow> bool \<Rightarrow> handler \<Rightarrow> settings_manager \<Rightarrow> (settings_manager \<times> buffer) result" where
  "initiate_sync_settings native fill local remote_sync handler s =
     (if sm_handler s \<noteq> None then Inl (system_error (asio_error in_progress))
      else Inr (s\<lparr>sm_local := local,
                 sm_handler := Some handler,
                 sm_need_remote_sync := remote_sync,
                 sm_local_settings_ack := False,
                 sm_remote_settings_got := \<not> remote_sync,
                 sm_timer := True\<rparr>,
               settings_frame native fill (settings_fields native local)))"

text \<open>The callback of the timer; \<open>aborted\<close> is \<open>ec = operation_aborted\<close>.\<close>

definition on_settings_timer :: "byte_order \<Rightarrow> bool \<Rightarrow> settings_manager \<Rightarrow> settings_manager \<times> settings_calls" where
  "on_settings_timer native aborted s =
     (if \<not> aborted
      then let (s', calls, _) = sm_finished (make_error_code (error_code_value native SETTINGS_TIMEOUT)) s
           in (s'\<lparr>sm_timer := False\<rparr>, calls)
      else (s, []))"

text \<open>The switch over the type of one item; an unknown type is skipped.\<close>

definition apply_item :: "byte_order \<Rightarrow> settings_item \<Rightarrow> settings \<Rightarrow> settings" where
  "apply_item native i r =
     (let t = si_type i; v = native_to_big32 native (si_value i)
      in if t = settings_type_value native SETTINGS_HEADER_TABLE_SIZE then r\<lparr>set_header_table_size := v\<rparr>
         else if t = settings_type_value native SETTINGS_ENABLE_PUSH
         then r\<lparr>set_enable_push := (if v = 0 then push_DISABLED else push_ENABLED)\<rparr>
         else if t = settings_type_value native SETTINGS_MAX_CONCURRENT_STREAMS then r\<lparr>set_max_concurrent_streams := v\<rparr>
         else if t = settings_type_value native SETTINGS_INITIAL_WINDOW_SIZE then r\<lparr>set_initial_window_size := v\<rparr>
         else if t = settings_type_value native SETTINGS_MAX_FRAME_SIZE then r\<lparr>set_max_frame_size := v\<rparr>
         else if t = settings_type_value native SETTINGS_MAX_HEADER_LIST_SIZE then r\<lparr>set_max_header_list_size := v\<rparr>
         else if t = settings_type_value native SETTINGS_ENABLE_CONNECT_PROTOCOL
         then r\<lparr>set_connection_protocol := (if v = 0 then connection_DISABLED else connection_ENABLED)\<rparr>
         else r)"

definition on_settings_frame ::
  "byte_order \<Rightarrow> (nat \<Rightarrow> byte) \<Rightarrow> span \<Rightarrow> settings_manager \<Rightarrow> (settings_manager \<times> settings_calls \<times> buffer option) result" where
  "on_settings_frame native fill data s =
     bind_res (from_buffer native data) (\<lambda>analyzer.
       bind_res (get_frame native SETTINGS analyzer) (\<lambda>frame.
         if has_flag (fh_flags (frame_header native frame)) ACK
         then
           let s1 = s\<lparr>sm_local_settings_ack := True, sm_timer := False\<rparr>
           in if sm_need_remote_sync s1 \<and> sm_remote_settings_got s1 \<and> sm_local_settings_ack s1 \<or>
                 \<not> sm_need_remote_sync s1 \<and> sm_local_settings_ack s1
              then let (s2, calls, _) = sm_finished no_error s1 in Inr (s2, calls, None)
              else Inr (s1, [], None)
         else
           Inr (s\<lparr>sm_remote := fold (apply_item native) (settings_items native frame) (sm_remote s),
                  sm_remote_settings_got := True\<rparr>,
                [], Some (settings_ack native fill))))"

definition sm_cancel :: "error_value \<Rightarrow> settings_manager \<Rightarrow> settings_manager \<times> settings_calls \<times> bool" where
  "sm_cancel ec s = sm_finished ec (s\<lparr>sm_timer := False\<rparr>)"

section \<open>The handler of the handshake\<close>

text \<open>The operations, as steps; a call that throws changes nothing.\<close>

datatype settings_op = Sync settings bool handler | Settings_Frame span | Settings_Timer bool | Cancel error_value

fun settings_step ::
  "byte_order \<Rightarrow> (nat \<Rightarrow> byte) \<Rightarrow> settings_op \<Rightarrow> settings_manager \<Rightarrow> settings_manager \<times> settings_calls" where
  "settings_step native fill (Sync l r h) s =
     (case initiate_sync_settings native fill l r h s of Inl e \<Rightarrow> (s, []) | Inr (s', _) \<Rightarrow> (s', []))"
| "settings_step native fill (Settings_Frame data) s =
     (case on_settings_frame native fill data s of Inl e \<Rightarrow> (s, []) | Inr (s', calls, _) \<Rightarrow> (s', calls))"
| "settings_step native fill (Settings_Timer aborted) s = on_settings_timer native aborted s"
| "settings_step native fill (Cancel ec) s = (case sm_cancel ec s of (s', calls, _) \<Rightarrow> (s', calls))"

text \<open>The handler an operation takes over: \<open>Sync\<close> only when none is pending.\<close>

fun settings_given :: "settings_op \<Rightarrow> settings_manager \<Rightarrow> handler option" where
  "settings_given (Sync l r h) s = (if sm_handler s = None then Some h else None)"
| "settings_given _ s = None"

lemma sm_finished_cases:
  obtains h where "sm_handler s = Some h" "sm_finished ec s = (s\<lparr>sm_handler := None\<rparr>, [(h, ec)], True)"
  | "sm_handler s = None" "sm_finished ec s = (s, [], False)"
  by (cases "sm_handler s") (auto simp: sm_finished_def)

lemma on_settings_frame_calls:
  assumes "on_settings_frame native fill data s = Inr (s', calls, reply)"
  shows "sm_handler s' = sm_handler s \<and> calls = [] \<or> (\<exists>h. sm_handler s = Some h \<and> sm_handler s' = None \<and> calls = [(h, no_error)])
    \<or> sm_handler s = None \<and> sm_handler s' = None \<and> calls = []"
  using assms
  by (cases "sm_handler s")
    (auto simp: on_settings_frame_def bind_res_Inr_iff sm_finished_def Let_def split: if_splits)

interpretation sm: one_shot "settings_step native fill" settings_given sm_handler
proof
  fix s :: settings_manager and op
  show "mset (opt_list (sm_handler s)) + mset (opt_list (settings_given op s)) =
    mset (map fst (snd (settings_step native fill op s))) + mset (opt_list (sm_handler (fst (settings_step native fill op s))))"
  proof (cases op)
    case (Sync l r h)
    then show ?thesis by (auto simp: initiate_sync_settings_def)
  next
    case (Settings_Frame data)
    then show ?thesis
      by (auto split: sum.splits dest: on_settings_frame_calls)
  next
    case (Settings_Timer aborted)
    then show ?thesis by (auto simp: on_settings_timer_def sm_finished_def split: option.splits)
  next
    case (Cancel ec)
    then show ?thesis by (auto simp: sm_cancel_def sm_finished_def split: option.splits)
  qed
qed

section \<open>Settings on the wire\<close>

lemma settings_type_code_inject: "settings_type_code t = settings_type_code t' \<longleftrightarrow> t = t'"
  by (cases t; cases t') simp_all

lemma native_to_big16_inject: "native_to_big16 native x = native_to_big16 native y \<longleftrightarrow> x = y"
proof
  assume "native_to_big16 native x = native_to_big16 native y"
  then have "be_bytes 2 x = be_bytes 2 y" by (metis store_native_to_big(2))
  then have "from_be (be_bytes 2 x) = (from_be (be_bytes 2 y) :: u16)" by simp
  then show "x = y" by (simp add: from_be_be_bytes)
qed simp

lemma settings_type_value_inject: "settings_type_value native t = settings_type_value native t' \<longleftrightarrow> t = t'"
  by (simp add: settings_type_value_def native_to_big16_inject settings_type_code_inject)

primrec apply_setting :: "settings_type \<Rightarrow> u32 \<Rightarrow> settings \<Rightarrow> settings" where
  "apply_setting SETTINGS_HEADER_TABLE_SIZE v r = r\<lparr>set_header_table_size := v\<rparr>"
| "apply_setting SETTINGS_ENABLE_PUSH v r = r\<lparr>set_enable_push := (if v = 0 then push_DISABLED else push_ENABLED)\<rparr>"
| "apply_setting SETTINGS_MAX_CONCURRENT_STREAMS v r = r\<lparr>set_max_concurrent_streams := v\<rparr>"
| "apply_setting SETTINGS_INITIAL_WINDOW_SIZE v r = r\<lparr>set_initial_window_size := v\<rparr>"
| "apply_setting SETTINGS_MAX_FRAME_SIZE v r = r\<lparr>set_max_frame_size := v\<rparr>"
| "apply_setting SETTINGS_MAX_HEADER_LIST_SIZE v r = r\<lparr>set_max_header_list_size := v\<rparr>"
| "apply_setting SETTINGS_ENABLE_CONNECT_PROTOCOL v r =
     r\<lparr>set_connection_protocol := (if v = 0 then connection_DISABLED else connection_ENABLED)\<rparr>"

lemma apply_item_new: "apply_item native (settings_item_new native t v) = apply_setting t v"
  by (rule ext, cases t) (simp_all add: apply_item_def settings_item_new_def settings_type_value_inject native_to_big32_involution)

lemma item_bytes_new: "item_bytes native (settings_item_new native t v) = be_bytes 2 (settings_type_code t) @ be_bytes 4 v"
  by (simp add: item_bytes_def settings_item_new_def settings_type_value_def store_native_to_big)

lemma store_native_0: "store_native native 4 (0 :: u32) = [0, 0, 0, 0]"
  by (simp add: store_native_def be_bytes_def le_bytes_def upt_rec)

lemma wire_frame_0: "wire_frame native t flags 0 payload = wire_frame native' t flags 0 payload"
  by (simp add: wire_frame_def store_native_0)

text \<open>
  A settings frame and an acknowledgement, received by a host of any byte order.
\<close>

definition sent_settings :: "byte_order \<Rightarrow> settings \<Rightarrow> (settings_type \<times> u32) list" where
  "sent_settings native l = [
     (SETTINGS_HEADER_TABLE_SIZE, set_header_table_size l),
     (SETTINGS_ENABLE_PUSH, push_state_value native (set_enable_push l)),
     (SETTINGS_MAX_CONCURRENT_STREAMS, set_max_concurrent_streams l),
     (SETTINGS_INITIAL_WINDOW_SIZE, set_initial_window_size l),
     (SETTINGS_MAX_FRAME_SIZE, set_max_frame_size l),
     (SETTINGS_MAX_HEADER_LIST_SIZE, set_max_header_list_size l)]"

lemma settings_fields_sent: "settings_fields native l = map (\<lambda>(t, v). settings_item_new native t v) (sent_settings native l)"
  by (simp add: settings_fields_def sent_settings_def)

lemma native_to_big32_1: "native_to_big32 native 1 \<noteq> 0"
  using native_to_big32_inject [of native 1 0] by simp

lemma apply_sent:
  "fold (\<lambda>(t, v). apply_setting t v) (sent_settings native l) r = l\<lparr>set_connection_protocol := set_connection_protocol r\<rparr>"
  by (cases "set_enable_push l") (simp_all add: sent_settings_def native_to_big32_1)

lemma receive_settings:
  assumes "span_bytes data = data_view (settings_frame native fill (settings_fields native l))"
  shows "on_settings_frame native' fill' data s =
    Inr (s\<lparr>sm_remote := l\<lparr>set_connection_protocol := set_connection_protocol (sm_remote s)\<rparr>, sm_remote_settings_got := True\<rparr>,
      [], Some (settings_ack native' fill'))"
proof -
  let ?items = "map (\<lambda>(t, v). settings_item_new native' t v) (sent_settings native l)"
  have "concat (map (item_bytes native) (settings_fields native l)) = concat (map (item_bytes native') ?items)"
    by (simp add: settings_fields_sent o_def split_beta item_bytes_new)
  then have b: "span_bytes data = wire_frame native' (frame_type_value SETTINGS) 0 0 (concat (map (item_bytes native') ?items))"
    using assms wire_frame_0 [of native _ _ _ native'] by (simp add: settings_frame_bytes)
  have len: "settings_item_size * length ?items < 2 ^ 24" by (simp add: sent_settings_def settings_item_size_def)
  then have lp: "length (concat (map (item_bytes native') ?items)) < 2 ^ 24" by (subst length_item_bytes)
  have "fold (apply_item native') ?items r = fold (\<lambda>(t, v). apply_setting t v) (sent_settings native l) r" for r
    by (simp add: fold_map o_def case_prod_beta' apply_item_new)
  moreover have "settings_items native' data = ?items"
    using settings_items_wire [of data native' 0 0 ?items] b len by simp
  moreover have "from_buffer native' data = Inr data" "get_frame native' SETTINGS data = Inr data"
    "fh_flags (frame_header native' data) = 0"
    using analyze_wire(1) [OF b lp] get_frame_wire [OF b lp] by simp_all
  ultimately show ?thesis by (simp add: on_settings_frame_def has_flag_def apply_sent)
qed

lemma receive_ack:
  assumes "span_bytes data = data_view (settings_ack native fill)"
  shows "on_settings_frame native' fill' data s =
    (let s1 = s\<lparr>sm_local_settings_ack := True, sm_timer := False\<rparr>
     in if sm_need_remote_sync s \<longrightarrow> sm_remote_settings_got s
        then let (s2, calls, _) = sm_finished no_error s1 in Inr (s2, calls, None)
        else Inr (s1, [], None))"
proof -
  have b: "span_bytes data = wire_frame native' (frame_type_value SETTINGS) ACK 0 []"
    using assms wire_frame_0 [of native _ _ _ native'] by (simp add: settings_ack_bytes)
  have "from_buffer native' data = Inr data" "get_frame native' SETTINGS data = Inr data"
    "fh_flags (frame_header native' data) = ACK"
    using analyze_wire(1) [OF b] get_frame_wire [OF b] by simp_all
  then show ?thesis by (auto simp: on_settings_frame_def has_flag_def ACK_def Let_def)
qed

section \<open>When the handshake ends\<close>

abbreviation is_ack :: "byte_order \<Rightarrow> span \<Rightarrow> bool" where
  "is_ack native f \<equiv> has_flag (fh_flags (frame_header native f)) ACK"

fun settles :: "byte_order \<Rightarrow> bool \<Rightarrow> bool \<Rightarrow> span list \<Rightarrow> bool" where
  "settles native needed got [] = False"
| "settles native needed got (f # fs) =
     (if is_ack native f then (needed \<longrightarrow> got) \<or> settles native needed got fs
      else settles native needed True fs)"

lemma settles_iff:
  "settles native needed got fs \<longleftrightarrow>
     (\<exists>k<length fs. is_ack native (fs ! k) \<and> (needed \<longrightarrow> got \<or> (\<exists>i<k. \<not> is_ack native (fs ! i))))"
proof (induction fs arbitrary: got)
  case (Cons f fs)
  have split: "(\<exists>k<length (f # fs). P k) \<longleftrightarrow> P 0 \<or> (\<exists>k<length fs. P (Suc k))" for P
    using Ex_less_Suc2 [of "length fs" P] by simp
  show ?case unfolding split by (auto simp: Cons.IH Ex_less_Suc2)
qed simp

lemma settings_frame_step:
  assumes "parsed native SETTINGS f"
  shows "settings_step native fill (Settings_Frame f) s =
    (if is_ack native f
     then let s1 = s\<lparr>sm_local_settings_ack := True, sm_timer := False\<rparr>
          in if sm_need_remote_sync s \<longrightarrow> sm_remote_settings_got s
             then (s1\<lparr>sm_handler := None\<rparr>, map (\<lambda>h. (h, no_error)) (opt_list (sm_handler s)))
             else (s1, [])
     else (s\<lparr>sm_remote := fold (apply_item native) (settings_items native f) (sm_remote s), sm_remote_settings_got := True\<rparr>, []))"
  using assms
  by (cases "sm_handler s") (auto simp: parsed_def on_settings_frame_def sm_finished_def Let_def)

lemma run_settings_frames:
  assumes "\<forall>f\<in>set fs. parsed native SETTINGS f"
    and "run_ops (settings_step native fill) (map Settings_Frame fs) s = (s', calls)"
  shows "calls = (if settles native (sm_need_remote_sync s) (sm_remote_settings_got s) fs
      then map (\<lambda>h. (h, no_error)) (opt_list (sm_handler s)) else []) \<and>
    sm_timer s' = (sm_timer s \<and> (\<forall>f\<in>set fs. \<not> is_ack native f))"
  using assms
proof (induction fs arbitrary: s calls)
  case (Cons f fs)
  obtain s1 calls1 where s1: "settings_step native fill (Settings_Frame f) s = (s1, calls1)" by fastforce
  obtain calls2 where r: "run_ops (settings_step native fill) (map Settings_Frame fs) s1 = (s', calls2)"
      and c: "calls = calls1 @ calls2"
    using Cons.prems(2) s1 by (auto split: prod.splits)
  note step = settings_frame_step [of native f fill s]
  show ?case
    using Cons.IH [OF _ r] Cons.prems(1) step s1 c
    by (auto simp: Let_def split: if_splits)
qed simp

lemma distinct_single: "distinct xs \<Longrightarrow> set xs = {x} \<Longrightarrow> xs = [x]"
  by (cases xs; cases "tl xs") auto

section \<open>Properties\<close>

text \<open>
  Two settings managers, on hosts of any byte order, that send each other the frame of
  \<open>initiate_sync_settings\<close> and answer it: each acknowledges the frame of the other, knows its six
  settings afterwards, and calls its handler without error when its own frame is acknowledged.
\<close>

lemma settings_handshake:
  "\<exists>a1 fa a2 a3 acka.
     initiate_sync_settings native fill la True h settings_manager_new = Inr (a1, fa) \<and>
     on_settings_frame native fill
       (span_of out (data_view (settings_frame native' fill' (settings_fields native' lb)))) a1 = Inr (a2, [], Some acka) \<and>
     data_view acka = data_view (settings_ack native' fill') \<and>
     on_settings_frame native fill (span_of out (data_view (settings_ack native' fill'))) a2 = Inr (a3, [(h, no_error)], None) \<and>
     fa = settings_frame native fill (settings_fields native la) \<and> sm_local a3 = la \<and>
     sm_remote a3 = lb\<lparr>set_connection_protocol := connection_DISABLED\<rparr> \<and> \<not> sm_timer a3 \<and> sm_handler a3 = None"
  by (simp add: initiate_sync_settings_def receive_settings [where native = native'] receive_ack [where native = native']
      settings_manager_new_def settings_default_def sm_finished_def settings_ack_bytes wire_frame_0 [of native _ _ _ native'])

text \<open>
  C24: after \<open>initiate_sync_settings\<close>, a sequence of SETTINGS frames calls the handler exactly if an
  acknowledgement arrives, after a frame with settings of the peer if those are required, and at
  most once. The first acknowledgement ends the timer: when it comes before the settings it was
  waiting for, neither they nor a timeout end the handshake.
\<close>

theorem settings_sync_exact:
  assumes "initiate_sync_settings native fill l remote_sync h s0 = Inr (s, f)"
    and "\<forall>f\<in>set fs. parsed native SETTINGS f"
    and "run_ops (settings_step native fill) (map Settings_Frame fs) s = (s', calls)"
  shows "calls = (if \<exists>k<length fs. is_ack native (fs ! k) \<and> (remote_sync \<longrightarrow> (\<exists>i<k. \<not> is_ack native (fs ! i)))
      then [(h, no_error)] else []) \<and>
    sm_timer s' = (\<forall>f\<in>set fs. \<not> is_ack native f)"
proof -
  have "sm_handler s = Some h" "sm_need_remote_sync s = remote_sync" "sm_remote_settings_got s = (\<not> remote_sync)" "sm_timer s"
    using assms(1) by (auto simp: initiate_sync_settings_def split: if_splits)
  then show ?thesis using run_settings_frames [OF assms(2,3)] by (auto simp: settles_iff)
qed

theorem settings_sync_exact_witness:
  "let ack = span_of (\<lambda>_. 0) (data_view (settings_ack little (\<lambda>_. 0)));
       set = span_of (\<lambda>_. 0) (data_view (settings_frame little (\<lambda>_. 0) []));
       s = case initiate_sync_settings little (\<lambda>_. 0) settings_default True 7 settings_manager_new of Inr (s, _) \<Rightarrow> s
   in snd (run_ops (settings_step little (\<lambda>_. 0)) (map Settings_Frame [set, ack]) s) = [(7, no_error)] \<and>
      snd (run_ops (settings_step little (\<lambda>_. 0)) (map Settings_Frame [ack, set]) s) = []"
proof -
  define ack where "ack = span_of (\<lambda>_. 0) (data_view (settings_ack little (\<lambda>_. 0)))"
  define set where "set = span_of (\<lambda>_. 0) (data_view (settings_frame little (\<lambda>_. 0) []))"
  have a: "span_bytes ack = wire_frame little (frame_type_value SETTINGS) ACK 0 []"
    "span_bytes set = wire_frame little (frame_type_value SETTINGS) 0 0 []"
    by (simp_all add: ack_def set_def settings_ack_bytes settings_frame_bytes)
  have p: "parsed little SETTINGS ack" "parsed little SETTINGS set" "is_ack little ack" "\<not> is_ack little set"
    using parsed_wire a get_frame_wire(2) [OF a(1)] get_frame_wire(2) [OF a(2)]
    by (simp_all add: has_flag_def ACK_def)
  obtain s f where s: "initiate_sync_settings little (\<lambda>_. 0) settings_default True 7 settings_manager_new = Inr (s, f)"
    by (simp add: initiate_sync_settings_def settings_manager_new_def)
  have "\<exists>k<length [set, ack]. is_ack little ([set, ack] ! k) \<and> (\<exists>i<k. \<not> is_ack little ([set, ack] ! i))"
    using p by (intro exI [where x = 1]) simp
  moreover have "\<not> (\<exists>k<length [ack, set]. is_ack little ([ack, set] ! k) \<and> (\<exists>i<k. \<not> is_ack little ([ack, set] ! i)))"
    using p by (auto simp: less_Suc_eq)
  ultimately show ?thesis
    using settings_sync_exact [OF s, of "[set, ack]" "fst (run_ops (settings_step little (\<lambda>_. 0)) (map Settings_Frame [set, ack]) s)"
        "snd (run_ops (settings_step little (\<lambda>_. 0)) (map Settings_Frame [set, ack]) s)"]
      settings_sync_exact [OF s, of "[ack, set]" "fst (run_ops (settings_step little (\<lambda>_. 0)) (map Settings_Frame [ack, set]) s)"
        "snd (run_ops (settings_step little (\<lambda>_. 0)) (map Settings_Frame [ack, set]) s)"] p s
    by (simp add: Let_def flip: ack_def set_def)
qed

text \<open>
  C19: whatever happens to a settings manager, synchronisations, frames, timeouts and cancellations in
  any order, each handler it took over is called at most once, and is either called or still
  stored: none is lost.
\<close>

theorem settings_handler_once:
  assumes "distinct (given_ops (settings_step native fill) settings_given ops settings_manager_new)"
    and "run_ops (settings_step native fill) ops settings_manager_new = (s, calls)"
  shows "distinct (map fst calls @ opt_list (sm_handler s)) \<and>
    set (map fst calls) \<union> set (opt_list (sm_handler s)) =
      set (given_ops (settings_step native fill) settings_given ops settings_manager_new)"
  using sm.called_once [of settings_manager_new native fill ops] assms by (simp add: settings_manager_new_def)

theorem settings_handler_once_witness:
  "map fst (snd (run_ops (settings_step little (\<lambda>_. 0))
     [Sync settings_default True 1, Sync settings_default True 2, Settings_Timer False, Cancel no_error] settings_manager_new)) = [1]"
proof -
  let ?ops = "[Sync settings_default True 1, Sync settings_default True 2, Settings_Timer False, Cancel no_error]"
  let ?r = "run_ops (settings_step little (\<lambda>_. 0)) ?ops settings_manager_new"
  have g: "given_ops (settings_step little (\<lambda>_. 0)) settings_given ?ops settings_manager_new = [1]"
    and h: "sm_handler (fst ?r) = None"
    by (simp_all add: settings_manager_new_def initiate_sync_settings_def on_settings_timer_def sm_finished_def sm_cancel_def)
  have "distinct (given_ops (settings_step little (\<lambda>_. 0)) settings_given ?ops settings_manager_new)"
    unfolding g by simp
  from settings_handler_once [OF this, of "fst ?r" "snd ?r", unfolded g h]
  have "distinct (map fst (snd ?r))" "set (map fst (snd ?r)) = {1}" by (simp_all only: prod.collapse) auto
  then show ?thesis by (intro distinct_single)
qed

end
