(* ===== verification/Http2_Client.thy ===== *)
theory Http2_Client
  imports Hpack_Decoder Http2_Registry Http2_Settings
begin

text \<open>
  The transport-independent client (\<open>lib/base_client.{h,cpp}\<close>). Its state holds the HPACK coders, the
  settings, the registry, the receive window of the connection, the queue of control frames, and the
  flags of the connection. A member function is an action: it returns the new state, the calls it makes to
  \<open>init_write\<close> (virtual here, the session implements it) and to completion handlers, in order, and a result
  or an exception, which leaves the state as far as it got. The mutexes are not part of the model.
\<close>

section \<open>State and actions\<close>

record client =
  cl_decoder :: decoder_table
  cl_encoder :: encoder
  cl_settings :: settings_manager
  cl_registry :: registry
  cl_local_window :: dummy_window
  cl_start_connecting :: bool
  cl_is_connected :: bool
  cl_start_disconnect :: bool
  cl_connection_error :: error_value
  cl_disconnect_handler :: "handler option"
  cl_client_id_order :: u32
  cl_tx_command_queue :: "buffer list"
  cl_server_window_size :: u64
  cl_ping_handler :: "handler option"

definition client_new :: client where
  "client_new = \<lparr>
     cl_decoder = decoder_new,
     cl_encoder = encoder_new,
     cl_settings = settings_manager_new,
     cl_registry = registry_new,
     cl_local_window = dummy_window_new INITIAL_WINDOW_SIZE (INITIAL_WINDOW_SIZE div 4),
     cl_start_connecting = False,
     cl_is_connected = False,
     cl_start_disconnect = False,
     cl_connection_error = no_error,
     cl_disconnect_handler = None,
     cl_client_id_order = 1,
     cl_tx_command_queue = [],
     cl_server_window_size = ucast INITIAL_WINDOW_SIZE,
     cl_ping_handler = None\<rparr>"

datatype client_event =
    Init_Write
  | Sync_Done handler error_value
  | Response_Done handler error_value response
  | Ping_Done handler error_value
  | Disconnect_Done handler

type_synonym 'a action = "client \<Rightarrow> client \<times> client_event list \<times> 'a result"

definition then_act :: "'a action \<Rightarrow> ('a \<Rightarrow> 'b action) \<Rightarrow> 'b action" where
  "then_act m f c =
     (case m c of
        (c1, ev1, Inl e) \<Rightarrow> (c1, ev1, Inl e)
      | (c1, ev1, Inr x) \<Rightarrow> (case f x c1 of (c2, ev2, r) \<Rightarrow> (c2, ev1 @ ev2, r)))"

definition try_act :: "'a result \<Rightarrow> 'a action" where
  "try_act r c = (c, [], r)"

definition change :: "(client \<Rightarrow> client) \<Rightarrow> unit action" where
  "change f c = (f c, [], Inr ())"

definition emit :: "client_event list \<Rightarrow> unit action" where
  "emit ev c = (c, ev, Inr ())"

definition seq :: "unit action \<Rightarrow> 'a action \<Rightarrow> 'a action" where
  "seq m k = then_act m (\<lambda>_. k)"

primrec each :: "('x \<Rightarrow> unit action) \<Rightarrow> 'x list \<Rightarrow> unit action" where
  "each f [] = emit []"
| "each f (x # xs) = seq (f x) (each f xs)"

section \<open>Starting things\<close>

definition get_next_stream_id :: "byte_order \<Rightarrow> client \<Rightarrow> client \<times> u32" where
  "get_next_stream_id native c =
     (let order = cl_client_id_order c
      in (c\<lparr>cl_client_id_order := order + 1\<rparr>, native_to_big32 native (order * 2 - 1)))"

definition send_command :: "buffer \<Rightarrow> unit action" where
  "send_command buff = change (\<lambda>c. c\<lparr>cl_tx_command_queue := cl_tx_command_queue c @ [buff]\<rparr>)"

definition preambula :: "byte list" where
  "preambula = str_bytes (''PRI * HTTP/2.0'' @ [CHR 0x0D, CHR 0x0A, CHR 0x0D, CHR 0x0A] @ ''SM'' @ [CHR 0x0D, CHR 0x0A, CHR 0x0D, CHR 0x0A])"

definition write_initial_frames :: "(nat \<Rightarrow> byte) \<Rightarrow> unit action" where
  "write_initial_frames fill = send_command (fst (commit_span preambula (buffer_new fill (length preambula))))"

text \<open>The handler that \<open>initiate_sync_settings\<close> gives to the settings manager: it wraps \<open>last_handler\<close>.\<close>

definition settings_synced :: "byte_order \<Rightarrow> (nat \<Rightarrow> byte) \<Rightarrow> handler \<times> error_value \<Rightarrow> unit action" where
  "settings_synced native fill = (\<lambda>(last_handler, ec).
     seq
       (\<lambda>c. if \<not> ec_failed ec
        then
          let l = sm_local (cl_settings c);
              window_size = set_initial_window_size l * set_max_concurrent_streams l;
              window_increment = window_size - dw_current (cl_local_window c)
          in seq (change (\<lambda>c. c\<lparr>cl_local_window := dummy_window_new window_size (window_size div 2)\<rparr>))
              (seq (send_command (update_window native fill window_increment 0)) (emit [Init_Write])) c
        else emit [] c)
       (emit [Sync_Done last_handler ec]))"

definition client_sync_settings :: "byte_order \<Rightarrow> (nat \<Rightarrow> byte) \<Rightarrow> bool \<Rightarrow> handler \<Rightarrow> unit action" where
  "client_sync_settings native fill remote_sync handler c =
     (case initiate_sync_settings native fill settings_default remote_sync handler (cl_settings c) of
        Inl e \<Rightarrow> (c, [], Inl e)
      | Inr (sm, buff) \<Rightarrow> seq (send_command buff) (emit [Init_Write]) (c\<lparr>cl_settings := sm\<rparr>))"

text \<open>The timer of the settings manager.\<close>

definition client_settings_timer :: "byte_order \<Rightarrow> (nat \<Rightarrow> byte) \<Rightarrow> bool \<Rightarrow> unit action" where
  "client_settings_timer native fill aborted c =
     (case on_settings_timer native aborted (cl_settings c) of (sm, calls) \<Rightarrow>
        each (settings_synced native fill) calls (c\<lparr>cl_settings := sm\<rparr>))"

definition initiate_disconnect :: "byte_order \<Rightarrow> (nat \<Rightarrow> byte) \<Rightarrow> error_value \<Rightarrow> handler option \<Rightarrow> unit action" where
  "initiate_disconnect native fill ec handler c =
     (if cl_start_disconnect c then emit (map Disconnect_Done (opt_list handler)) c
      else
        (case sm_cancel ec (cl_settings c) of (sm, calls, cancelled) \<Rightarrow>
           seq (each (settings_synced native fill) calls)
             (if cancelled then emit []
              else
                seq (change (\<lambda>c. c\<lparr>cl_connection_error := ec, cl_disconnect_handler := handler\<rparr>))
                  (seq (send_command (goaway native fill (error_code_value native IS_OK) 1 [])) (emit [Init_Write])))
             (c\<lparr>cl_start_disconnect := True, cl_settings := sm\<rparr>)))"

definition initiate_ping :: "byte_order \<Rightarrow> (nat \<Rightarrow> byte) \<Rightarrow> handler \<Rightarrow> unit action" where
  "initiate_ping native fill handler c =
     (if \<not> cl_is_connected c then (c, [], Inl (system_error (asio_error not_connected)))
      else if cl_ping_handler c \<noteq> None then (c, [], Inl (system_error (asio_error in_progress)))
      else send_command (ping native fill []) (c\<lparr>cl_ping_handler := Some handler\<rparr>))"

definition initiate_send :: "byte_order \<Rightarrow> request \<Rightarrow> handler \<Rightarrow> unit action" where
  "initiate_send native rq handler c =
     (if \<not> cl_is_connected c then (c, [], Inl (system_error (asio_error not_connected)))
      else
        let (c1, i) = get_next_stream_id native c;
            sptr = stream_new i (set_initial_window_size (sm_remote (cl_settings c1)))
              (set_initial_window_size (sm_local (cl_settings c1))) rq handler;
            (r, a) = alloc_stream sptr (cl_registry c1)
        in emit [Init_Write] (c1\<lparr>cl_registry := add_stream i a r\<rparr>))"

definition cleanup_after_disconnect :: "error_value \<Rightarrow> unit action" where
  "cleanup_after_disconnect ec c =
     (case reg_reset ec (cl_registry c) of (r, calls) \<Rightarrow>
        (c\<lparr>cl_registry := r, cl_start_connecting := False\<rparr>, map (\<lambda>(h, e, rs). Response_Done h e rs) calls, Inr ()))"

section \<open>Receiving frames\<close>

text \<open>\<open>invoke_for_stream\<close> on the registry of the client; \<open>op\<close> is the member function with its arguments.\<close>

definition stream_act :: "byte_order \<Rightarrow> (int \<Rightarrow> byte) \<Rightarrow> u32 \<Rightarrow> stream_op \<Rightarrow> unit action" where
  "stream_act native out stream_id op c =
     (case invoke_for_stream stream_id (receive_member native out op) (cl_registry c) of
        (r, Inl e) \<Rightarrow> (c\<lparr>cl_registry := r\<rparr>, [], Inl e)
      | (r, Inr (processed, calls)) \<Rightarrow> (c\<lparr>cl_registry := r\<rparr>, map (\<lambda>(h, e, rs). Response_Done h e rs) calls, Inr ()))"

text \<open>\<open>frame_analyzer::from_buffer\<close> and \<open>get_frame\<close>, with which the handlers begin.\<close>

definition open_frame :: "byte_order \<Rightarrow> frame_type \<Rightarrow> span \<Rightarrow> span action" where
  "open_frame native t data = try_act (bind_res (from_buffer native data) (get_frame native t))"

definition client_receive_data :: "byte_order \<Rightarrow> (int \<Rightarrow> byte) \<Rightarrow> buffer \<Rightarrow> unit action" where
  "client_receive_data native out buff =
     then_act (open_frame native DATA (buffer_span out buff)) (\<lambda>frame.
       stream_act native out (fh_stream_id (frame_header native frame)) (Receive_Data buff))"

definition on_receive_data_not_reachable :: "byte_order \<Rightarrow> span \<Rightarrow> unit action" where
  "on_receive_data_not_reachable native data =
     try_act (Inl (system_error (make_error_code (error_code_value native INTERNAL_ERROR))))"

text \<open>\<open>decoder.decode\<close>, any exception of which becomes a compression error.\<close>

definition decode_fields :: "byte_order \<Rightarrow> span \<Rightarrow> header action" where
  "decode_fields native block c =
     (case hpack_decode (cl_decoder c) block of
        (d, Inl undefined_behaviour) \<Rightarrow> (c\<lparr>cl_decoder := d\<rparr>, [], Inl undefined_behaviour)
      | (d, Inl e) \<Rightarrow> (c\<lparr>cl_decoder := d\<rparr>, [], Inl (system_error (make_error_code (error_code_value native COMPRESSION_ERROR))))
      | (d, Inr hs) \<Rightarrow> (c\<lparr>cl_decoder := d\<rparr>, [], Inr hs))"

definition client_receive_headers :: "byte_order \<Rightarrow> (int \<Rightarrow> byte) \<Rightarrow> span \<Rightarrow> unit action" where
  "client_receive_headers native out data =
     then_act (open_frame native HEADERS data) (\<lambda>headers_frame.
       then_act (decode_fields native (headers_block native headers_frame)) (\<lambda>hs.
         stream_act native out (fh_stream_id (frame_header native headers_frame))
           (Receive_Headers hs (fh_flags (frame_header native headers_frame)) (sp_len data))))"

definition on_receive_priority :: "span \<Rightarrow> unit action" where
  "on_receive_priority data = emit []"

definition client_receive_reset :: "byte_order \<Rightarrow> (int \<Rightarrow> byte) \<Rightarrow> span \<Rightarrow> unit action" where
  "client_receive_reset native out data =
     then_act (open_frame native RST_STREAM data) (\<lambda>rst_frame.
       stream_act native out (fh_stream_id (frame_header native rst_frame)) (Receive_Reset (reset_code native rst_frame)))"

definition on_receive_settings :: "byte_order \<Rightarrow> (nat \<Rightarrow> byte) \<Rightarrow> span \<Rightarrow> unit action" where
  "on_receive_settings native fill data c =
     (case on_settings_frame native fill data (cl_settings c) of
        Inl e \<Rightarrow> (c, [], Inl e)
      | Inr (sm, calls, opt_buff) \<Rightarrow>
          seq (each (settings_synced native fill) calls) (each send_command (opt_list opt_buff)) (c\<lparr>cl_settings := sm\<rparr>))"

definition on_receive_push :: "byte_order \<Rightarrow> (nat \<Rightarrow> byte) \<Rightarrow> span \<Rightarrow> unit action" where
  "on_receive_push native fill data =
     seq (send_command (goaway native fill (error_code_value native PROTOCOL_ERROR) 1 [])) (emit [Init_Write])"

definition on_receive_ping :: "byte_order \<Rightarrow> (nat \<Rightarrow> byte) \<Rightarrow> span \<Rightarrow> unit action" where
  "on_receive_ping native fill data =
     then_act (open_frame native PING data) (\<lambda>ping_frame c.
       if has_flag (fh_flags (frame_header native ping_frame)) ACK
       then (case cl_ping_handler c of
               Some h \<Rightarrow> emit [Ping_Done h no_error] (c\<lparr>cl_ping_handler := None\<rparr>)
             | None \<Rightarrow> emit [] c)
       else
         let ack_buffer = fst (commit_span (span_bytes data) (buffer_new fill (sp_len data)));
             ack_flags = (buf_memory ack_buffer ! 4) OR ACK
         in send_command (ack_buffer\<lparr>buf_memory := (buf_memory ack_buffer)[4 := ack_flags]\<rparr>) c)"

definition on_receive_goaway :: "span \<Rightarrow> unit action" where
  "on_receive_goaway data = emit []"

definition client_receive_window_update :: "byte_order \<Rightarrow> (int \<Rightarrow> byte) \<Rightarrow> span \<Rightarrow> unit action" where
  "client_receive_window_update native out data =
     then_act (open_frame native WINDOW_UPDATE data) (\<lambda>frame.
       let size_increment = window_size frame
       in if fh_stream_id (frame_header native frame) = 0
          then change (\<lambda>c. c\<lparr>cl_server_window_size := cl_server_window_size c + ucast size_increment\<rparr>)
          else stream_act native out (fh_stream_id (frame_header native frame)) (Receive_Window_Update size_increment))"

definition client_receive_continuation :: "byte_order \<Rightarrow> (int \<Rightarrow> byte) \<Rightarrow> span \<Rightarrow> unit action" where
  "client_receive_continuation native out data =
     then_act (open_frame native CONTINUATION data) (\<lambda>continuation_frame.
       then_act (decode_fields native (continuation_block native continuation_frame)) (\<lambda>hs.
         stream_act native out (fh_stream_id (frame_header native continuation_frame))
           (Receive_Continuation hs (fh_flags (frame_header native continuation_frame)) (sp_len data))))"

definition frame_handlers :: "byte_order \<Rightarrow> (nat \<Rightarrow> byte) \<Rightarrow> (int \<Rightarrow> byte) \<Rightarrow> (span \<Rightarrow> unit action) list" where
  "frame_handlers native fill out = [
     on_receive_data_not_reachable native,
     client_receive_headers native out,
     on_receive_priority,
     client_receive_reset native out,
     on_receive_settings native fill,
     on_receive_push native fill,
     on_receive_ping native fill,
     on_receive_goaway,
     client_receive_window_update native out,
     client_receive_continuation native out]"

text \<open>The bytes of a frame, taken from the receive window of the connection.\<close>

definition window_received :: "byte_order \<Rightarrow> (nat \<Rightarrow> byte) \<Rightarrow> nat \<Rightarrow> unit action" where
  "window_received native fill n c =
     (case dw_update native fill 0 (dw_dec (of_nat n) (cl_local_window c)) of (w, upd_window) \<Rightarrow>
        each send_command (opt_list upd_window) (c\<lparr>cl_local_window := w\<rparr>))"

definition on_receive_frame :: "byte_order \<Rightarrow> (nat \<Rightarrow> byte) \<Rightarrow> (int \<Rightarrow> byte) \<Rightarrow> span \<Rightarrow> unit action" where
  "on_receive_frame native fill out data =
     seq (window_received native fill (sp_len data))
       (then_act (try_act (from_buffer native data)) (\<lambda>fanalyzer.
          let frame_type = unat (fh_type (frame_header native fanalyzer))
          in if frame_type < length (frame_handlers native fill out) then (frame_handlers native fill out ! frame_type) data
             else try_act (Inl undefined_behaviour)))"

definition on_receive_data_frame :: "byte_order \<Rightarrow> (nat \<Rightarrow> byte) \<Rightarrow> (int \<Rightarrow> byte) \<Rightarrow> buffer \<Rightarrow> unit action" where
  "on_receive_data_frame native fill out buff =
     seq (window_received native fill (length (data_view buff))) (client_receive_data native out buff)"

section \<open>Reading\<close>

text \<open>
  The loop of \<open>on_read\<close>. \<open>used_bytes\<close> is also the offset of \<open>incoming_bytes\<close> in the buffer, so that the two
  pointers the code compares are equal when it is 0. The loop returns the state, the calls, the buffer, whether
  no bytes are left, the bytes used, and an exception if one left the loop. It is a loop on the bytes that are left,
  for which the model has \<open>None\<close> if it never ended; \<open>on_read_loop_returns\<close> shows that it ends.
\<close>

type_synonym loop_result = "client \<times> client_event list \<times> buffer \<times> bool \<times> nat \<times> unit result"

definition copy_frame :: "(nat \<Rightarrow> byte) \<Rightarrow> span \<Rightarrow> buffer" where
  "copy_frame fill frame = fst (commit_span (span_bytes frame) (buffer_new fill (sp_len frame)))"

partial_function (option) on_read_loop ::
  "byte_order \<Rightarrow> (nat \<Rightarrow> byte) \<Rightarrow> (int \<Rightarrow> byte) \<Rightarrow> client \<Rightarrow> client_event list \<Rightarrow> buffer \<Rightarrow> span \<Rightarrow> nat \<Rightarrow> loop_result option" where
  "on_read_loop native fill out c ev io_buff incoming_bytes used_bytes =
     (if sp_len incoming_bytes < header_size then Some (c, ev, io_buff, sp_len incoming_bytes = 0, used_bytes, Inr ())
      else case from_buffer native incoming_bytes of
        Inl e \<Rightarrow> Some (c, ev, io_buff, False, used_bytes, Inl e)
      | Inr frame \<Rightarrow>
          (case frame_check native (unat (set_max_frame_size (sm_local (cl_settings c)))) frame of
             Inl e \<Rightarrow> Some (c, ev, io_buff, False, used_bytes, Inl e)
           | Inr _ \<Rightarrow>
               if is_complete native frame then
                 if fh_type (frame_header native frame) = frame_type_value DATA \<and>
                    used_bytes = 0 \<and> sp_len frame = length (data_view io_buff)
                 then (case on_receive_data_frame native fill out (fst (buffer_move io_buff)) c of (c', ev', r) \<Rightarrow>
                         Some (c', ev @ ev', snd (buffer_move io_buff), r = Inr (), used_bytes, r))
                 else (case (if fh_type (frame_header native frame) = frame_type_value DATA
                             then on_receive_data_frame native fill out (copy_frame fill frame) c
                             else on_receive_frame native fill out frame c) of
                         (c', ev', Inl e) \<Rightarrow> Some (c', ev @ ev', io_buff, False, used_bytes, Inl e)
                       | (c', ev', Inr _) \<Rightarrow>
                           on_read_loop native fill out c' (ev @ ev') io_buff (subspan (sp_len frame) incoming_bytes)
                             (used_bytes + sp_len frame))
               else if length (data_view io_buff) + length (prepare io_buff) < frame_size native frame
               then Some (c, ev, fst (commit_span (span_bytes frame) (buffer_new fill (frame_size native frame))), False, 0, Inr ())
               else Some (c, ev, io_buff, False, used_bytes, Inr ())))"

text \<open>The code an exception is turned into.\<close>

fun exception_code :: "byte_order \<Rightarrow> cpp_error \<Rightarrow> error_value" where
  "exception_code native (system_error ec) = ec"
| "exception_code native e = make_error_code (error_code_value native INTERNAL_ERROR)"

definition on_read_end ::
  "byte_order \<Rightarrow> (nat \<Rightarrow> byte) \<Rightarrow> loop_result \<Rightarrow> client \<times> client_event list \<times> buffer result" where
  "on_read_end native fill = (\<lambda>(c, ev, io_buff, no_bytes, used_bytes, r).
     if r = Inl undefined_behaviour then (c, ev, Inl undefined_behaviour)
     else
       let (c', ev', _) = (case r of Inl e \<Rightarrow> initiate_disconnect native fill (exception_code native e) None c | Inr _ \<Rightarrow> (c, [], r))
       in (c', ev @ ev' @ [Init_Write],
           Inr (if no_bytes then buffer_new fill 64 else if used_bytes \<noteq> 0 then consume used_bytes io_buff else io_buff)))"

definition on_read ::
  "byte_order \<Rightarrow> (nat \<Rightarrow> byte) \<Rightarrow> (int \<Rightarrow> byte) \<Rightarrow> buffer \<Rightarrow> client \<Rightarrow> (client \<times> client_event list \<times> buffer result) option" where
  "on_read native fill out io_buff c =
     (if length (data_view io_buff) < header_size then Some (c, [], Inr io_buff)
      else map_option (on_read_end native fill) (on_read_loop native fill out c [] io_buff (buffer_span out io_buff) 0))"

section \<open>Writing\<close>

text \<open>The commands that fit in the window of the server, in order; what is left of them, and of the window.\<close>

fun tx_commands :: "buffer list \<Rightarrow> u64 \<Rightarrow> buffer list \<times> buffer list \<times> u64" where
  "tx_commands [] window = ([], [], window)"
| "tx_commands (b # bs) window =
     (if of_nat (length (data_view b)) > window then ([], b # bs, window)
      else case tx_commands bs (window - of_nat (length (data_view b))) of (sent, rest, window') \<Rightarrow> (b # sent, rest, window'))"

definition client_tx_data :: "byte_order \<Rightarrow> stray \<Rightarrow> (nat \<Rightarrow> byte) \<Rightarrow> buffer list action" where
  "client_tx_data native stray fill c =
     (case tx_commands (cl_tx_command_queue c) (cl_server_window_size c) of (res, rest, window) \<Rightarrow>
        let c1 = c\<lparr>cl_tx_command_queue := rest, cl_server_window_size := window\<rparr>
        in if rest \<noteq> [] then (c1, [], Inr res)
           else
             let limit = min window (ucast (set_max_frame_size (sm_local (cl_settings c1))))
             in if limit \<ge> 18
                then (case get_data native stray fill limit (cl_encoder c1) (cl_registry c1) of
                        (r, enc, Inl e) \<Rightarrow> (c1\<lparr>cl_registry := r, cl_encoder := enc\<rparr>, [], Inl e)
                      | (r, enc, Inr (frames, bytes_used)) \<Rightarrow>
                          (c1\<lparr>cl_registry := r, cl_encoder := enc, cl_server_window_size := window - bytes_used\<rparr>, [], Inr (res @ frames)))
                else (c1, [], Inr res))"

section \<open>What is read is handled frame by frame\<close>

text \<open>The complete frames at the beginning of a list of bytes, and what follows them.\<close>

function split_frames :: "byte list \<Rightarrow> byte list list \<times> byte list" where
  "split_frames bs =
     (case next_frame bs of
        None \<Rightarrow> ([], bs)
      | Some (f, rest) \<Rightarrow> (case split_frames rest of (fs, end_bytes) \<Rightarrow> (f # fs, end_bytes)))"
  by pat_completeness auto
termination
  by (relation "measure length") (auto simp: next_frame_def header_size_def Let_def split: if_splits)

declare split_frames.simps [simp del]

text \<open>
  Handling one frame, given as a view of it and as a buffer that holds it, and checking the header of a
  frame of which only a part has arrived.
\<close>

definition check_header :: "byte_order \<Rightarrow> span \<Rightarrow> unit action" where
  "check_header native s c = try_act (frame_check native (unat (set_max_frame_size (sm_local (cl_settings c)))) s) c"

definition handle_frame :: "byte_order \<Rightarrow> (nat \<Rightarrow> byte) \<Rightarrow> (int \<Rightarrow> byte) \<Rightarrow> span \<times> buffer \<Rightarrow> unit action" where
  "handle_frame native fill out = (\<lambda>(s, b).
     seq (check_header native s)
       (if fh_type (frame_header native s) = frame_type_value DATA then on_receive_data_frame native fill out b
        else on_receive_frame native fill out s))"

definition handle_rest :: "byte_order \<Rightarrow> span \<Rightarrow> unit action" where
  "handle_rest native s = (if sp_len s < header_size then emit [] else check_header native s)"

text \<open>A buffer in which exactly \<open>bs\<close> is kept, with space for a header and for more bytes.\<close>

definition keeps_unread :: "byte list \<Rightarrow> buffer \<Rightarrow> bool" where
  "keeps_unread bs b \<longleftrightarrow> buffer_ok b \<and> data_view b = bs \<and> header_size \<le> buf_maxsize b \<and> prepare b \<noteq> []"

definition frames_in :: "(span \<times> buffer) list \<Rightarrow> span \<Rightarrow> byte list \<Rightarrow> bool" where
  "frames_in items tail bs \<longleftrightarrow> split_frames bs = (map (\<lambda>(s, b). span_bytes s) items, span_bytes tail) \<and>
     list_all (\<lambda>(s, b). buffer_ok b \<and> data_view b = span_bytes s) items"

definition reads_exactly ::
  "byte_order \<Rightarrow> (nat \<Rightarrow> byte) \<Rightarrow> (int \<Rightarrow> byte) \<Rightarrow> byte list \<Rightarrow> client \<Rightarrow> client_event list \<Rightarrow> loop_result option \<Rightarrow> bool" where
  "reads_exactly native fill out bs c ev res \<longleftrightarrow> (\<exists>items tail c' ev' b nb used r. frames_in items tail bs \<and>
     res = Some (c', ev @ ev', b, nb, used, r) \<and>
     seq (each (handle_frame native fill out) items) (handle_rest native tail) c = (c', ev', r) \<and>
     (r = Inr () \<longrightarrow> keeps_unread (span_bytes tail) (if nb then buffer_new fill 64 else consume used b)))"

lemma seq_simps [simp]:
  "m c = (c1, ev1, Inl e) \<Longrightarrow> seq m k c = (c1, ev1, Inl e)"
  "m c = (c1, ev1, Inr u) \<Longrightarrow> k c1 = (c2, ev2, r) \<Longrightarrow> seq m k c = (c2, ev1 @ ev2, r)"
  by (simp_all add: seq_def then_act_def)

lemma seq_emit_Nil [simp]: "seq (emit []) k = k"
  by (rule ext) (simp add: seq_def then_act_def emit_def split: prod.split)

lemma seq_assoc: "seq (seq a b) k = seq a (seq b k)"
  by (rule ext) (simp add: seq_def then_act_def split: prod.split sum.split)

lemma reads_exactly_stop:
  assumes "next_frame bs = None" "bs = span_bytes tail" "handle_rest native tail c = (c, [], r)"
    and "r = Inr () \<Longrightarrow> keeps_unread bs (if nb then buffer_new fill 64 else consume used b)"
  shows "reads_exactly native fill out bs c ev (Some (c, ev, b, nb, used, r))"
  unfolding reads_exactly_def
  by (rule exI [of _ "[]"], rule exI [of _ tail])
    (use assms in \<open>simp add: frames_in_def split_frames.simps\<close>)

lemma split_frames_Nil: "split_frames [] = ([], [])"
  by (simp add: split_frames.simps next_frame_def header_size_def)

lemma reads_exactly_frame:
  assumes "next_frame bs = Some (span_bytes s, rest)" "buffer_ok b \<and> data_view b = span_bytes s"
    and "handle_frame native fill out (s, b) c = (c1, ev1, Inr u)"
    and "reads_exactly native fill out rest c1 (ev @ ev1) res"
  shows "reads_exactly native fill out bs c ev res"
proof -
  obtain items tail c' ev' b' nb used r where x: "frames_in items tail rest" "res = Some (c', (ev @ ev1) @ ev', b', nb, used, r)"
     "seq (each (handle_frame native fill out) items) (handle_rest native tail) c1 = (c', ev', r)"
     "r = Inr () \<longrightarrow> keeps_unread (span_bytes tail) (if nb then buffer_new fill 64 else consume used b')"
    using assms(4) unfolding reads_exactly_def by blast
  have "frames_in ((s, b) # items) tail bs" using x(1) assms(1,2) by (simp add: frames_in_def split_frames.simps [of bs])
  moreover have "seq (each (handle_frame native fill out) ((s, b) # items)) (handle_rest native tail) c = (c', ev1 @ ev', r)"
    using assms(3) x(3) by (simp add: seq_assoc)
  ultimately show ?thesis unfolding reads_exactly_def using x(2,4) by force
qed

lemma frames_in_exists: "\<exists>items tail. frames_in items tail bs"
proof -
  obtain fs rest where "split_frames bs = (fs, rest)" by fastforce
  then have "frames_in (map (\<lambda>f. (span_of (\<lambda>_. 0) f, \<lparr>buf_offset = length f, buf_maxsize = length f, buf_memory = f\<rparr>)) fs)
      (span_of (\<lambda>_. 0) rest) bs"
    by (simp add: frames_in_def data_view_def buffer_ok_def comp_def list_all_iff)
  then show ?thesis by blast
qed

lemma reads_exactly_throw:
  assumes "next_frame bs = Some (span_bytes s, rest)" "buffer_ok b \<and> data_view b = span_bytes s"
    and "handle_frame native fill out (s, b) c = (c1, ev1, Inl e)"
  shows "reads_exactly native fill out bs c ev (Some (c1, ev @ ev1, b', nb, used, Inl e))"
proof -
  obtain items tail where "frames_in items tail rest" using frames_in_exists by blast
  then have "frames_in ((s, b) # items) tail bs" using assms(1,2) by (simp add: frames_in_def split_frames.simps [of bs])
  moreover have "seq (each (handle_frame native fill out) ((s, b) # items)) (handle_rest native tail) c = (c1, ev1, Inl e)"
    using assms(3) by (simp add: seq_assoc)
  ultimately show ?thesis unfolding reads_exactly_def by blast
qed

lemma buffer_move_eq [simp]: "fst (buffer_move b) = b"
  by (simp add: buffer_move_def)

lemma data_view_copy_frame [simp]: "data_view (copy_frame fill s) = span_bytes s"
  by (simp add: copy_frame_def data_view_commit_span)

lemma copy_frame_ok: "buffer_ok (copy_frame fill s) \<and> data_view (copy_frame fill s) = span_bytes s"
  by (simp add: copy_frame_def buffer_ok_commit_span data_view_commit_span)

lemma keeps_unread_new: "keeps_unread [] (buffer_new fill 64)"
  by (simp add: keeps_unread_def header_size_def) (simp add: buffer_defs)

lemma keeps_unread_consume:
  assumes "buffer_ok b" "used \<le> buf_offset b" "bs = drop used (data_view b)" "length bs < n" "n \<le> buf_maxsize b" "header_size \<le> n"
  shows "keeps_unread bs (consume used b)"
proof -
  have "length (prepare (consume used b)) = buf_maxsize b - (buf_offset b - used)"
    using assms(1,2) by (simp add: length_prepare buffer_ok_consume)
  moreover have "length bs = buf_offset b - used" using assms(1,3) by (simp add: length_data_view)
  ultimately have "0 < length (prepare (consume used b))" using assms(4,5) by simp
  then show ?thesis using assms by (simp add: keeps_unread_def buffer_ok_consume data_view_consume)
qed

lemma buf_maxsize_commit_span [simp]: "buf_maxsize (fst (commit_span bs b)) = buf_maxsize b"
  by (simp add: commit_span_def Let_def)

lemma keeps_unread_bigger:
  assumes "length bs < n" "header_size \<le> n"
  shows "keeps_unread bs (consume 0 (fst (commit_span bs (buffer_new fill n))))"
proof -
  let ?b = "fst (commit_span bs (buffer_new fill n))"
  have "buffer_ok ?b" "data_view ?b = bs" "buf_maxsize ?b = n"
    using assms(1) by (simp_all add: buffer_ok_commit_span data_view_commit_span)
  then show ?thesis using assms by (intro keeps_unread_consume [where n = n]) auto
qed

text \<open>One round of the loop on a complete frame: it ends, or it goes on after the frame.\<close>

lemma handle_frame_eq:
  "handle_frame native fill out (s, b) c =
     (case frame_check native (unat (set_max_frame_size (sm_local (cl_settings c)))) s of
        Inl e \<Rightarrow> (c, [], Inl e)
      | Inr _ \<Rightarrow> if fh_type (frame_header native s) = frame_type_value DATA then on_receive_data_frame native fill out b c
                 else on_receive_frame native fill out s c)"
  by (simp add: handle_frame_def check_header_def try_act_def seq_def then_act_def split: sum.split prod.split)

lemma on_read_loop_frame:
  assumes "header_size \<le> sp_len inc" "from_buffer native inc = Inr frame" "is_complete native frame"
    and "span_bytes inc = drop used (data_view io)"
  obtains (Whole) c1 ev1 r where "handle_frame native fill out (frame, io) c = (c1, ev1, r)" "data_view io = span_bytes frame"
      "on_read_loop native fill out c ev io inc used = Some (c1, ev @ ev1, snd (buffer_move io), r = Inr (), used, r)"
      "drop (sp_len frame) (span_bytes inc) = []"
  | (Throw) c1 ev1 e where "handle_frame native fill out (frame, copy_frame fill frame) c = (c1, ev1, Inl e)"
      "on_read_loop native fill out c ev io inc used = Some (c1, ev @ ev1, io, False, used, Inl e)"
  | (Next) c1 ev1 u where "handle_frame native fill out (frame, copy_frame fill frame) c = (c1, ev1, Inr u)"
      "on_read_loop native fill out c ev io inc used =
         on_read_loop native fill out c1 (ev @ ev1) io (subspan (sp_len frame) inc) (used + sp_len frame)"
proof -
  note loop = on_read_loop.simps [of native fill out c ev io inc used]
  note nf = from_buffer_next_frame [OF assms(2)]
  let ?check = "frame_check native (unat (set_max_frame_size (sm_local (cl_settings c)))) frame"
  let ?whole = "fh_type (frame_header native frame) = frame_type_value DATA \<and> used = 0 \<and> sp_len frame = length (data_view io)"
  show thesis
  proof (cases ?check)
    case (Inl e)
    then show thesis using assms(1-3) by (intro Throw) (simp_all add: handle_frame_eq loop)
  next
    case (Inr u)
    show thesis
    proof (cases ?whole)
      case True
      then have "data_view io = span_bytes inc" using assms(4) by simp
      moreover have "sp_len frame = sp_len inc" using True calculation by (metis length_span_bytes)
      moreover have "frame = inc" using nf(3) calculation(2) by simp
      moreover obtain c1 ev1 r where h: "on_receive_data_frame native fill out io c = (c1, ev1, r)" by (metis prod_cases3)
      ultimately show thesis using True Inr assms(1-3) by (intro Whole [of c1 ev1 r])
        (simp_all add: handle_frame_eq on_read_loop.simps [of native fill out c ev io inc 0])
    next
      case False
      obtain c1 ev1 r where h: "handle_frame native fill out (frame, copy_frame fill frame) c = (c1, ev1, r)" by (metis prod_cases3)
      then have h': "(if fh_type (frame_header native frame) = frame_type_value DATA
          then on_receive_data_frame native fill out (copy_frame fill frame) c else on_receive_frame native fill out frame c) = (c1, ev1, r)"
        using Inr by (simp add: handle_frame_eq)
      show thesis
      proof (cases r)
        case (Inl e)
        then show thesis using h h' Inr False assms(1-3) by (intro Throw [of c1 ev1 e]) (auto simp: loop)
      next
        case (Inr u')
        then show thesis using h h' \<open>?check = _\<close> False assms(1-3) by (intro Next [of c1 ev1 u']) (auto simp: loop)
      qed
    qed
  qed
qed

text \<open>The loop, by induction on the bytes left. Every complete frame has at least the nine bytes of a header.\<close>

lemma on_read_loop_exact:
  assumes "buffer_ok io" "header_size \<le> buf_maxsize io" "used \<le> buf_offset io" "span_bytes inc = drop used (data_view io)"
  shows "reads_exactly native fill out (span_bytes inc) c ev (on_read_loop native fill out c ev io inc used)"
  using assms
proof (induction "sp_len inc" arbitrary: c ev inc used rule: less_induct)
  case less
  note loop = on_read_loop.simps [of native fill out c ev io inc used]
  show ?case
  proof (cases "sp_len inc < header_size")
    case True
    have "keeps_unread (span_bytes inc) (if sp_len inc = 0 then buffer_new fill 64 else consume used io)"
    proof (cases "sp_len inc = 0")
      case True
      then have e: "span_bytes inc = []" by (simp only: span_bytes_Nil_iff)
      show ?thesis unfolding e using True keeps_unread_new by simp
    next
      case False
      then show ?thesis using True keeps_unread_consume [OF less.prems(1,3,4) _ less.prems(2) order_refl] by simp
    qed
    moreover have "next_frame (span_bytes inc) = None" using True by (simp add: next_frame_def)
    ultimately show ?thesis using True
      by (subst loop) (auto intro!: reads_exactly_stop [where tail = inc] simp: handle_rest_def emit_def)
  next
    case long: False
    obtain frame where frame: "from_buffer native inc = Inr frame" using long by (simp add: from_buffer_def)
    note nf = from_buffer_next_frame [OF frame]
    let ?check = "frame_check native (unat (set_max_frame_size (sm_local (cl_settings c)))) frame"
    show ?thesis
    proof (cases "is_complete native frame")
      case False
      then have rest: "frame = inc" "next_frame (span_bytes inc) = None" using nf(7) by simp_all
      have size: "length (span_bytes inc) < frame_size native inc" "header_size \<le> frame_size native inc"
        using False rest(1) by (simp_all add: is_complete_def frame_size_def)
      have max: "length (data_view io) + length (prepare io) = buf_maxsize io"
        using less.prems(1) by (simp add: length_data_view length_prepare buffer_ok_offset)
      have handle: "handle_rest native inc c = (c, [], ?check)" using long rest(1) by (simp add: handle_rest_def check_header_def try_act_def)
      show ?thesis
        using False long frame rest handle
          keeps_unread_bigger [OF size, of fill] keeps_unread_consume [OF less.prems(1,3,4) size(1) _ size(2)]
        by (subst loop) (auto simp: max split: sum.splits intro!: reads_exactly_stop [where tail = inc])
    next
      case True
      then have nxt: "next_frame (span_bytes inc) = Some (span_bytes frame, drop (sp_len frame) (span_bytes inc))" by (rule nf(6))
      from long have "header_size \<le> sp_len inc" by simp
      then show ?thesis using frame True less.prems(4)
      proof (cases rule: on_read_loop_frame [where fill = fill and out = out and c = c and ev = ev])
        case (Whole c1 ev1 r)
        show ?thesis
        proof (cases r)
          case (Inl e)
          then show ?thesis using nxt Whole less.prems(1) by (simp add: reads_exactly_throw)
        next
          case (Inr u)
          have "reads_exactly native fill out [] c1 (ev @ ev1) (Some (c1, ev @ ev1, snd (buffer_move io), True, used, Inr ()))"
            by (rule reads_exactly_stop [where tail = "span_of out []"])
              (simp_all add: next_frame_def header_size_def handle_rest_def emit_def keeps_unread_new)
          then show ?thesis using reads_exactly_frame [OF nxt, of io] Whole Inr less.prems(1) by simp
        qed
      next
        case (Throw c1 ev1 e)
        show ?thesis unfolding Throw(2) by (rule reads_exactly_throw [OF nxt copy_frame_ok Throw(1)])
      next
        case (Next c1 ev1 u)
        have "sp_len (subspan (sp_len frame) inc) < sp_len inc" using nf(1,2) by (simp add: header_size_def)
        moreover have "length (span_bytes inc) = buf_offset io - used" using less.prems(1,4) by (simp add: length_data_view)
        then have "used + sp_len frame \<le> buf_offset io" using nf(2) less.prems(3) by simp
        moreover have "span_bytes (subspan (sp_len frame) inc) = drop (used + sp_len frame) (data_view io)"
          using less.prems(4) by (simp add: add.commute)
        ultimately have "reads_exactly native fill out (span_bytes (subspan (sp_len frame) inc)) c1 (ev @ ev1)
            (on_read_loop native fill out c1 (ev @ ev1) io (subspan (sp_len frame) inc) (used + sp_len frame))"
          using less.hyps less.prems(1,2) by blast
        then show ?thesis using reads_exactly_frame [OF nxt copy_frame_ok] Next by simp
      qed
    qed
  qed
qed

lemma on_read_loop_returns: "on_read_loop native fill out c ev io inc used \<noteq> None"
proof (induction "sp_len inc" arbitrary: c ev inc used rule: less_induct)
  case less
  have "on_read_loop native fill out c' ev' io (subspan (sp_len frame) inc) used' \<noteq> None"
    if "\<not> sp_len inc < header_size" "from_buffer native inc = Inr frame" for frame c' ev' used'
  proof -
    have "0 < sp_len frame" "0 < sp_len inc" using that from_buffer_next_frame(1) [OF that(2)] by (simp_all add: header_size_def)
    then show ?thesis using less [of "subspan (sp_len frame) inc"] by simp
  qed
  then show ?case by (subst on_read_loop.simps) (auto split: sum.split prod.split)
qed

section \<open>Handling a well-formed frame\<close>

lemma frame_check_wire:
  assumes "span_bytes s = wire_frame native (frame_type_value t) flags sid payload" "length payload < 2 ^ 24" "length payload \<le> n"
  shows "frame_check native n s = Inr ()"
proof -
  have "frame_type_value t \<le> 9" by (cases t) simp_all
  then show ?thesis
    using wire_frame_header [of s native "frame_type_value t" flags sid payload "[]"] assms
    by (auto simp: frame_check_def check_table_def Let_def word_le_nat_alt word_less_nat_alt)
qed

lemma handle_frame_wire:
  assumes "span_bytes s = wire_frame native (frame_type_value t) flags sid payload" "length payload < 2 ^ 24"
    and "length payload \<le> unat (set_max_frame_size (sm_local (cl_settings c)))" "t \<noteq> DATA"
  shows "handle_frame native fill out (s, b) c =
    seq (window_received native fill (header_size + length payload))
      ((frame_handlers native fill out ! unat (frame_type_value t)) s) c"
proof -
  have h: "fh_type (frame_header native s) = frame_type_value t"
    using wire_frame_header(1) [of s native "frame_type_value t" flags sid payload "[]"] assms(1,2) by simp
  have len: "sp_len s = header_size + length payload" using arg_cong [OF assms(1), of length] by simp
  have "unat (frame_type_value t) < length (frame_handlers native fill out)" "frame_type_value t \<noteq> frame_type_value DATA"
    using assms(4) by (cases t; simp add: frame_handlers_def)+
  then show ?thesis
    using analyze_wire(1) [OF assms(1,2)] frame_check_wire [OF assms(1-3)] h len
    by (simp add: handle_frame_eq on_receive_frame_def seq_def then_act_def try_act_def split: prod.split sum.split)
qed

section \<open>Properties of reading\<close>

text \<open>C22: \<open>on_read\<close> returns, for every buffer and in every state of the client.\<close>

theorem on_read_returns: "\<exists>res. on_read native fill out io_buff c = Some res"
  using on_read_loop_returns [of native fill out c "[]" io_buff "buffer_span out io_buff" 0] by (auto simp: on_read_def simp del: split_paired_Ex)

lemma on_read_frames:
  assumes "buffer_ok b" "header_size \<le> buf_maxsize b"
  shows "\<exists>items tail c' ev r. frames_in items tail (data_view b) \<and>
    seq (each (handle_frame native fill out) items) (handle_rest native tail) c = (c', ev, r) \<and>
    (case r of
       Inr _ \<Rightarrow> \<exists>b'. keeps_unread (span_bytes tail) b' \<and>
         on_read native fill out b c = Some (c', ev @ (if length (data_view b) < header_size then [] else [Init_Write]), Inr b')
     | Inl e \<Rightarrow>
         if e = undefined_behaviour then on_read native fill out b c = Some (c', ev, Inl e)
         else case initiate_disconnect native fill (exception_code native e) None c' of (c'', ev', _) \<Rightarrow>
           \<exists>b'. on_read native fill out b c = Some (c'', ev @ ev' @ [Init_Write], Inr b'))"
proof (cases "length (data_view b) < header_size")
  case True
  then have "next_frame (data_view b) = None" by (simp add: next_frame_def)
  then have "frames_in [] (span_of out (data_view b)) (data_view b)" by (simp add: frames_in_def split_frames.simps)
  moreover have "keeps_unread (data_view b) b"
    using assms True by (auto simp: keeps_unread_def length_data_view simp flip: length_greater_0_conv simp: length_prepare)
  ultimately show ?thesis using True
    by (intro exI [of _ "[]"] exI [of _ "span_of out (data_view b)"]) (simp add: handle_rest_def emit_def on_read_def)
next
  case False
  let ?s = "buffer_span out b"
  have s: "span_bytes ?s = data_view b" by (simp add: assms(1) span_bytes_buffer_span)
  have "reads_exactly native fill out (data_view b) c [] (on_read_loop native fill out c [] b ?s 0)"
    using on_read_loop_exact [OF assms, of 0 ?s native fill out c "[]"] s by simp
  then obtain items tail c' ev b' nb used r where x: "frames_in items tail (data_view b)"
      "on_read_loop native fill out c [] b ?s 0 = Some (c', ev, b', nb, used, r)"
      "seq (each (handle_frame native fill out) items) (handle_rest native tail) c = (c', ev, r)"
      "r = Inr () \<longrightarrow> keeps_unread (span_bytes tail) (if nb then buffer_new fill 64 else consume used b')"
    unfolding reads_exactly_def by auto
  have "consume 0 b' = b'" by (simp add: consume_def Let_def)
  then show ?thesis using False x
    by (intro exI [of _ items] exI [of _ tail]) (auto simp: on_read_def on_read_end_def Let_def split: sum.split prod.split)
qed

text \<open>
  C4: \<open>on_read\<close> handles exactly the complete frames that the buffer holds, each once and in order, whether it
  moves a DATA frame out of the buffer, copies it or passes a view, and stops at the first exception. Without one,
  it returns a buffer that holds exactly the bytes of the frame that is not complete, with space for more bytes; an
  exception starts to disconnect with the code it stands for.
\<close>

theorem on_read_exact:
  assumes "buffer_ok b" "header_size \<le> buf_maxsize b"
  shows "\<exists>items tail c' ev r. frames_in items tail (data_view b) \<and>
    seq (each (handle_frame native fill out) items) (handle_rest native tail) c = (c', ev, r) \<and>
    (case r of
       Inr _ \<Rightarrow> \<exists>b'. keeps_unread (span_bytes tail) b' \<and>
         on_read native fill out b c = Some (c', ev @ (if length (data_view b) < header_size then [] else [Init_Write]), Inr b')
     | Inl e \<Rightarrow>
         if e = undefined_behaviour then on_read native fill out b c = Some (c', ev, Inl e)
         else case initiate_disconnect native fill (exception_code native e) None c' of (c'', ev', _) \<Rightarrow>
           \<exists>b'. on_read native fill out b c = Some (c'', ev @ ev' @ [Init_Write], Inr b'))"
  using assms by (rule on_read_frames)

theorem on_read_exact_witness:
  "let b = fst (commit_span (wire_frame little 2 0 1 [0, 0, 0, 0, 0] @ [0, 0, 8]) (buffer_new (\<lambda>_. 0) 64))
   in \<exists>c' b'. on_read little (\<lambda>_. 0) (\<lambda>_. 0) b client_new = Some (c', [Init_Write], Inr b') \<and> keeps_unread [0, 0, 8] b'"
proof -
  let ?f = "wire_frame little 2 0 1 [0, 0, 0, 0, 0]"
  let ?b = "fst (commit_span (?f @ [0, 0, 8]) (buffer_new (\<lambda>_. 0) 64))"
  have b: "buffer_ok ?b" "buf_maxsize ?b = 64" "data_view ?b = ?f @ [0, 0, 8]"
    by (simp_all add: buffer_ok_commit_span data_view_commit_span header_size_def)
  have split: "split_frames (?f @ [0, 0, 8]) = ([?f], [0, 0, 8])"
    using next_frame_wire [of "[0, 0, 0, 0, 0]" little 2 0 1 "[0, 0, 8]"]
    by (simp add: split_frames.simps) (simp add: next_frame_def header_size_def)
  have "header_size \<le> buf_maxsize ?b" by (simp add: header_size_def)
  then obtain items tail c' ev r where x: "frames_in items tail (data_view ?b)"
      "seq (each (handle_frame little (\<lambda>_. 0) (\<lambda>_. 0)) items) (handle_rest little tail) client_new = (c', ev, r)"
      and y: "case r of
       Inr _ \<Rightarrow> \<exists>b'. keeps_unread (span_bytes tail) b' \<and>
         on_read little (\<lambda>_. 0) (\<lambda>_. 0) ?b client_new = Some (c', ev @ (if length (data_view ?b) < header_size then [] else [Init_Write]), Inr b')
     | Inl e \<Rightarrow>
         if e = undefined_behaviour then on_read little (\<lambda>_. 0) (\<lambda>_. 0) ?b client_new = Some (c', ev, Inl e)
         else case initiate_disconnect little (\<lambda>_. 0) (exception_code little e) None c' of (c'', ev', _) \<Rightarrow>
           \<exists>b'. on_read little (\<lambda>_. 0) (\<lambda>_. 0) ?b client_new = Some (c'', ev @ ev' @ [Init_Write], Inr b')"
    using on_read_exact [OF b(1), of little "\<lambda>_. 0" "\<lambda>_. 0" client_new] by blast
  have tail: "span_bytes tail = [0, 0, 8]" and items: "map (\<lambda>(s, b). span_bytes s) items = [?f]"
    using x(1) b(3) split by (auto simp: frames_in_def)
  obtain s b0 where s: "items = [(s, b0)]" "span_bytes s = ?f" using items by auto
  have len: "sp_len tail = 3" using arg_cong [OF tail, of length] by simp
  have "handle_frame little (\<lambda>_. 0) (\<lambda>_. 0) (s, b0) client_new =
      seq (window_received little (\<lambda>_. 0) 14) (on_receive_priority s) client_new"
    using handle_frame_wire [of s little PRIORITY 0 1 "[0, 0, 0, 0, 0]" client_new "\<lambda>_. 0" "\<lambda>_. 0" b0] s(2)
    by (simp add: client_new_def settings_manager_new_def settings_default_def frame_handlers_def header_size_def)
  also have "\<dots> = (client_new\<lparr>cl_local_window := dw_dec 14 (cl_local_window client_new)\<rparr>, [], Inr ())"
    by (simp add: window_received_def dw_update_def need_update_def dw_dec_def client_new_def dummy_window_new_def
        INITIAL_WINDOW_SIZE_def on_receive_priority_def emit_def seq_def then_act_def)
  finally have "ev = []" "r = Inr ()"
    using x(2) s(1) len by (simp_all add: handle_rest_def header_size_def emit_def)
  then show ?thesis using y tail b(3) by (auto simp: Let_def header_size_def)
qed

text \<open>
  A PING that is not an acknowledgement is answered: the same frame with the ACK flag set is queued,
  whatever its stream, other flags and payload are, and nothing else happens.
\<close>

lemma ping_answered:
  assumes "span_bytes s = wire_frame native (frame_type_value PING) flags sid payload" "length payload < 2 ^ 24" "\<not> has_flag flags ACK"
  shows "\<exists>b. on_receive_ping native fill s c = (c\<lparr>cl_tx_command_queue := cl_tx_command_queue c @ [b]\<rparr>, [], Inr ()) \<and>
    data_view b = wire_frame native (frame_type_value PING) (flags OR ACK) sid payload"
proof -
  let ?w = "\<lambda>f. wire_frame native (frame_type_value PING) f sid payload"
  let ?b = "fst (commit_span (span_bytes s) (buffer_new fill (sp_len s)))"
  have h: "fh_type (frame_header native s) = frame_type_value PING" "fh_flags (frame_header native s) = flags"
    using wire_frame_header(1) [of s native "frame_type_value PING" flags sid payload "[]"] assms(1,2) by simp_all
  have len: "sp_len s = length (?w flags)" using arg_cong [OF assms(1), of length] by simp
  have b: "buf_memory ?b = ?w flags" "buf_offset ?b = length (?w flags)"
    using assms(1) len by (simp_all add: commit_span_def poke_def Let_def length_prepare buffer_new_def prepare_def)
  have w: "?w flags ! 4 = flags" "(?w flags)[4 := f] = ?w f" for f
    by (simp_all add: wire_frame_def nth_append list_update_append)
  show ?thesis
    using assms(3) h b w analyze_wire(1) [OF assms(1,2)]
    by (intro exI [of _ "?b\<lparr>buf_memory := ?w (flags OR ACK)\<rparr>"])
      (simp add: on_receive_ping_def open_frame_def get_frame_def then_act_def try_act_def send_command_def change_def Let_def
        data_view_def)
qed

section \<open>Properties of writing\<close>

lemma tx_commands_exact:
  assumes "tx_commands q w = (sent, rest, w')" "\<forall>b\<in>set q. length (data_view b) < 2 ^ 64"
  shows "q = sent @ rest \<and> unat w = length (contents sent) + unat w' \<and>
    (rest \<noteq> [] \<longrightarrow> unat w' < length (data_view (hd rest)))"
  using assms
proof (induction q w arbitrary: sent rest w' rule: tx_commands.induct)
  case (2 b bs w)
  have n: "unat (of_nat (length (data_view b)) :: u64) = length (data_view b)" using "2.prems"(2) by (simp add: unat_of_nat)
  show ?case
  proof (cases "of_nat (length (data_view b)) > w")
    case True
    then show ?thesis using "2.prems" n by (auto simp: contents_def word_less_nat_alt)
  next
    case False
    obtain sent1 where s: "tx_commands bs (w - of_nat (length (data_view b))) = (sent1, rest, w')" "sent = b # sent1"
      using "2.prems"(1) False by (auto split: prod.splits)
    have "unat (w - of_nat (length (data_view b))) = unat w - length (data_view b)" "length (data_view b) \<le> unat w"
      using False n by (simp_all add: unat_sub word_less_nat_alt word_le_nat_alt not_less)
    then show ?thesis using "2.IH" [OF False s(1)] "2.prems"(2) s(2) by (auto simp: contents_def)
  qed
qed (simp add: contents_def)

text \<open>
  C23: what \<open>get_tx_data\<close> returns begins with control frames in the order in which they were queued. None is
  lost: those that the window of the server has no space for stay queued, and then no stream is asked. Each of their
  bytes is taken from the window, also for frames that are not DATA.
\<close>

theorem commands_in_order:
  assumes "client_tx_data native stray fill c = (c', ev, Inr frames)"
    and "\<forall>b\<in>set (cl_tx_command_queue c). length (data_view b) < 2 ^ 64"
  shows "\<exists>sent streams. cl_tx_command_queue c = sent @ cl_tx_command_queue c' \<and> frames = sent @ streams \<and>
    length (contents sent) \<le> unat (cl_server_window_size c) \<and>
    (cl_tx_command_queue c' \<noteq> [] \<longrightarrow> streams = [] \<and>
      unat (cl_server_window_size c') = unat (cl_server_window_size c) - length (contents sent) \<and>
      unat (cl_server_window_size c') < length (data_view (hd (cl_tx_command_queue c'))))"
proof -
  obtain sent rest w where tx: "tx_commands (cl_tx_command_queue c) (cl_server_window_size c) = (sent, rest, w)" by (metis prod_cases3)
  note x = tx_commands_exact [OF tx assms(2)]
  have "\<exists>streams. frames = sent @ streams \<and> cl_tx_command_queue c' = rest \<and> (rest \<noteq> [] \<longrightarrow> streams = [] \<and> cl_server_window_size c' = w)"
    using assms(1) unfolding client_tx_data_def tx by (auto simp: Let_def split: if_splits prod.splits sum.splits)
  then show ?thesis using x by fastforce
qed

definition example_command :: "byte \<Rightarrow> buffer" where
  "example_command x = \<lparr>buf_offset = 4, buf_maxsize = 4, buf_memory = [x, x, x, x]\<rparr>"

theorem commands_in_order_witness:
  "client_tx_data little (\<lambda>_ _. 0) (\<lambda>_. 0)
     (client_new\<lparr>cl_tx_command_queue := [example_command 1, example_command 2], cl_server_window_size := 7\<rparr>) =
   (client_new\<lparr>cl_tx_command_queue := [example_command 2], cl_server_window_size := 3\<rparr>, [], Inr [example_command 1])"
proof -
  let ?c = "client_new\<lparr>cl_tx_command_queue := [example_command 1, example_command 2], cl_server_window_size := 7\<rparr>"
  have tx: "client_tx_data little (\<lambda>_ _. 0) (\<lambda>_. 0) ?c =
      (client_new\<lparr>cl_tx_command_queue := [example_command 2], cl_server_window_size := 3\<rparr>, [], Inr [example_command 1])"
    by (simp add: client_tx_data_def example_command_def data_view_def)
  have "\<forall>b\<in>set (cl_tx_command_queue ?c). length (data_view b) < 2 ^ 64" by (simp add: example_command_def data_view_def)
  from commands_in_order [OF tx this] tx show ?thesis by blast
qed

lemma serve_half_closed:
  assumes "distinct as" "\<forall>a\<in>set as. stm_http_state (heap a) = HALF_CLOSED"
  shows "\<exists>heap' again frames. serve_streams native stray fill limit as heap enc used =
      (heap', enc, Inr (again, frames, used + 13 * of_nat (length as))) \<and>
    map data_view frames = map (\<lambda>a. data_view (reset native fill (error_code_value native IS_OK) (stm_http_id (heap a)))) as"
  using assms
proof (induction as arbitrary: heap used)
  case (Cons a as)
  let ?f = "reset native fill (error_code_value native IS_OK) (stm_http_id (heap a))"
  let ?s = "heap a\<lparr>stm_is_scheduled := False, stm_http_state := CLOSED\<rparr>"
  have len: "length (data_view ?f) = 13" by (simp add: reset_bytes header_size_def)
  have tx: "get_tx_data native stray fill (limit - used) enc (heap a) = (enc, ?s, Inr ([?f], 13))"
    using Cons.prems(2) len by (simp add: get_tx_data_def Let_def)
  let ?heap = "heap(a := fst (check_tx_data ?s))"
  have "\<exists>heap' again frames. serve_streams native stray fill limit as ?heap enc (used + 13) =
      (heap', enc, Inr (again, frames, (used + 13) + 13 * of_nat (length as))) \<and>
    map data_view frames = map (\<lambda>b. data_view (reset native fill (error_code_value native IS_OK) (stm_http_id (?heap b)))) as"
    using Cons.prems by (intro Cons.IH) auto
  then show ?case using tx Cons.prems(1) by (auto simp: algebra_simps)
qed simp

text \<open>
  C33: the frames that close streams ignore the window of the server. When every waiting stream has received its
  response, \<open>get_tx_data\<close> sends a RST_STREAM of 13 bytes for each of them however small the limit is, and subtracts
  them from the window in 64-bit arithmetic: once they are more than the window, it wraps to almost \<open>2 ^ 64\<close>.
\<close>

theorem closing_streams_ignore_window:
  assumes "registry_step\<^sup>*\<^sup>* registry_new (cl_registry c)" "cl_tx_command_queue c = []"
    and "18 \<le> cl_server_window_size c" "18 \<le> set_max_frame_size (sm_local (cl_settings c))"
    and "\<forall>a\<in>set (somes (reg_queue (cl_registry c))). stm_http_state (reg_heap (cl_registry c) a) = HALF_CLOSED"
  shows "\<exists>c' frames. client_tx_data native stray fill c = (c', [], Inr frames) \<and>
    length frames = length (somes (reg_queue (cl_registry c))) \<and> (\<forall>f\<in>set frames. length (data_view f) = 13) \<and>
    cl_server_window_size c' = cl_server_window_size c - 13 * of_nat (length (somes (reg_queue (cl_registry c))))"
proof -
  let ?q = "somes (reg_queue (cl_registry c))"
  let ?limit = "min (cl_server_window_size c) (ucast (set_max_frame_size (sm_local (cl_settings c))))"
  have "18 \<le> unat (set_max_frame_size (sm_local (cl_settings c)))" using assms(4) by (simp add: word_le_nat_alt)
  then have "18 \<le> (ucast (set_max_frame_size (sm_local (cl_settings c))) :: u64)"
    by (simp add: word_le_nat_alt)
  then have limit: "18 \<le> ?limit" using assms(3) by simp
  then have limit16: "16 \<le> ?limit" by (rule order_trans [rotated]) simp
  have "distinct ?q" using registry_reachable_ok [OF assms(1)] by (simp add: registry_ok_def registry_inv_def)
  from serve_half_closed [OF this, of "reg_heap (cl_registry c)" native stray fill ?limit "cl_encoder c" 0] obtain heap again frames where
    s: "serve_streams native stray fill ?limit ?q (reg_heap (cl_registry c)) (cl_encoder c) 0 =
        (heap, cl_encoder c, Inr (again, frames, 13 * of_nat (length ?q)))"
      "map data_view frames = map (\<lambda>a. data_view (reset native fill (error_code_value native IS_OK) (stm_http_id (reg_heap (cl_registry c) a)))) ?q"
    using assms(5) by auto
  have len: "length frames = length ?q" using arg_cong [OF s(2), of length] by simp
  have "data_view f \<in> set (map data_view frames)" if "f \<in> set frames" for f using that by simp
  then have "\<forall>f\<in>set frames. length (data_view f) = 13" unfolding s(2) by (fastforce simp: reset_bytes header_size_def)
  moreover have "get_data native stray fill ?limit (cl_encoder c) (cl_registry c) =
      ((cl_registry c)\<lparr>reg_heap := heap, reg_queue := map Some again\<rparr>, cl_encoder c, Inr (frames, 13 * of_nat (length ?q)))"
    using get_data_serves [OF assms(1) limit16, of native stray fill "cl_encoder c"] s(1) by simp
  ultimately show ?thesis using assms(2) limit len by (simp add: client_tx_data_def)
qed

definition end_both :: registry where
  "end_both = fst (invoke_for_stream 3 (receive_member little (\<lambda>_. 0) (Receive_Headers [] END_STREAM 9))
     (fst (invoke_for_stream 1 (receive_member little (\<lambda>_. 0) (Receive_Headers [] END_STREAM 9)) two_streams)))"

lemma end_new_stream:
  "receive_member little (\<lambda>_. 0) (Receive_Headers [] END_STREAM 9) (stream_new i 65535 65535 example_request h) = (s, res) \<Longrightarrow>
   \<exists>calls. res = Inr calls \<and> \<not> is_finished s \<and> check_tx_data s = (s, False) \<and> stm_http_state s = HALF_CLOSED"
  by (auto simp: plain_def on_receive_headers_def end_stream_def stream_finished_def stream_new_def is_finished_def
      check_tx_data_def has_flag_def END_STREAM_def Let_def split: prod.splits)

lemma invoke_end_stream:
  assumes "get_stream i r = Some a" "reg_heap r a = stream_new i' 65535 65535 example_request h"
  shows "\<exists>s res. stm_http_state s = HALF_CLOSED \<and>
    invoke_for_stream i (receive_member little (\<lambda>_. 0) (Receive_Headers [] END_STREAM 9)) r =
      (r\<lparr>reg_heap := (reg_heap r)(a := s)\<rparr>, Inr res)" (is "\<exists>s res. _ \<and> ?inv = _")
    and "registry_step r (fst (invoke_for_stream i (receive_member little (\<lambda>_. 0) (Receive_Headers [] END_STREAM 9)) r))"
proof -
  obtain s x where m: "receive_member little (\<lambda>_. 0) (Receive_Headers [] END_STREAM 9) (reg_heap r a) = (s, x)" by fastforce
  then obtain calls where s: "x = Inr calls" "\<not> is_finished s" "check_tx_data s = (s, False)" "stm_http_state s = HALF_CLOSED"
    using end_new_stream assms(2) by metis
  have inv: "?inv = (r\<lparr>reg_heap := (reg_heap r)(a := s)\<rparr>, Inr (True, calls))" using assms(1) m s by (simp add: invoke_for_stream_def)
  then show "\<exists>s res. stm_http_state s = HALF_CLOSED \<and> ?inv = (r\<lparr>reg_heap := (reg_heap r)(a := s)\<rparr>, Inr res)" using s(4) by blast
  have "registry_step r (r\<lparr>reg_heap := (reg_heap r)(a := s)\<rparr>)"
    using inv assms by (intro registry_step.Frame [OF inv]) (simp add: stream_new_def dw_current_def dummy_window_new_def)
  then show "registry_step r (fst ?inv)" using inv by simp
qed

lemma end_both_reachable:
  "registry_step\<^sup>*\<^sup>* registry_new end_both" "reg_queue end_both = [Some 0, Some 1]"
  "stm_http_state (reg_heap end_both 0) = HALF_CLOSED" "stm_http_state (reg_heap end_both 1) = HALF_CLOSED"
proof -
  let ?inv = "\<lambda>i. invoke_for_stream i (receive_member little (\<lambda>_. 0) (Receive_Headers [] END_STREAM 9))"
  obtain s0 x where s0: "stm_http_state s0 = HALF_CLOSED" "?inv 1 two_streams = (two_streams\<lparr>reg_heap := (reg_heap two_streams)(0 := s0)\<rparr>, Inr x)"
    and step1: "registry_step two_streams (fst (?inv 1 two_streams))"
    using invoke_end_stream [OF two_streams_state(2,4)] by blast
  let ?r = "two_streams\<lparr>reg_heap := (reg_heap two_streams)(0 := s0)\<rparr>"
  have r: "get_stream 3 ?r = Some 1" "reg_heap ?r 1 = stream_new 3 65535 65535 example_request 8"
    using two_streams_state by (simp_all add: get_stream_def)
  obtain s1 y where s1: "stm_http_state s1 = HALF_CLOSED" "?inv 3 ?r = (?r\<lparr>reg_heap := (reg_heap ?r)(1 := s1)\<rparr>, Inr y)"
    and step2: "registry_step ?r (fst (?inv 3 ?r))"
    using invoke_end_stream [OF r] by blast
  have e: "end_both = ?r\<lparr>reg_heap := (reg_heap ?r)(1 := s1)\<rparr>" using s0(2) s1(2) by (simp add: end_both_def)
  show "registry_step\<^sup>*\<^sup>* registry_new end_both"
    using two_streams_reachable step1 step2 s0(2) s1(2) e by (metis fst_conv rtranclp.rtrancl_into_rtrancl)
  show "reg_queue end_both = [Some 0, Some 1]" "stm_http_state (reg_heap end_both 0) = HALF_CLOSED"
    "stm_http_state (reg_heap end_both 1) = HALF_CLOSED" unfolding e using s0(1) s1(1) two_streams_state by simp_all
qed

theorem closing_streams_ignore_window_witness:
  "\<exists>c' frames. client_tx_data little (\<lambda>_ _. 0) (\<lambda>_. 0) (client_new\<lparr>cl_registry := end_both, cl_server_window_size := 20\<rparr>) =
     (c', [], Inr frames) \<and> cl_server_window_size c' = - 6"
  using closing_streams_ignore_window [of "client_new\<lparr>cl_registry := end_both, cl_server_window_size := 20\<rparr>" little "\<lambda>_ _. 0" "\<lambda>_. 0"]
    end_both_reachable
  by (auto simp: client_new_def settings_manager_new_def settings_default_def)

section \<open>Starting and ending a connection\<close>

text \<open>
  C37: disconnecting while the settings are still being exchanged. The handler that waits for the settings is called,
  with the code given to \<open>initiate_disconnect\<close>: for a disconnection by the user this is no error, so that connecting is
  reported as successful. No GOAWAY is queued, and the handler of the disconnection is dropped.
\<close>

theorem disconnect_during_handshake:
  assumes "\<not> cl_start_disconnect c" "sm_handler (cl_settings c) = Some h"
  shows "\<exists>c' b. initiate_disconnect native fill no_error (Some d) c = (c', [Init_Write, Sync_Done h no_error], Inr ()) \<and>
    cl_start_disconnect c' \<and> cl_disconnect_handler c' = cl_disconnect_handler c \<and>
    cl_tx_command_queue c' = cl_tx_command_queue c @ [b] \<and> take 4 (data_view b) = [0, 0, 4, frame_type_value WINDOW_UPDATE]"
proof -
  have "take 4 (data_view (update_window native fill n 0)) = [0, 0, 4, frame_type_value WINDOW_UPDATE]" for n
    by (simp add: update_window_bytes) (simp add: wire_frame_def be_bytes_def upt_rec)
  then show ?thesis
    using assms by (simp add: initiate_disconnect_def sm_cancel_def sm_finished_def settings_synced_def Let_def send_command_def
      change_def emit_def seq_def then_act_def)
qed

theorem disconnect_during_handshake_witness:
  "\<exists>c' b. initiate_disconnect little (\<lambda>_. 0) no_error (Some 6) (client_new\<lparr>cl_settings := settings_manager_new\<lparr>sm_handler := Some 5\<rparr>\<rparr>) =
     (c', [Init_Write, Sync_Done 5 no_error], Inr ()) \<and> cl_disconnect_handler c' = None"
proof -
  let ?c = "client_new\<lparr>cl_settings := settings_manager_new\<lparr>sm_handler := Some 5\<rparr>\<rparr>"
  have "\<not> cl_start_disconnect ?c" "sm_handler (cl_settings ?c) = Some 5" "cl_disconnect_handler ?c = None" by (simp_all add: client_new_def)
  then show ?thesis using disconnect_during_handshake [of ?c 5 little "\<lambda>_. 0" 6] by metis
qed

end
