(* ===== verification/Http2_Client_Frame.thy ===== *)
theory Http2_Client_Frame
  imports Http2_Client
begin

text \<open>
  What the operations of the client (\<open>lib/base_client.cpp\<close>) leave as it is. A view of a client that does not look at
  some of its members is not changed by the operations that write only those: this is proved once for all views.
\<close>

section \<open>What an action leaves as it is\<close>

definition keeps :: "(client \<Rightarrow> 'b) \<Rightarrow> 'a action \<Rightarrow> bool" where
  "keeps f m \<longleftrightarrow> (\<forall>c. f (fst (m c)) = f c)"

lemma keepsD: "keeps f m \<Longrightarrow> m c = (c', ev, r) \<Longrightarrow> f c' = f c"
  by (metis fst_conv keeps_def)

lemma keeps_emit [intro!]: "keeps f (emit ev)" and keeps_try [intro!]: "keeps f (try_act r)"
  by (simp_all add: keeps_def emit_def try_act_def)

lemma keeps_change [intro!]: "(\<And>c. f (g c) = f c) \<Longrightarrow> keeps f (change g)"
  by (simp add: keeps_def change_def)

lemma keeps_then [intro!]: "keeps f m \<Longrightarrow> (\<And>x. keeps f (k x)) \<Longrightarrow> keeps f (then_act m k)"
  by (simp add: keeps_def then_act_def split: prod.split sum.split) (metis fst_conv)

lemma keeps_seq [intro!]: "keeps f m \<Longrightarrow> keeps f k \<Longrightarrow> keeps f (seq m k)"
  by (simp add: seq_def keeps_then)

lemma keeps_each [intro!]: "(\<And>x. keeps f (m x)) \<Longrightarrow> keeps f (each m xs)"
  by (induction xs) auto

lemma keeps_open_frame [intro!]: "keeps f (open_frame native t data)"
  by (simp add: open_frame_def keeps_try)

lemma keeps_check_header [intro!]: "keeps f (check_header native s)"
  by (simp add: keeps_def check_header_def try_act_def)

section \<open>Views of a client\<close>

text \<open>A view that does not look at what receiving and control frames write.\<close>

locale client_view =
  fixes view :: "client \<Rightarrow> 'b"
  assumes view_queue: "view (c\<lparr>cl_tx_command_queue := q\<rparr>) = view c"
    and view_window: "view (c\<lparr>cl_local_window := w\<rparr>) = view c"
    and view_settings: "view (c\<lparr>cl_settings := sm\<rparr>) = view c"
    and view_decoder: "view (c\<lparr>cl_decoder := d\<rparr>) = view c"
    and view_ping_handler: "view (c\<lparr>cl_ping_handler := ph\<rparr>) = view c"
begin

lemmas view_simps = view_queue view_window view_settings view_decoder view_ping_handler

lemma keeps_send [intro!]: "keeps view (send_command b)"
  unfolding send_command_def by (rule keeps_change) (rule view_queue)

lemma keeps_settings_synced [intro!]: "keeps view (settings_synced native fill x)"
  by (cases x) (auto simp: settings_synced_def keeps_def seq_def then_act_def send_command_def change_def emit_def Let_def view_simps)

lemma keeps_window_received [intro!]: "keeps view (window_received native fill n)"
proof -
  have "keeps view (each send_command bs)" for bs by blast
  then show ?thesis by (auto simp: keeps_def window_received_def view_simps split: prod.split)
qed

lemma keeps_decode_fields [intro!]: "keeps view (decode_fields native block)"
  by (auto simp: keeps_def decode_fields_def view_simps split: prod.split sum.split cpp_error.split)

lemma keeps_settings_frame [intro!]: "keeps view (on_receive_settings native fill data)"
proof -
  have "keeps view (seq (each (settings_synced native fill) calls) (each send_command bs))" for calls bs by blast
  then show ?thesis by (auto simp: keeps_def on_receive_settings_def view_simps split: sum.split)
qed

lemma keeps_settings_timer [intro!]: "keeps view (client_settings_timer native fill aborted)"
proof -
  have "keeps view (each (settings_synced native fill) calls)" for calls by blast
  then show ?thesis by (auto simp: keeps_def client_settings_timer_def view_simps split: prod.split)
qed

lemma keeps_sync_settings [intro!]: "keeps view (client_sync_settings native fill remote_sync h)"
proof -
  have "keeps view (seq (send_command b) (emit ev))" for b ev by blast
  then show ?thesis by (auto simp: keeps_def client_sync_settings_def view_simps split: sum.split)
qed

lemma keeps_receive_ping [intro!]: "keeps view (on_receive_ping native fill data)"
  unfolding on_receive_ping_def
  by (intro keeps_then keeps_open_frame)
    (auto simp: keeps_def emit_def send_command_def change_def view_simps Let_def split: option.split)

lemma keeps_initial_frames [intro!]: "keeps view (write_initial_frames fill)"
  by (auto simp: write_initial_frames_def)

lemma keeps_initiate_ping [intro!]: "keeps view (initiate_ping native fill h)"
  by (simp add: keeps_def initiate_ping_def send_command_def change_def view_simps)

lemma keeps_handle_rest [intro!]: "keeps view (handle_rest native s)"
  by (auto simp: handle_rest_def)

end

text \<open>A view that moreover does not look at what a disconnection writes.\<close>

locale client_lasting_view = client_view +
  assumes view_disconnect: "view (c\<lparr>cl_start_disconnect := b\<rparr>) = view c"
    and view_error: "view (c\<lparr>cl_connection_error := ec\<rparr>) = view c"
    and view_disconnect_handler: "view (c\<lparr>cl_disconnect_handler := dh\<rparr>) = view c"
begin

lemma keeps_disconnect [intro!]: "keeps view (initiate_disconnect native fill ec h)"
proof -
  have "keeps view (seq (each (settings_synced native fill) calls) (if cancelled then emit []
      else seq (change (\<lambda>c. c\<lparr>cl_connection_error := ec, cl_disconnect_handler := h\<rparr>)) (seq (send_command b) (emit [Init_Write]))))"
    for calls cancelled b by (cases cancelled) (auto simp: view_error view_disconnect_handler)
  then show ?thesis
    by (auto simp: keeps_def initiate_disconnect_def emit_def view_disconnect view_settings split: prod.split)
qed

end

text \<open>A view that does not look at the streams and the state of sending.\<close>

locale client_control_view = client_view +
  assumes view_registry: "view (c\<lparr>cl_registry := r\<rparr>) = view c"
    and view_id_order: "view (c\<lparr>cl_client_id_order := i\<rparr>) = view c"
    and view_server_window: "view (c\<lparr>cl_server_window_size := n\<rparr>) = view c"
    and view_encoder: "view (c\<lparr>cl_encoder := e\<rparr>) = view c"
begin

lemma keeps_stream_act [intro!]: "keeps view (stream_act native out i op)"
  by (simp add: keeps_def stream_act_def view_registry split: prod.split sum.split)

lemma keeps_handlers: "\<forall>h\<in>set (frame_handlers native fill out). keeps view (h data)"
  by (auto simp: frame_handlers_def on_receive_data_not_reachable_def client_receive_headers_def on_receive_priority_def
      client_receive_reset_def on_receive_push_def on_receive_goaway_def client_receive_window_update_def
      client_receive_continuation_def view_server_window Let_def)

lemma keeps_receive [intro!]:
  "keeps view (on_receive_frame native fill out data)" "keeps view (on_receive_data_frame native fill out buff)"
  using keeps_handlers [of native fill out data]
  by (auto simp: on_receive_frame_def on_receive_data_frame_def client_receive_data_def Let_def)

lemma keeps_handle_frame [intro!]: "keeps view (handle_frame native fill out f)"
  by (cases f) (auto simp: handle_frame_def)

lemma keeps_initiate_send [intro!]: "keeps view (initiate_send native rq h)"
  by (simp add: keeps_def initiate_send_def get_next_stream_id_def emit_def view_registry view_id_order Let_def split: prod.split)

lemma keeps_tx_data [intro!]: "keeps view (client_tx_data native stray fill)"
  by (simp add: keeps_def client_tx_data_def view_simps view_registry view_server_window view_encoder Let_def
      split: prod.split sum.split)

end

end
