(* ===== verification/Http2_Client_Streams.thy ===== *)
theory Http2_Client_Streams
  imports Http2_Client_Frame
begin

text \<open>
  The client and the registry together: what every operation of the client (\<open>lib/base_client.cpp\<close>) does to its
  streams, and the invariant that follows for everything that can happen to a client.
\<close>

section \<open>The streams of a client\<close>

abbreviation streams_of :: "client \<Rightarrow> registry \<times> u32" where
  "streams_of c \<equiv> (cl_registry c, cl_client_id_order c)"

interpretation streams_view: client_lasting_view streams_of
  by unfold_locales simp_all

text \<open>A frame changes at most the stream it names, by one receiving member function on no more bytes than it has.\<close>

definition receives :: "byte_order \<Rightarrow> (int \<Rightarrow> byte) \<Rightarrow> u32 \<Rightarrow> nat \<Rightarrow> client \<Rightarrow> client \<Rightarrow> bool" where
  "receives native out i n c c' \<longleftrightarrow> streams_of c' = streams_of c \<or>
     (\<exists>op res. received_bytes op \<le> n \<and> cl_client_id_order c' = cl_client_id_order c \<and>
        invoke_for_stream i (receive_member native out op) (cl_registry c) = (cl_registry c', Inr res))"

lemma receives_keeps: "keeps streams_of m \<Longrightarrow> m c = (c', ev, r) \<Longrightarrow> receives native out i n c c'"
  by (drule (1) keepsD) (simp add: receives_def)

lemma receives_act:
  "stream_act native out i op c = (c', ev, Inr ()) \<Longrightarrow> received_bytes op \<le> n \<Longrightarrow> receives native out i n c c'"
  by (auto simp: stream_act_def receives_def split: prod.splits sum.splits)

lemma receives_cong: "streams_of c1 = streams_of c \<Longrightarrow> receives native out i n c1 c' \<Longrightarrow> receives native out i n c c'"
  by (simp add: receives_def)

lemma receives_then:
  assumes "then_act m k c = (c', ev, Inr x)" "keeps streams_of m"
    and "\<And>y c1 ev1 ev2. m c = (c1, ev1, Inr y) \<Longrightarrow> k y c1 = (c', ev2, Inr x) \<Longrightarrow> receives native out i n c1 c'"
  shows "receives native out i n c c'"
proof -
  obtain c1 ev1 y ev2 where m: "m c = (c1, ev1, Inr y)" "k y c1 = (c', ev2, Inr x)"
    using assms(1) by (auto simp: then_act_def split: prod.splits sum.splits)
  show ?thesis by (rule receives_cong [OF keepsD [OF assms(2) m(1)] assms(3) [OF m]])
qed

lemma open_frame_header: "open_frame native t s c = (c1, ev, Inr fa) \<Longrightarrow> frame_header native fa = frame_header native s"
  by (auto simp: open_frame_def try_act_def bind_res_Inr_iff get_frame_def dest: from_buffer_next_frame(4) split: if_splits)

definition good_handler :: "byte_order \<Rightarrow> (int \<Rightarrow> byte) \<Rightarrow> (span \<Rightarrow> unit action) \<Rightarrow> bool" where
  "good_handler native out h \<longleftrightarrow> (\<forall>s c c' ev. h s c = (c', ev, Inr ()) \<longrightarrow>
     receives native out (fh_stream_id (frame_header native s)) (sp_len s) c c')"

lemma good_handler_keeps: "(\<And>s. keeps streams_of (h s)) \<Longrightarrow> good_handler native out h"
  unfolding good_handler_def using receives_keeps by blast

lemma good_handler_opened:
  assumes "\<And>fa s c c' ev. frame_header native fa = frame_header native s \<Longrightarrow> k s fa c = (c', ev, Inr ()) \<Longrightarrow>
    receives native out (fh_stream_id (frame_header native s)) (sp_len s) c c'"
  shows "good_handler native out (\<lambda>s. then_act (open_frame native t s) (k s))"
  unfolding good_handler_def by (blast intro: receives_then keeps_open_frame assms open_frame_header)

lemma good_headers: "good_handler native out (client_receive_headers native out)"
  and good_continuation: "good_handler native out (client_receive_continuation native out)"
  unfolding client_receive_headers_def [abs_def] client_receive_continuation_def [abs_def]
  by (rule good_handler_opened, erule receives_then, rule streams_view.keeps_decode_fields, rule receives_act, simp, simp)+

lemma good_reset: "good_handler native out (client_receive_reset native out)"
  unfolding client_receive_reset_def [abs_def] by (rule good_handler_opened, rule receives_act, simp, simp)

lemma good_window_update: "good_handler native out (client_receive_window_update native out)"
  unfolding client_receive_window_update_def [abs_def]
proof (rule good_handler_opened)
  fix fa s c c' ev
  assume h: "frame_header native fa = frame_header native s" and
    m: "(let size_increment = window_size fa in if fh_stream_id (frame_header native fa) = 0
          then change (\<lambda>c. c\<lparr>cl_server_window_size := cl_server_window_size c + ucast size_increment\<rparr>)
          else stream_act native out (fh_stream_id (frame_header native fa)) (Receive_Window_Update size_increment)) c = (c', ev, Inr ())"
  show "receives native out (fh_stream_id (frame_header native s)) (sp_len s) c c'"
  proof (cases "fh_stream_id (frame_header native s) = 0")
    case True
    then show ?thesis using m h by (auto simp: Let_def change_def receives_def)
  next
    case False
    then show ?thesis using m h by (intro receives_act [of native out _ "Receive_Window_Update (window_size fa)"]) (auto simp: Let_def)
  qed
qed

lemma frame_handlers_good: "\<forall>h\<in>set (frame_handlers native fill out). good_handler native out h"
proof -
  have "good_handler native out (on_receive_data_not_reachable native)" "good_handler native out on_receive_priority"
    "good_handler native out (on_receive_settings native fill)" "good_handler native out (on_receive_push native fill)"
    "good_handler native out (on_receive_ping native fill)" "good_handler native out on_receive_goaway"
    by (rule good_handler_keeps; auto simp: on_receive_data_not_reachable_def on_receive_priority_def on_receive_push_def on_receive_goaway_def)+
  then show ?thesis using good_headers good_continuation good_reset good_window_update by (simp add: frame_handlers_def)
qed

lemma receives_frame:
  assumes "on_receive_frame native fill out s c = (c', ev, Inr ())"
  shows "receives native out (fh_stream_id (frame_header native s)) (sp_len s) c c'"
  using assms unfolding on_receive_frame_def seq_def
proof (elim receives_then)
  fix y c1 ev2 fa c2 ev3
  assume "try_act (from_buffer native s) c1 = (c2, ev2, Inr fa)" and
    h: "(let frame_type = unat (fh_type (frame_header native fa))
       in if frame_type < length (frame_handlers native fill out) then (frame_handlers native fill out ! frame_type) s
          else try_act (Inl undefined_behaviour)) c2 = (c', ev3, Inr ())"
  show "receives native out (fh_stream_id (frame_header native s)) (sp_len s) c2 c'"
    using h frame_handlers_good [of native fill out] unfolding good_handler_def
    by (auto simp: Let_def try_act_def split: if_splits dest!: nth_mem)
qed auto

lemma frame_header_bytes:
  assumes "span_bytes s = span_bytes s'" "header_size \<le> sp_len s"
  shows "frame_header native s = frame_header native s'"
proof -
  have len: "sp_len s' = sp_len s" using arg_cong [OF assms(1), of length] by simp
  have "sp_mem s (int i) = sp_mem s' (int i)" if "i < sp_len s" for i using assms(1) len that by (metis nth_span_bytes)
  from this [of 3] this [of 4] show ?thesis
    using assms len by (simp add: frame_header_def slice_eq header_size_def)
qed

lemma receives_data_frame:
  assumes "on_receive_data_frame native fill out b c = (c', ev, Inr ())" "buffer_ok b" "data_view b = span_bytes s"
  shows "receives native out (fh_stream_id (frame_header native s)) (sp_len s) c c'"
  using assms(1) unfolding on_receive_data_frame_def client_receive_data_def seq_def
proof (elim receives_then)
  let ?b = "buffer_span out b"
  fix y c1 ev2 fa c2 ev3
  assume o: "open_frame native DATA ?b c1 = (c2, ev2, Inr fa)"
    and act: "stream_act native out (fh_stream_id (frame_header native fa)) (Receive_Data b) c2 = (c', ev3, Inr ())"
  have bytes: "span_bytes ?b = span_bytes s" using assms(2,3) by (simp add: span_bytes_buffer_span)
  have "header_size \<le> sp_len ?b" using o by (auto simp: open_frame_def try_act_def bind_res_Inr_iff from_buffer_def split: if_splits)
  then have "frame_header native fa = frame_header native s" using open_frame_header [OF o] frame_header_bytes [OF bytes] by simp
  moreover have "length (data_view b) = sp_len s" using assms(3) by simp
  ultimately show "receives native out (fh_stream_id (frame_header native s)) (sp_len s) c2 c'"
    using act by (intro receives_act [of native out _ "Receive_Data b"]) simp_all
qed auto

lemma receives_handle:
  assumes "handle_frame native fill out (s, b) c = (c', ev, Inr ())" "buffer_ok b" "data_view b = span_bytes s"
  shows "receives native out (fh_stream_id (frame_header native s)) (sp_len s) c c'"
  using assms by (auto simp: handle_frame_eq split: sum.splits if_splits intro: receives_frame receives_data_frame)

text \<open>
  What happens to a client, in any order: requests with at least one header field, frames of a peer that keeps to
  the window of the stream, sending, the timers, the other operations of the user, and the end of the connection.
\<close>

inductive client_step :: "byte_order \<Rightarrow> client \<Rightarrow> client \<Rightarrow> bool" for native where
  Send: "initiate_send native rq h c = (c', ev, Inr ()) \<Longrightarrow> rq_header_list rq \<noteq> [] \<Longrightarrow> unat (cl_client_id_order c) < 2 ^ 31 \<Longrightarrow>
    client_step native c c'"
| Receive: "handle_frame native fill out (s, b) c = (c', ev, Inr ()) \<Longrightarrow> buffer_ok b \<Longrightarrow> data_view b = span_bytes s \<Longrightarrow>
    \<forall>a. get_stream (fh_stream_id (frame_header native s)) (cl_registry c) = Some a \<longrightarrow>
      sp_len s \<le> unat (dw_current (stm_local_window (reg_heap (cl_registry c) a))) \<Longrightarrow> client_step native c c'"
| Transmit: "client_tx_data native stray fill c = (c', ev, Inr frames) \<Longrightarrow> client_step native c c'"
| Stream_Timeout: "(i, a) \<in> set (reg_map (cl_registry c)) \<Longrightarrow> on_stream_timer aborted (reg_heap (cl_registry c) a) = (s, calls) \<Longrightarrow>
    client_step native c (c\<lparr>cl_registry := (cl_registry c)\<lparr>reg_heap := (reg_heap (cl_registry c))(a := s)\<rparr>\<rparr>)"
| Connected: "client_step native c (c\<lparr>cl_is_connected := True\<rparr>)"
| Preface: "write_initial_frames fill c = (c', ev, r) \<Longrightarrow> client_step native c c'"
| Synchronise: "client_sync_settings native fill remote_sync h c = (c', ev, r) \<Longrightarrow> client_step native c c'"
| Settings_Timeout: "client_settings_timer native fill aborted c = (c', ev, r) \<Longrightarrow> client_step native c c'"
| Ping: "initiate_ping native fill h c = (c', ev, r) \<Longrightarrow> client_step native c c'"
| Disconnect: "initiate_disconnect native fill ec d c = (c', ev, r) \<Longrightarrow> client_step native c c'"
| Cleanup: "cleanup_after_disconnect ec c = (c', ev, r) \<Longrightarrow> client_step native c c'"

text \<open>The identifiers in use have been given out before.\<close>

definition ids_given :: "byte_order \<Rightarrow> client \<Rightarrow> bool" where
  "ids_given native c \<longleftrightarrow> (\<forall>(i, a)\<in>set (reg_map (cl_registry c)).
     \<exists>n. 1 \<le> n \<and> n < unat (cl_client_id_order c) \<and> i = native_to_big32 native (of_nat (2 * n - 1)))"

definition client_ok :: "byte_order \<Rightarrow> client \<Rightarrow> bool" where
  "client_ok native c \<longleftrightarrow> registry_ok (cl_registry c) \<and> ids_given native c \<and> cl_client_id_order c \<noteq> 0"

lemma client_ok_same: "streams_of c' = streams_of c \<Longrightarrow> client_ok native c \<Longrightarrow> client_ok native c'"
  by (simp add: client_ok_def ids_given_def)

lemma client_ok_shrink:
  assumes "client_ok native c" "registry_step (cl_registry c) r" "set (reg_map r) \<subseteq> set (reg_map (cl_registry c))"
    and "cl_registry c' = r" "cl_client_id_order c' = cl_client_id_order c"
  shows "client_ok native c'"
  using assms registry_step_ok by (fastforce simp: client_ok_def ids_given_def)

lemma invoke_keys: "invoke_for_stream i m r = (r', res) \<Longrightarrow> set (reg_map r') \<subseteq> set (reg_map r)"
  by (auto simp: invoke_for_stream_def erase_def bind_res_def enqueue_def Let_def set_map_erase
      split: option.splits prod.splits sum.splits if_splits)

lemma get_data_loop_keys:
  "get_data_loop native stray fill limit r enc used nq frames = (r', res) \<Longrightarrow> reg_map r' = reg_map r"
proof (induction "length (reg_queue r)" arbitrary: r enc used nq frames rule: less_induct)
  case less
  have "reg_map r' = reg_map r" if "scheduled_stream (reg_queue r) = Some (a, q)"
      "get_data_loop native stray fill limit (r\<lparr>reg_queue := q, reg_heap := heap\<rparr>) enc1 used1 nq1 frames1 = (r', res)"
    for a q heap enc1 used1 nq1 frames1
    using less.hyps [OF _ that(2)] scheduled_stream_shorter [OF that(1)] by simp
  moreover have "reg_map r' = reg_map r" if "scheduled_stream (reg_queue r) = Some (a, q)"
      "get_data_loop native stray fill limit (r\<lparr>reg_queue := q\<rparr>) enc1 used1 nq1 frames1 = (r', res)"
    for a q enc1 used1 nq1 frames1
    using less.hyps [OF _ that(2)] scheduled_stream_shorter [OF that(1)] by simp
  ultimately show ?case using less.prems
    by (subst (asm) get_data_loop.simps) (auto simp: Let_def split: if_splits option.splits prod.splits sum.splits)
qed

lemma get_data_keys: "get_data native stray fill limit enc r = (r', res) \<Longrightarrow> reg_map r' = reg_map r"
  by (auto simp: get_data_def split: prod.splits sum.splits dest!: get_data_loop_keys)

lemma transmit_ok:
  assumes "client_tx_data native stray fill c = (c', ev, Inr frames)" "client_ok native c"
  shows "client_ok native c'"
proof -
  have "streams_of c' = streams_of c \<or> (\<exists>limit enc' res. cl_client_id_order c' = cl_client_id_order c \<and>
      get_data native stray fill limit (cl_encoder c) (cl_registry c) = (cl_registry c', enc', Inr res))"
    using assms(1) by (auto simp: client_tx_data_def Let_def split: prod.splits sum.splits if_splits)
  then show ?thesis
  proof
    assume "\<exists>limit enc' res. cl_client_id_order c' = cl_client_id_order c \<and>
      get_data native stray fill limit (cl_encoder c) (cl_registry c) = (cl_registry c', enc', Inr res)"
    then obtain limit enc' res where g: "cl_client_id_order c' = cl_client_id_order c"
      "get_data native stray fill limit (cl_encoder c) (cl_registry c) = (cl_registry c', enc', Inr res)" by blast
    show ?thesis
      using get_data_keys [OF g(2)] g(1) by (intro client_ok_shrink [OF assms(2) registry_step.Collect [OF g(2)]]) simp_all
  qed (simp add: client_ok_same [OF _ assms(2)])
qed

lemma receive_ok:
  assumes "receives native out i n c c'" "client_ok native c"
    and "\<forall>a. get_stream i (cl_registry c) = Some a \<longrightarrow> n \<le> unat (dw_current (stm_local_window (reg_heap (cl_registry c) a)))"
  shows "client_ok native c'"
  using assms(1) unfolding receives_def
proof
  assume "\<exists>op res. received_bytes op \<le> n \<and> cl_client_id_order c' = cl_client_id_order c \<and>
    invoke_for_stream i (receive_member native out op) (cl_registry c) = (cl_registry c', Inr res)"
  then obtain op res where o: "received_bytes op \<le> n" "cl_client_id_order c' = cl_client_id_order c"
    "invoke_for_stream i (receive_member native out op) (cl_registry c) = (cl_registry c', Inr res)" by blast
  have "registry_step (cl_registry c) (cl_registry c')"
    using o(1) assms(3) by (intro registry_step.Frame [OF o(3)]) (meson order_trans)
  then show ?thesis using o invoke_keys [OF o(3)] by (intro client_ok_shrink [OF assms(2)]) simp_all
qed (simp add: client_ok_same [OF _ assms(2)])

lemma unat_of_nat_u32: "n < 2 ^ 32 \<Longrightarrow> unat (of_nat n :: u32) = n"
  by (simp add: unat_of_nat)

lemma send_ok:
  assumes "initiate_send native rq h c = (c', ev, Inr ())" "rq_header_list rq \<noteq> []" "unat (cl_client_id_order c) < 2 ^ 31" "client_ok native c"
  shows "client_ok native c'"
proof -
  let ?n = "unat (cl_client_id_order c)"
  let ?i = "native_to_big32 native (of_nat (2 * ?n - 1))"
  have n: "1 \<le> ?n" using assms(4) by (simp add: client_ok_def) (metis One_nat_def Suc_leI unat_gt_0)
  have i: "cl_client_id_order c * 2 - 1 = (of_nat (2 * ?n - 1) :: u32)" using n by (simp add: of_nat_diff)
  have inj: "native_to_big32 native (of_nat (2 * m - 1)) \<noteq> ?i" if "1 \<le> m" "m < ?n" for m
  proof
    assume "native_to_big32 native (of_nat (2 * m - 1)) = ?i"
    then have "(of_nat (2 * m - 1) :: u32) = of_nat (2 * ?n - 1)" by (metis native_to_big32_involution)
    then have "unat (of_nat (2 * m - 1) :: u32) = unat (of_nat (2 * ?n - 1) :: u32)" by (rule arg_cong)
    moreover have "unat (of_nat (2 * m - 1) :: u32) = 2 * m - 1" using that assms(3) by (intro unat_of_nat_u32) simp
    moreover have "unat (of_nat (2 * ?n - 1) :: u32) = 2 * ?n - 1" using assms(3) by (intro unat_of_nat_u32) simp
    ultimately show False using that by linarith
  qed
  then have fresh: "get_stream ?i (cl_registry c) = None"
    using assms(4) by (fastforce simp: get_stream_def map_find_None client_ok_def ids_given_def)
  let ?s = "stream_new ?i (set_initial_window_size (sm_remote (cl_settings c))) (set_initial_window_size (sm_local (cl_settings c))) rq h"
  obtain r a where a: "alloc_stream ?s (cl_registry c) = (r, a)" by fastforce
  have c': "cl_registry c' = add_stream ?i a r" "cl_client_id_order c' = cl_client_id_order c + 1"
    using assms(1) a i by (auto simp: initiate_send_def get_next_stream_id_def Let_def emit_def split: if_splits)
  have next_n: "unat (cl_client_id_order c + 1) = ?n + 1" using assms(3) by (simp add: unat_word_ariths)
  have "set (reg_map (add_stream ?i a r)) = insert (?i, a) (set (reg_map (cl_registry c)))"
    using fresh a by (auto simp: add_stream_def alloc_stream_def get_stream_def set_map_emplace)
  then have "ids_given native c'"
    using assms(4) n by (auto simp: ids_given_def c' next_n client_ok_def less_Suc_eq)
  moreover have "registry_ok (cl_registry c')"
    using add_stream_ok [OF _ fresh assms(2) a] assms(4) by (simp add: c' client_ok_def)
  moreover have "cl_client_id_order c' \<noteq> 0" using next_n c'(2) by (metis add_is_0 unat_0 zero_neq_one)
  ultimately show ?thesis by (simp add: client_ok_def)
qed

lemma client_ok_keeps: "keeps streams_of m \<Longrightarrow> m c = (c', ev, r) \<Longrightarrow> client_ok native c \<Longrightarrow> client_ok native c'"
  by (drule (1) keepsD) (rule client_ok_same)

lemma cleanup_ok: "cleanup_after_disconnect ec c = (c', ev, r) \<Longrightarrow> client_ok native c \<Longrightarrow> client_ok native c'"
  by (auto simp: cleanup_after_disconnect_def client_ok_def ids_given_def reg_reset_def registry_ok_def registry_inv_def
      split: prod.splits)

lemma stream_timeout_ok:
  assumes "(i, a) \<in> set (reg_map (cl_registry c))" "on_stream_timer aborted (reg_heap (cl_registry c) a) = (s, calls)" "client_ok native c"
  shows "client_ok native (c\<lparr>cl_registry := (cl_registry c)\<lparr>reg_heap := (reg_heap (cl_registry c))(a := s)\<rparr>\<rparr>)"
  using registry_step.Timer [OF assms(1,2)] by (intro client_ok_shrink [OF assms(3)]) simp_all

lemma client_step_ok: "client_step native c c' \<Longrightarrow> client_ok native c \<Longrightarrow> client_ok native c'"
proof (induction rule: client_step.induct)
  case (Send rq h c c' ev)
  then show ?case by (rule send_ok)
next
  case (Receive fill out s b c c' ev)
  then show ?case using receive_ok [OF receives_handle [OF Receive(1-3)]] by blast
next
  case (Transmit stray fill c c' ev frames)
  then show ?case by (rule transmit_ok)
next
  case (Stream_Timeout i a c aborted s calls)
  then show ?case by (rule stream_timeout_ok)
next
  case (Connected c)
  then show ?case by (rule client_ok_same [rotated]) simp
next
  case (Preface fill c c' ev r)
  then show ?case by (rule client_ok_keeps [OF streams_view.keeps_initial_frames])
next
  case (Synchronise fill remote_sync h c c' ev r)
  then show ?case by (rule client_ok_keeps [OF streams_view.keeps_sync_settings])
next
  case (Settings_Timeout fill aborted c c' ev r)
  then show ?case by (rule client_ok_keeps [OF streams_view.keeps_settings_timer])
next
  case (Ping fill h c c' ev r)
  then show ?case by (rule client_ok_keeps [OF streams_view.keeps_initiate_ping])
next
  case (Disconnect fill ec d c c' ev r)
  then show ?case by (rule client_ok_keeps [OF streams_view.keeps_disconnect])
next
  case (Cleanup ec c c' ev r)
  then show ?case by (rule cleanup_ok)
qed

lemma client_ok_new: "client_ok native client_new"
  using registry_ok_new by (simp add: client_ok_def client_new_def ids_given_def) (simp add: registry_new_def)

lemma client_reachable_ok: "(client_step native)\<^sup>*\<^sup>* client_new c \<Longrightarrow> client_ok native c"
  by (induction rule: rtranclp_induct) (rule client_ok_new, rule client_step_ok)

lemma ids_givenD:
  "ids_given native c \<Longrightarrow> (i, a) \<in> set (reg_map (cl_registry c)) \<Longrightarrow>
   \<exists>n. 1 \<le> n \<and> n < unat (cl_client_id_order c) \<and> i = native_to_big32 native (of_nat (2 * n - 1))"
  unfolding ids_given_def by (drule (1) bspec) (simp only: prod.case)

text \<open>
  C7: the streams of a client. Whatever happens to it, as long as the peer keeps to the windows of the streams
  and fewer than \<open>2 ^ 31\<close> requests are made, every registered stream has an identifier that has been given out and
  whose bytes on the wire are those of an odd number in network byte order, different streams have different
  identifiers, and a stream waits for its turn to send exactly when it has something to send.
\<close>

theorem client_streams:
  assumes "(client_step native)\<^sup>*\<^sup>* client_new c"
  shows "distinct (map fst (reg_map (cl_registry c))) \<and>
    (\<forall>(i, a)\<in>set (reg_map (cl_registry c)). stm_http_id (reg_heap (cl_registry c) a) = i \<and>
      (\<exists>n. 1 \<le> n \<and> n < unat (cl_client_id_order c) \<and> store_native native 4 i = be_bytes 4 (of_nat (2 * n - 1) :: u32)) \<and>
      (Some a \<in> set (reg_queue (cl_registry c)) \<longleftrightarrow> has_tx_data (reg_heap (cl_registry c) a)))"
proof -
  have ok: "client_ok native c" by (rule client_reachable_ok [OF assms])
  have "distinct (map fst (reg_map (cl_registry c)))"
    using ok by (simp add: client_ok_def registry_ok_def registry_inv_def strict_sorted_iff)
  moreover have "stm_http_id (reg_heap (cl_registry c) a) = i \<and> (\<exists>n. 1 \<le> n \<and> n < unat (cl_client_id_order c) \<and>
      store_native native 4 i = be_bytes 4 (of_nat (2 * n - 1) :: u32)) \<and>
      (Some a \<in> set (reg_queue (cl_registry c)) \<longleftrightarrow> has_tx_data (reg_heap (cl_registry c) a))"
    if ia: "(i, a) \<in> set (reg_map (cl_registry c))" for i a
  proof -
    have "stream_in (cl_registry c) (somes (reg_queue (cl_registry c))) (i, a)"
      using ok that by (simp add: client_ok_def registry_ok_def registry_inv_def)
    moreover obtain n where "1 \<le> n" "n < unat (cl_client_id_order c)" "i = native_to_big32 native (of_nat (2 * n - 1))"
      using ok ids_givenD [OF _ ia] unfolding client_ok_def by blast
    moreover from this(3) have "store_native native 4 i = be_bytes 4 (of_nat (2 * n - 1) :: u32)" by (simp only: store_native_to_big)
    ultimately show ?thesis unfolding stream_in_def some_in_queue by blast
  qed
  ultimately show ?thesis by blast
qed

theorem client_streams_witness:
  "\<exists>c. (client_step little)\<^sup>*\<^sup>* client_new c \<and> map fst (reg_map (cl_registry c)) = [native_to_big32 little 1] \<and>
     reg_queue (cl_registry c) = [Some 0] \<and> has_tx_data (reg_heap (cl_registry c) 0)"
proof -
  let ?c = "client_new\<lparr>cl_is_connected := True\<rparr>"
  obtain c ev where c: "initiate_send little example_request 7 ?c = (c, ev, Inr ())"
    by (simp add: initiate_send_def get_next_stream_id_def alloc_stream_def emit_def Let_def)
  have "client_step little ?c c"
    by (rule client_step.Send [OF c]) (simp_all add: example_request_def client_new_def)
  then have reach: "(client_step little)\<^sup>*\<^sup>* client_new c"
    using client_step.Connected [of little client_new] by (meson converse_rtranclp_into_rtranclp rtranclp.rtrancl_refl)
  have r: "map fst (reg_map (cl_registry c)) = [native_to_big32 little 1]" "reg_queue (cl_registry c) = [Some 0]"
    "(native_to_big32 little 1, 0) \<in> set (reg_map (cl_registry c))"
    using c by (auto simp: initiate_send_def get_next_stream_id_def alloc_stream_def emit_def Let_def add_stream_def client_new_def
        registry_new_def)
  show ?thesis using client_streams [OF reach] r reach by fastforce
qed

end
