(* ===== verification/Http2_Session.thy ===== *)
theory Http2_Session
  imports Http2_Client_Streams "HOL-Library.Sublist"
begin

text \<open>
  The session (\<open>lib/client_session.h\<close>): the client on an asynchronous connection. \<open>ConnectionType\<close> is a template
  parameter and stays one: the model has the operations that the session has started and that have not completed
  yet, and a function for every completion. The coroutine \<open>co_init\<close> is cut at its two \<open>co_await\<close>s and named
  by the completion token it reports to. Completions run one at a time, as on an \<open>io_context\<close> with one thread.
\<close>

section \<open>State\<close>

record session =
  ss_client :: client
  ss_input_buffer :: buffer
  ss_tx_running :: bool
  ss_tx_routine_done :: bool
  ss_tx_queue_sent :: "buffer list"
  ss_shutdown_handler :: bool
  ss_spawned :: "handler list"
  ss_connecting :: "handler list"
  ss_reads :: nat
  ss_posted :: nat
  ss_writes :: "buffer list list"
  ss_disconnects :: nat

text \<open>
  The last six fields are what is pending: coroutines that have not begun, coroutines that wait for the connection, reads, write routines posted to
  the \<open>io_context\<close>, writes with their buffers, and disconnections of the connection.
\<close>

definition session_new :: "(nat \<Rightarrow> byte) \<Rightarrow> session" where
  "session_new fill = \<lparr>
     ss_client = client_new,
     ss_input_buffer = buffer_new fill 64,
     ss_tx_running = False,
     ss_tx_routine_done = False,
     ss_tx_queue_sent = [],
     ss_shutdown_handler = False,
     ss_spawned = [],
     ss_connecting = [],
     ss_reads = 0,
     ss_posted = 0,
     ss_writes = [],
     ss_disconnects = 0\<rparr>"

text \<open>What the user of a session sees: the end of \<open>async_connect\<close>, the shutdown handler, other handlers.\<close>

datatype session_event =
    Connect_Done handler "error_value result"
  | Shutdown error_value
  | Client_Call client_event

type_synonym session_result = "session \<times> session_event list \<times> unit result"

section \<open>The writer\<close>

definition init_write :: "session \<Rightarrow> session" where
  "init_write s = (if ss_tx_running s then s else s\<lparr>ss_tx_running := True, ss_posted := ss_posted s + 1\<rparr>)"

text \<open>The calls of the client: \<open>init_write\<close>, the handler that resumes \<open>co_init\<close> after the settings, and the others.\<close>

fun client_call :: "client_event \<Rightarrow> session \<Rightarrow> session \<times> session_event list" where
  "client_call Init_Write s = (init_write s, [])"
| "client_call (Sync_Done h ec) s =
     (if ec_failed ec then (s, [Connect_Done h (Inl (system_error ec))])
      else (s\<lparr>ss_client := (ss_client s)\<lparr>cl_is_connected := True, cl_connection_error := no_error\<rparr>\<rparr>, [Connect_Done h (Inr no_error)]))"
| "client_call e s = (s, [Client_Call e])"

fun client_calls :: "client_event list \<Rightarrow> session \<Rightarrow> session \<times> session_event list" where
  "client_calls [] s = (s, [])"
| "client_calls (e # es) s =
     (case client_call e s of (s1, out1) \<Rightarrow> case client_calls es s1 of (s2, out2) \<Rightarrow> (s2, out1 @ out2))"

definition client_do :: "'a action \<Rightarrow> session \<Rightarrow> session \<times> session_event list \<times> 'a result" where
  "client_do m s =
     (case m (ss_client s) of (c, ev, r) \<Rightarrow>
        case client_calls ev (s\<lparr>ss_client := c\<rparr>) of (s', outs) \<Rightarrow> (s', outs, r))"

definition check_shutdown :: "session \<Rightarrow> session" where
  "check_shutdown s = (if ss_tx_routine_done s then s\<lparr>ss_disconnects := ss_disconnects s + 1\<rparr> else s)"

text \<open>The function that \<open>init_write\<close> posts.\<close>

definition write_routine :: "byte_order \<Rightarrow> stray \<Rightarrow> (nat \<Rightarrow> byte) \<Rightarrow> session \<Rightarrow> session_result" where
  "write_routine native stray fill s =
     (case client_do (client_tx_data native stray fill) (s\<lparr>ss_posted := ss_posted s - 1\<rparr>) of
        (s1, outs, Inl e) \<Rightarrow> (s1, outs, Inl e)
      | (s1, outs, Inr tx_queue) \<Rightarrow>
          if tx_queue = [] then
            let s2 = s1\<lparr>ss_tx_running := False\<rparr>
            in (if cl_start_disconnect (ss_client s2) then check_shutdown (s2\<lparr>ss_tx_routine_done := True\<rparr>) else s2, outs, Inr ())
          else (s1\<lparr>ss_tx_queue_sent := ss_tx_queue_sent s1 @ tx_queue, ss_writes := ss_writes s1 @ [tx_queue]\<rparr>, outs, Inr ()))"

definition on_data_write :: "error_value \<Rightarrow> buffer list \<Rightarrow> session \<Rightarrow> session" where
  "on_data_write ec data s0 =
     (let s = s0\<lparr>ss_writes := remove1 data (ss_writes s0)\<rparr>
      in if \<not> ec_failed ec then init_write (s\<lparr>ss_tx_queue_sent := [], ss_tx_running := False\<rparr>)
         else
           let c = ss_client s;
               c' = (if \<not> cl_start_disconnect c then c\<lparr>cl_start_disconnect := True, cl_connection_error := ec\<rparr> else c)
           in s\<lparr>ss_client := c', ss_tx_running := False, ss_tx_routine_done := True\<rparr>)"

section \<open>The reader\<close>

definition init_read :: "session \<Rightarrow> session" where
  "init_read s = (if \<not> cl_start_disconnect (ss_client s) then s\<lparr>ss_reads := ss_reads s + 1\<rparr> else s)"

text \<open>\<open>bytes\<close> is what the connection has put into the space of the buffer. \<open>on_read\<close> always returns.\<close>

definition on_data_read ::
  "byte_order \<Rightarrow> (nat \<Rightarrow> byte) \<Rightarrow> (int \<Rightarrow> byte) \<Rightarrow> error_value \<Rightarrow> byte list \<Rightarrow> session \<Rightarrow> session_result" where
  "on_data_read native fill out ec bytes s0 =
     (let s = s0\<lparr>ss_reads := ss_reads s0 - 1\<rparr>; b = ss_input_buffer s
      in if \<not> ec_failed ec
         then
           let filled = fst (commit (length bytes) (b\<lparr>buf_memory := poke (buf_offset b) bytes (buf_memory b)\<rparr>))
           in case on_read native fill out filled (ss_client s) of
                None \<Rightarrow> (s, [], Inl undefined_behaviour)
              | Some (c, ev, Inl e) \<Rightarrow> (s\<lparr>ss_client := c\<rparr>, [], Inl e)
              | Some (c, ev, Inr buff) \<Rightarrow>
                  (case client_calls ev (s\<lparr>ss_client := c\<rparr>) of (s', outs) \<Rightarrow> (init_read (s'\<lparr>ss_input_buffer := buff\<rparr>), outs, Inr ()))
         else
           let c = ss_client s
           in (if \<not> cl_start_disconnect c
               then s\<lparr>ss_client := c\<lparr>cl_start_disconnect := True, cl_connection_error := ec\<rparr>\<rparr> else s, [], Inr ()))"

section \<open>Connecting and disconnecting\<close>

definition async_connect :: "handler \<Rightarrow> session \<Rightarrow> session" where
  "async_connect token s = s\<lparr>ss_shutdown_handler := True, ss_spawned := ss_spawned s @ [token]\<rparr>"

text \<open>\<open>co_init\<close> up to its first \<open>co_await\<close>.\<close>

definition co_init :: "handler \<Rightarrow> session \<Rightarrow> session \<times> session_event list" where
  "co_init token s0 =
     (let s = s0\<lparr>ss_spawned := remove1 token (ss_spawned s0)\<rparr>; c = ss_client s
      in if cl_is_connected c then (s, [Connect_Done token (Inr (asio_error already_connected))])
         else if cl_start_connecting c then (s, [Connect_Done token (Inr (asio_error in_progress))])
         else (s\<lparr>ss_client := c\<lparr>cl_start_connecting := True\<rparr>, ss_connecting := ss_connecting s @ [token]\<rparr>, []))"

definition async_update_settings :: "byte_order \<Rightarrow> (nat \<Rightarrow> byte) \<Rightarrow> bool \<Rightarrow> handler \<Rightarrow> session \<Rightarrow> session_result" where
  "async_update_settings native fill remote_sync token s = client_do (client_sync_settings native fill remote_sync token) s"

text \<open>\<open>co_init\<close> after the connection has been established, or after that has failed, which it throws.\<close>

definition co_init_connected :: "byte_order \<Rightarrow> (nat \<Rightarrow> byte) \<Rightarrow> handler \<Rightarrow> error_value \<Rightarrow> session \<Rightarrow> session \<times> session_event list" where
  "co_init_connected native fill token ec s0 =
     (let s = s0\<lparr>ss_connecting := remove1 token (ss_connecting s0)\<rparr>
      in if ec_failed ec then (s, [Connect_Done token (Inl (system_error ec))])
         else
           let s1 = s\<lparr>ss_tx_routine_done := False, ss_tx_running := False, ss_client := (ss_client s)\<lparr>cl_connection_error := no_error\<rparr>\<rparr>;
               (s2, out2, _) = client_do (write_initial_frames fill) s1;
               s3 = init_read s2
           in case async_update_settings native fill True token s3 of
                (s4, out4, Inl e) \<Rightarrow> (s4, out2 @ out4 @ [Connect_Done token (Inl e)])
              | (s4, out4, Inr _) \<Rightarrow> (s4, out2 @ out4))"

definition async_disconnect :: "byte_order \<Rightarrow> (nat \<Rightarrow> byte) \<Rightarrow> handler \<Rightarrow> session \<Rightarrow> session_result" where
  "async_disconnect native fill token s = client_do (initiate_disconnect native fill no_error (Some token)) s"

definition async_send :: "byte_order \<Rightarrow> request \<Rightarrow> handler \<Rightarrow> session \<Rightarrow> session_result" where
  "async_send native rq token s = client_do (initiate_send native rq token) s"

definition session_ping :: "byte_order \<Rightarrow> (nat \<Rightarrow> byte) \<Rightarrow> handler \<Rightarrow> session \<Rightarrow> session_result" where
  "session_ping native fill token s = client_do (initiate_ping native fill token) s"

text \<open>The completion of \<open>connection.async_disconnect\<close>.\<close>

definition on_disconnected :: "session \<Rightarrow> session \<times> session_event list" where
  "on_disconnected s0 =
     (case client_do (cleanup_after_disconnect (cl_connection_error (ss_client s0))) (s0\<lparr>ss_disconnects := ss_disconnects s0 - 1\<rparr>) of
        (s, outs, _) \<Rightarrow>
          let c = ss_client s
          in (s\<lparr>ss_client := c\<lparr>cl_disconnect_handler := None\<rparr>\<rparr>,
              outs @ (if ss_shutdown_handler s then [Shutdown (cl_connection_error c)] else []) @
                map (\<lambda>d. Client_Call (Disconnect_Done d)) (opt_list (cl_disconnect_handler c))))"

section \<open>Everything that happens to a session\<close>

text \<open>
  The completions of what is pending, the calls of the user and the timers, in any order. The connection is
  established while no write is pending: the user has not asked to disconnect before.
\<close>

inductive session_step :: "byte_order \<Rightarrow> session \<Rightarrow> session \<Rightarrow> bool" for native where
  Connect: "session_step native s (async_connect token s)"
| Spawned: "token \<in> set (ss_spawned s) \<Longrightarrow> co_init token s = (s', outs) \<Longrightarrow> session_step native s s'"
| Established: "token \<in> set (ss_connecting s) \<Longrightarrow> ss_posted s = 0 \<Longrightarrow> ss_writes s = [] \<Longrightarrow>
    co_init_connected native fill token ec s = (s', outs) \<Longrightarrow> session_step native s s'"
| Read: "0 < ss_reads s \<Longrightarrow> length bytes \<le> length (prepare (ss_input_buffer s)) \<Longrightarrow>
    on_data_read native fill out ec bytes s = (s', outs, Inr ()) \<Longrightarrow> session_step native s s'"
| Routine: "0 < ss_posted s \<Longrightarrow> write_routine native stray fill s = (s', outs, r) \<Longrightarrow> session_step native s s'"
| Written: "data \<in> set (ss_writes s) \<Longrightarrow> session_step native s (on_data_write ec data s)"
| Disconnected: "0 < ss_disconnects s \<Longrightarrow> on_disconnected s = (s', outs) \<Longrightarrow> session_step native s s'"
| User_Disconnect: "async_disconnect native fill token s = (s', outs, r) \<Longrightarrow> session_step native s s'"
| User_Send: "async_send native rq token s = (s', outs, r) \<Longrightarrow> session_step native s s'"
| User_Ping: "session_ping native fill token s = (s', outs, r) \<Longrightarrow> session_step native s s'"
| Settings_Timeout: "client_do (client_settings_timer native fill aborted) s = (s', outs, r) \<Longrightarrow> session_step native s s'"
| Stream_Timeout: "on_stream_timer aborted (reg_heap (cl_registry (ss_client s)) a) = (st, calls) \<Longrightarrow>
    session_step native s (s\<lparr>ss_client := (ss_client s)\<lparr>cl_registry :=
      (cl_registry (ss_client s))\<lparr>reg_heap := (reg_heap (cl_registry (ss_client s)))(a := st)\<rparr>\<rparr>\<rparr>)"

section \<open>The invariant of a session\<close>

abbreviation flags_of :: "client \<Rightarrow> bool \<times> bool" where
  "flags_of c \<equiv> (cl_start_disconnect c, cl_start_connecting c)"

definition at_most_one :: "bool \<Rightarrow> nat \<Rightarrow> bool" where
  "at_most_one flag n \<longleftrightarrow> n \<le> (if flag then 1 else 0)"

lemma at_most_one_simps [simp]: "at_most_one True n \<longleftrightarrow> n \<le> 1" "at_most_one False n \<longleftrightarrow> n = 0" "at_most_one flag 0"
  by (simp_all add: at_most_one_def)

lemma at_most_one_mono: "at_most_one flag n \<Longrightarrow> m \<le> n \<Longrightarrow> at_most_one flag m"
  by (simp add: at_most_one_def split: if_splits)

definition one_writer :: "session \<Rightarrow> bool" where
  "one_writer s \<longleftrightarrow> at_most_one (ss_tx_running s) (ss_posted s + length (ss_writes s))"

definition has_space :: "buffer \<Rightarrow> bool" where
  "has_space b \<longleftrightarrow> (\<exists>bs. keeps_unread bs b)"

definition session_ok :: "session \<Rightarrow> bool" where
  "session_ok s \<longleftrightarrow> one_writer s \<and> (\<forall>q\<in>set (ss_writes s). suffix q (ss_tx_queue_sent s)) \<and> ss_reads s \<le> 1 \<and>
     (0 < ss_disconnects s \<longrightarrow> cl_start_disconnect (ss_client s)) \<and>
     (\<not> cl_start_disconnect (ss_client s) \<longrightarrow> at_most_one (cl_start_connecting (ss_client s)) (ss_reads s + length (ss_connecting s))) \<and>
     (0 < ss_reads s \<or> \<not> cl_start_disconnect (ss_client s) \<longrightarrow> has_space (ss_input_buffer s))"

text \<open>What the calls of the client leave as it is.\<close>

definition only_writer :: "session \<Rightarrow> session \<Rightarrow> bool" where
  "only_writer s s' \<longleftrightarrow> ss_input_buffer s' = ss_input_buffer s \<and> ss_tx_queue_sent s' = ss_tx_queue_sent s \<and>
     ss_connecting s' = ss_connecting s \<and> ss_reads s' = ss_reads s \<and> ss_writes s' = ss_writes s \<and>
     ss_disconnects s' = ss_disconnects s \<and> flags_of (ss_client s') = flags_of (ss_client s) \<and> (one_writer s \<longrightarrow> one_writer s')"

lemma only_writer_refl [simp]: "only_writer s s" by (simp add: only_writer_def)

lemma only_writer_trans: "only_writer s s1 \<Longrightarrow> only_writer s1 s2 \<Longrightarrow> only_writer s s2"
  by (simp add: only_writer_def)

lemma only_writer_init_write [simp]: "only_writer s (init_write s)"
  by (simp add: only_writer_def init_write_def one_writer_def)

lemma only_writer_call:
  assumes "client_call e s = (s', outs)"
  shows "only_writer s s'"
proof (cases e)
  case Init_Write
  then show ?thesis using assms by auto
qed (use assms in \<open>auto simp: only_writer_def one_writer_def split: if_splits\<close>)

lemma only_writer_calls: "client_calls es s = (s', outs) \<Longrightarrow> only_writer s s'"
  by (induction es arbitrary: s s' outs) (auto split: prod.splits dest: only_writer_call intro: only_writer_trans)

lemma session_ok_writer: "only_writer s s' \<Longrightarrow> session_ok s \<Longrightarrow> session_ok s'"
  by (auto simp: session_ok_def only_writer_def)

lemma client_do_ok:
  assumes "client_do m s = (s', outs, r)" "session_ok (s\<lparr>ss_client := fst (m (ss_client s))\<rparr>)"
  shows "session_ok s'"
  using assms only_writer_calls session_ok_writer by (auto simp: client_do_def split: prod.splits) blast

lemma session_ok_keeps: "flags_of c = flags_of (ss_client s) \<Longrightarrow> session_ok s \<Longrightarrow> session_ok (s\<lparr>ss_client := c\<rparr>)"
  by (simp add: session_ok_def one_writer_def)

lemma client_do_keeps_ok:
  assumes "client_do m s = (s', outs, r)" "keeps flags_of m" "session_ok s"
  shows "session_ok s'"
  by (rule client_do_ok [OF assms(1)], rule session_ok_keeps) (use assms(2,3) in \<open>simp_all add: keeps_def\<close>)

lemma session_ok_disconnecting: "cl_start_disconnect c \<Longrightarrow> session_ok s \<Longrightarrow> session_ok (s\<lparr>ss_client := c\<rparr>)"
  by (simp add: session_ok_def one_writer_def)

text \<open>The flags change only when a disconnection starts or ends.\<close>

interpretation flags_view: client_control_view flags_of
  by unfold_locales simp_all

lemma disconnect_flags: "initiate_disconnect native fill ec h c = (c', ev, r) \<Longrightarrow> cl_start_disconnect c'"
proof -
  assume d: "initiate_disconnect native fill ec h c = (c', ev, r)"
  obtain sm calls cancelled where cancel: "sm_cancel ec (cl_settings c) = (sm, calls, cancelled)" by (metis prod_cases3)
  let ?m = "seq (each (settings_synced native fill) calls) (if cancelled then emit []
      else seq (change (\<lambda>c. c\<lparr>cl_connection_error := ec, cl_disconnect_handler := h\<rparr>))
        (seq (send_command (goaway native fill (error_code_value native IS_OK) 1 [])) (emit [Init_Write])))"
  have "keeps flags_of ?m" by (cases cancelled) auto
  then have "flags_of (fst (?m (c\<lparr>cl_start_disconnect := True, cl_settings := sm\<rparr>))) = (True, cl_start_connecting c)" by (simp add: keeps_def)
  then show ?thesis using d cancel by (auto simp: initiate_disconnect_def emit_def split: if_splits)
qed

lemma session_ok_connecting:
  "session_ok s \<Longrightarrow> length xs \<le> length (ss_connecting s) \<Longrightarrow> session_ok (s\<lparr>ss_connecting := xs\<rparr>)"
  by (auto simp: session_ok_def one_writer_def elim: at_most_one_mono)

lemma connect_ok: "session_ok s \<Longrightarrow> session_ok (async_connect token s)"
  by (simp add: async_connect_def session_ok_def one_writer_def)

lemma co_init_ok:
  assumes "co_init token s = (s', outs)" "session_ok s"
  shows "session_ok s'"
proof (cases "cl_is_connected (ss_client s) \<or> cl_start_connecting (ss_client s)")
  case True
  then have "s' = s\<lparr>ss_spawned := remove1 token (ss_spawned s)\<rparr>" using assms(1) by (auto simp: co_init_def Let_def split: if_splits)
  then show ?thesis using assms(2) by (simp add: session_ok_def one_writer_def)
next
  case False
  then have "s' = s\<lparr>ss_spawned := remove1 token (ss_spawned s), ss_client := (ss_client s)\<lparr>cl_start_connecting := True\<rparr>,
      ss_connecting := ss_connecting s @ [token]\<rparr>"
    using assms(1) by (simp add: co_init_def Let_def)
  then show ?thesis using assms(2) False by (simp add: session_ok_def one_writer_def)
qed

lemma init_read_ok:
  assumes "session_ok s" "\<not> cl_start_disconnect (ss_client s) \<Longrightarrow>
    ss_reads s = 0 \<and> ss_connecting s = [] \<and> cl_start_connecting (ss_client s)"
  shows "session_ok (init_read s)"
  using assms by (cases "cl_start_disconnect (ss_client s)") (simp_all add: init_read_def session_ok_def one_writer_def)

lemma co_init_connected_ok:
  assumes "token \<in> set (ss_connecting s)" "ss_posted s = 0" "ss_writes s = []"
    and "co_init_connected native fill token ec s = (s', outs)" "session_ok s"
  shows "session_ok s'"
proof (cases "ec_failed ec")
  case True
  then have "s' = s\<lparr>ss_connecting := remove1 token (ss_connecting s)\<rparr>" using assms(4) by (simp add: co_init_connected_def async_update_settings_def)
  then show ?thesis using session_ok_connecting [OF assms(5)] by (simp add: length_remove1)
next
  case False
  let ?s1 = "s\<lparr>ss_connecting := remove1 token (ss_connecting s), ss_tx_routine_done := False, ss_tx_running := False,
    ss_client := (ss_client s)\<lparr>cl_connection_error := no_error\<rparr>\<rparr>"
  have "session_ok (s\<lparr>ss_connecting := remove1 token (ss_connecting s)\<rparr>)"
    by (rule session_ok_connecting [OF assms(5)]) (simp add: length_remove1)
  then have ok1: "session_ok ?s1" using assms(2,3) by (simp add: session_ok_def one_writer_def)
  have free: "ss_reads ?s1 = 0 \<and> ss_connecting ?s1 = [] \<and> cl_start_connecting (ss_client ?s1)" if "\<not> cl_start_disconnect (ss_client ?s1)"
  proof -
    have "at_most_one (cl_start_connecting (ss_client s)) (ss_reads s + length (ss_connecting s))"
      using assms(5) that by (simp add: session_ok_def)
    moreover have "0 < length (ss_connecting s)" by (rule length_pos_if_in_set [OF assms(1)])
    ultimately have "ss_reads s = 0" "length (ss_connecting s) = 1" "cl_start_connecting (ss_client s)"
      by (cases "cl_start_connecting (ss_client s)"; linarith?; simp)+
    moreover from this(2) obtain x where "ss_connecting s = [x]" by (cases "ss_connecting s") auto
    ultimately show ?thesis using assms(1) by simp
  qed
  obtain s2 out2 r2 where s2: "client_do (write_initial_frames fill) ?s1 = (s2, out2, r2)" by (metis prod_cases3)
  have ok2: "session_ok s2" by (rule client_do_keeps_ok [OF s2 flags_view.keeps_initial_frames ok1])
  have "only_writer (?s1\<lparr>ss_client := fst (write_initial_frames fill (ss_client ?s1))\<rparr>) s2"
    using s2 by (auto simp: client_do_def split: prod.splits dest: only_writer_calls)
  then have "session_ok (init_read s2)"
    using free flags_view.keeps_initial_frames [of fill] by (intro init_read_ok [OF ok2]) (auto simp: only_writer_def keeps_def)
  moreover obtain s4 out4 r4 where s4: "client_do (client_sync_settings native fill True token) (init_read s2) = (s4, out4, r4)"
    by (metis prod_cases3)
  ultimately have "session_ok s4" using client_do_keeps_ok [OF s4 flags_view.keeps_sync_settings] by simp
  then show ?thesis using assms(4) False s2 s4 by (auto simp: co_init_connected_def async_update_settings_def Let_def split: sum.splits)
qed

lemma tx_data_events: "client_tx_data native stray fill c = (c', ev, r) \<Longrightarrow> ev = []"
  by (auto simp: client_tx_data_def Let_def split: prod.splits sum.splits if_splits)

lemma one_writer_cases:
  assumes "one_writer s" "0 < ss_posted s + length (ss_writes s)"
  shows "ss_tx_running s" "ss_posted s = 1 \<and> ss_writes s = [] \<or> ss_posted s = 0 \<and> (\<exists>q. ss_writes s = [q])"
  using assms by (cases "ss_tx_running s"; cases "ss_writes s"; simp add: one_writer_def)+

lemma write_routine_ok:
  assumes "0 < ss_posted s" "write_routine native stray fill s = (s', outs, r)" "session_ok s"
  shows "session_ok s'"
proof -
  let ?s = "s\<lparr>ss_posted := ss_posted s - 1\<rparr>"
  have w: "ss_tx_running s" "ss_posted s = 1" "ss_writes s = []"
    using one_writer_cases [of s] assms(1,3) by (auto simp: session_ok_def)
  obtain c' ev r1 where tx: "client_tx_data native stray fill (ss_client s) = (c', ev, r1)" by (metis prod_cases3)
  have flags: "flags_of c' = flags_of (ss_client s)" by (rule keepsD [OF flags_view.keeps_tx_data tx])
  have d: "client_do (client_tx_data native stray fill) ?s = (?s\<lparr>ss_client := c'\<rparr>, [], r1)"
    using tx tx_data_events [OF tx] by (simp add: client_do_def)
  have ok: "session_ok (?s\<lparr>ss_client := c'\<rparr>)" using assms(3) w flags by (simp add: session_ok_def one_writer_def)
  show ?thesis
  proof (cases r1)
    case (Inl e)
    then show ?thesis using assms(2) d ok by (simp add: write_routine_def)
  next
    case (Inr q)
    show ?thesis
    proof (cases "q = []")
      case True
      then show ?thesis using assms(2) d ok w Inr
        by (auto simp: write_routine_def check_shutdown_def Let_def session_ok_def one_writer_def split: if_splits)
    next
      case False
      then have "s' = ?s\<lparr>ss_client := c', ss_tx_queue_sent := ss_tx_queue_sent s @ q, ss_writes := [q]\<rparr>"
        using assms(2) d w Inr by (simp add: write_routine_def)
      then show ?thesis using ok w by (simp add: session_ok_def one_writer_def suffix_def)
    qed
  qed
qed

lemma on_data_write_ok:
  assumes "data \<in> set (ss_writes s)" "session_ok s"
  shows "session_ok (on_data_write ec data s)"
proof -
  have "0 < length (ss_writes s)" by (rule length_pos_if_in_set [OF assms(1)])
  then have w: "ss_tx_running s" "ss_posted s = 0" "ss_writes s = [data]"
    using one_writer_cases [of s] assms by (auto simp: session_ok_def)
  show ?thesis using assms(2) w
    by (cases "ec_failed ec"; cases "cl_start_disconnect (ss_client s)")
      (simp_all add: on_data_write_def init_write_def session_ok_def one_writer_def Let_def)
qed

lemma on_disconnected_ok:
  assumes "0 < ss_disconnects s" "on_disconnected s = (s', outs)" "session_ok s"
  shows "session_ok s'"
proof -
  let ?m = "cleanup_after_disconnect (cl_connection_error (ss_client s))"
  let ?s = "s\<lparr>ss_disconnects := ss_disconnects s - 1\<rparr>"
  obtain s1 out1 r1 where d: "client_do ?m ?s = (s1, out1, r1)" by (metis prod_cases3)
  have sd: "cl_start_disconnect (ss_client s)" using assms(1,3) by (simp add: session_ok_def)
  have "session_ok ?s" using assms(3) by (auto simp: session_ok_def one_writer_def)
  then have "session_ok (?s\<lparr>ss_client := fst (?m (ss_client ?s))\<rparr>)"
    using sd by (intro session_ok_disconnecting) (simp_all add: cleanup_after_disconnect_def split: prod.split)
  then have "session_ok s1" by (rule client_do_ok [OF d])
  then show ?thesis using assms(2) d by (auto simp: on_disconnected_def Let_def intro!: session_ok_keeps)
qed

lemma disconnect_ok:
  assumes "client_do (initiate_disconnect native fill ec h) s = (s', outs, r)" "session_ok s"
  shows "session_ok s'"
proof (rule client_do_ok [OF assms(1)], rule session_ok_disconnecting [OF _ assms(2)])
  show "cl_start_disconnect (fst (initiate_disconnect native fill ec h (ss_client s)))"
    by (rule disconnect_flags [of native fill ec h "ss_client s" _ "fst (snd (initiate_disconnect native fill ec h (ss_client s)))"
          "snd (snd (initiate_disconnect native fill ec h (ss_client s)))"]) simp
qed

text \<open>A read gives the buffer that \<open>on_read\<close> returns space again, or the session disconnects.\<close>

lemma on_read_keeps_space:
  assumes "on_read native fill out b c = Some (c', ev, Inr b')" "buffer_ok b" "header_size \<le> buf_maxsize b"
  shows "cl_start_disconnect c' \<or> flags_of c' = flags_of c \<and> has_space b'"
proof -
  obtain items tail c1 ev1 r where x:
    "seq (each (handle_frame native fill out) items) (handle_rest native tail) c = (c1, ev1, r)"
    "case r of
       Inr _ \<Rightarrow> \<exists>b'. keeps_unread (span_bytes tail) b' \<and>
         on_read native fill out b c = Some (c1, ev1 @ (if length (data_view b) < header_size then [] else [Init_Write]), Inr b')
     | Inl e \<Rightarrow>
         if e = undefined_behaviour then on_read native fill out b c = Some (c1, ev1, Inl e)
         else case initiate_disconnect native fill (exception_code native e) None c1 of (c'', ev', _) \<Rightarrow>
           \<exists>b'. on_read native fill out b c = Some (c'', ev1 @ ev' @ [Init_Write], Inr b')"
    using on_read_frames [OF assms(2,3), of native fill out c] by blast
  have k: "keeps flags_of (seq (each (handle_frame native fill out) items) (handle_rest native tail))" by blast
  have flags: "flags_of c1 = flags_of c" by (rule keepsD [OF k x(1)])
  show ?thesis
  proof (cases r)
    case (Inl e)
    then show ?thesis using x(2) assms(1) disconnect_flags by (auto split: if_splits prod.splits)
  next
    case (Inr u)
    then show ?thesis using x(2) assms(1) flags by (auto simp: has_space_def)
  qed
qed

lemma filled_ok:
  assumes "buffer_ok b" "length bytes \<le> length (prepare b)"
  shows "buffer_ok (fst (commit (length bytes) (b\<lparr>buf_memory := poke (buf_offset b) bytes (buf_memory b)\<rparr>)))"
    "buf_maxsize (fst (commit (length bytes) (b\<lparr>buf_memory := poke (buf_offset b) bytes (buf_memory b)\<rparr>))) = buf_maxsize b"
proof -
  have "buf_offset b + length bytes \<le> length (buf_memory b)"
    using assms length_prepare [OF assms(1)] unfolding buffer_ok_def by linarith
  then have "buffer_ok (b\<lparr>buf_memory := poke (buf_offset b) bytes (buf_memory b)\<rparr>)" using assms(1) by (simp add: buffer_ok_def)
  then show "buffer_ok (fst (commit (length bytes) (b\<lparr>buf_memory := poke (buf_offset b) bytes (buf_memory b)\<rparr>)))"
    by (rule buffer_ok_commit)
  show "buf_maxsize (fst (commit (length bytes) (b\<lparr>buf_memory := poke (buf_offset b) bytes (buf_memory b)\<rparr>))) = buf_maxsize b"
    by (simp add: commit_def Let_def)
qed

lemma on_data_read_ok:
  assumes "0 < ss_reads s" "length bytes \<le> length (prepare (ss_input_buffer s))"
    and "on_data_read native fill out ec bytes s = (s', outs, Inr ())" "session_ok s"
  shows "session_ok s'"
proof (cases "ec_failed ec")
  case True
  have "session_ok (s\<lparr>ss_reads := ss_reads s - 1\<rparr>)"
    using assms(4) by (auto simp: session_ok_def one_writer_def elim: at_most_one_mono)
  then show ?thesis using assms(3) True
    by (auto simp: on_data_read_def Let_def intro!: session_ok_disconnecting split: if_splits)
next
  case False
  let ?b = "ss_input_buffer s"
  let ?f = "fst (commit (length bytes) (?b\<lparr>buf_memory := poke (buf_offset ?b) bytes (buf_memory ?b)\<rparr>))"
  let ?s = "s\<lparr>ss_reads := ss_reads s - 1\<rparr>"
  obtain c ev b' s1 where r: "on_read native fill out ?f (ss_client s) = Some (c, ev, Inr b')"
      "client_calls ev (?s\<lparr>ss_client := c\<rparr>) = (s1, outs)" "s' = init_read (s1\<lparr>ss_input_buffer := b'\<rparr>)"
    using assms(3) False by (auto simp: on_data_read_def Let_def split: option.splits prod.splits sum.splits)
  have reads: "ss_reads s = 1" using assms(1,4) by (simp add: session_ok_def)
  have w: "only_writer (?s\<lparr>ss_client := c\<rparr>) s1" by (rule only_writer_calls [OF r(2)])
  show ?thesis
  proof (cases "cl_start_disconnect c")
    case True
    have "session_ok (?s\<lparr>ss_client := c\<rparr>)" using assms(4) True reads by (simp add: session_ok_def one_writer_def)
    then have "session_ok (s1\<lparr>ss_input_buffer := b'\<rparr>)" "cl_start_disconnect (ss_client s1)"
      using session_ok_writer [OF w] w True reads by (simp_all add: session_ok_def one_writer_def only_writer_def)
    then show ?thesis unfolding r(3) by (intro init_read_ok) simp_all
  next
    case nd: False
    have "buffer_ok ?b" "header_size \<le> buf_maxsize ?b" using assms(1,4) by (auto simp: session_ok_def has_space_def keeps_unread_def)
    then have f: "flags_of c = flags_of (ss_client s)" "has_space b'"
      using on_read_keeps_space [OF r(1)] filled_ok [of ?b bytes] assms(2) nd by auto
    then have pre: "\<not> cl_start_disconnect (ss_client s)" using nd by simp
    have conn: "ss_connecting s = []" "cl_start_connecting (ss_client s)"
      using assms(4) pre reads by (cases "cl_start_connecting (ss_client s)"; simp add: session_ok_def)+
    have "session_ok (?s\<lparr>ss_client := c\<rparr>)" using assms(4) f(1) conn reads by (simp add: session_ok_def one_writer_def)
    then have "session_ok (s1\<lparr>ss_input_buffer := b'\<rparr>)"
      using session_ok_writer [OF w] f(2) by (simp add: session_ok_def one_writer_def)
    then show ?thesis unfolding r(3) using w reads conn f(1) by (intro init_read_ok) (simp_all add: only_writer_def)
  qed
qed

lemma session_step_ok: "session_step native s s' \<Longrightarrow> session_ok s \<Longrightarrow> session_ok s'"
proof (induction rule: session_step.induct)
  case (Connect s token)
  then show ?case by (rule connect_ok)
next
  case (Spawned token s s' outs)
  then show ?case by (blast intro: co_init_ok)
next
  case (Established token s fill ec s' outs)
  then show ?case by (rule co_init_connected_ok)
next
  case (Read s bytes fill out ec s' outs)
  then show ?case by (rule on_data_read_ok)
next
  case (Routine s stray fill s' outs r)
  then show ?case by (rule write_routine_ok)
next
  case (Written data s ec)
  then show ?case by (rule on_data_write_ok)
next
  case (Disconnected s s' outs)
  then show ?case by (rule on_disconnected_ok)
next
  case (User_Disconnect fill token s s' outs r)
  then show ?case unfolding async_disconnect_def by (rule disconnect_ok)
next
  case (User_Send rq token s s' outs r)
  then show ?case unfolding async_send_def by (rule client_do_keeps_ok [OF _ flags_view.keeps_initiate_send])
next
  case (User_Ping fill token s s' outs r)
  then show ?case unfolding session_ping_def by (rule client_do_keeps_ok [OF _ flags_view.keeps_initiate_ping])
next
  case (Settings_Timeout fill aborted s s' outs r)
  then show ?case by (rule client_do_keeps_ok [OF _ flags_view.keeps_settings_timer])
next
  case (Stream_Timeout aborted s a st calls)
  show ?case by (rule session_ok_keeps [OF _ Stream_Timeout(2)]) simp
qed

lemma session_ok_new: "session_ok (session_new fill)"
  using keeps_unread_new [of fill]
  by (auto simp: session_ok_def session_new_def one_writer_def client_new_def has_space_def)

lemma session_reachable_ok: "(session_step native)\<^sup>*\<^sup>* (session_new fill) s \<Longrightarrow> session_ok s"
  by (induction rule: rtranclp_induct) (rule session_ok_new, rule session_step_ok)

section \<open>Properties\<close>


definition connecting_session :: session where
  "connecting_session = fst (co_init 1 (async_connect 1 (session_new (\<lambda>_. 0))))"

lemma connecting_session_eq:
  "connecting_session = (session_new (\<lambda>_. 0))\<lparr>ss_shutdown_handler := True, ss_client := client_new\<lparr>cl_start_connecting := True\<rparr>,
     ss_connecting := [1]\<rparr>"
  by (simp add: connecting_session_def co_init_def async_connect_def session_new_def client_new_def)

definition connected_session :: session where
  "connected_session = fst (co_init_connected little (\<lambda>_. 0) 1 no_error connecting_session)"

lemma connected_session_reachable: "(session_step little)\<^sup>*\<^sup>* (session_new (\<lambda>_. 0)) connected_session"
proof -
  have "session_step little (session_new (\<lambda>_. 0)) (async_connect 1 (session_new (\<lambda>_. 0)))" by (rule session_step.Connect)
  moreover have "session_step little (async_connect 1 (session_new (\<lambda>_. 0))) connecting_session"
    unfolding connecting_session_def
    by (rule session_step.Spawned [OF _ prod.collapse [symmetric]]) (simp add: async_connect_def session_new_def)
  moreover have "session_step little connecting_session connected_session"
    unfolding connected_session_def
    by (rule session_step.Established [OF _ _ _ prod.collapse [symmetric]])
      (simp_all add: connecting_session_eq session_new_def client_new_def)
  ultimately show ?thesis by (meson converse_rtranclp_into_rtranclp rtranclp.rtrancl_refl)
qed


end
