(* ===== verification/Http2_Session_Runs.thy ===== *)
theory Http2_Session_Runs
  imports Http2_Session
begin

text \<open>
  Runs of a session (\<open>lib/client_session.h\<close>) from end to end: the writer that drains its queue, connecting with the
  exchange of settings, disconnecting, and what happens when reading fails.
\<close>

section \<open>A writer without streams\<close>

lemma tx_commands_all:
  "length (contents q) \<le> unat w \<Longrightarrow> tx_commands q w = (q, [], w - of_nat (length (contents q)))"
proof (induction q arbitrary: w)
  case (Cons b q)
  have w: "length (data_view b) + length (contents q) \<le> unat w" using Cons.prems by (simp add: contents_def)
  moreover have "unat w < 2 ^ 64" by (rule unat_u64_less)
  ultimately have "length (data_view b) < 2 ^ 64" by linarith
  then have n: "unat (of_nat (length (data_view b)) :: u64) = length (data_view b)" by (simp add: unat_of_nat)
  then have fits: "\<not> w < of_nat (length (data_view b))" using w by (simp add: word_less_nat_alt)
  then have "length (contents q) \<le> unat (w - of_nat (length (data_view b)))" using w n by (simp add: unat_sub not_less)
  then show ?case using Cons.IH [of "w - of_nat (length (data_view b))"] fits by (simp add: contents_def)
qed (simp add: contents_def)

lemma get_data_idle: "reg_queue r = [] \<Longrightarrow> get_data native stray fill limit enc r = (r, enc, Inr ([], 0))"
  by (simp add: get_data_def get_data_loop.simps [of native stray fill limit r])

lemma tx_data_idle:
  assumes "reg_queue (cl_registry c) = []" "length (contents (cl_tx_command_queue c)) \<le> unat (cl_server_window_size c)"
  shows "client_tx_data native stray fill c =
    (c\<lparr>cl_tx_command_queue := [],
       cl_server_window_size := cl_server_window_size c - of_nat (length (contents (cl_tx_command_queue c)))\<rparr>, [], Inr (cl_tx_command_queue c))"
  using assms(1) tx_commands_all [OF assms(2)] by (simp add: client_tx_data_def get_data_idle Let_def)

text \<open>
  A woken writer with control frames to send and no streams: it sends them all in one write, and after that is
  complete it finds nothing more to send and goes idle, or closes the connection when it is disconnecting.
\<close>

definition drained :: "session \<Rightarrow> session" where
  "drained s = s\<lparr>ss_client := (ss_client s)\<lparr>cl_tx_command_queue := [], cl_server_window_size :=
       cl_server_window_size (ss_client s) - of_nat (length (contents (cl_tx_command_queue (ss_client s))))\<rparr>,
     ss_tx_queue_sent := [], ss_posted := 0, ss_tx_running := False\<rparr>"

lemma writer_drains:
  assumes "reg_queue (cl_registry (ss_client s)) = []" "cl_tx_command_queue (ss_client s) \<noteq> []"
    and "length (contents (cl_tx_command_queue (ss_client s))) \<le> unat (cl_server_window_size (ss_client s))"
    and "ss_posted s = 1" "ss_writes s = []" "ss_tx_running s" "ss_tx_queue_sent s = []"
  obtains s1 s2 where "write_routine native stray fill s = (s1, [], Inr ())" "ss_writes s1 = [cl_tx_command_queue (ss_client s)]"
    "on_data_write no_error (cl_tx_command_queue (ss_client s)) s1 = s2" "ss_posted s1 = 0" "ss_posted s2 = 1"
    "write_routine native stray fill s2 =
      (if cl_start_disconnect (ss_client s)
       then (drained s)\<lparr>ss_tx_routine_done := True, ss_disconnects := ss_disconnects s + 1\<rparr> else drained s, [], Inr ())"
proof -
  let ?c = "(ss_client s)\<lparr>cl_tx_command_queue := [], cl_server_window_size :=
       cl_server_window_size (ss_client s) - of_nat (length (contents (cl_tx_command_queue (ss_client s))))\<rparr>"
  let ?s1 = "s\<lparr>ss_posted := 0, ss_client := ?c, ss_tx_queue_sent := cl_tx_command_queue (ss_client s),
    ss_writes := [cl_tx_command_queue (ss_client s)]\<rparr>"
  let ?s2 = "?s1\<lparr>ss_writes := [], ss_tx_queue_sent := [], ss_tx_running := True, ss_posted := 1\<rparr>"
  have r1: "write_routine native stray fill s = (?s1, [], Inr ())"
    using assms tx_data_idle [OF assms(1,3)] by (simp add: write_routine_def client_do_def)
  have r2: "on_data_write no_error (cl_tx_command_queue (ss_client s)) ?s1 = ?s2"
    by (simp add: on_data_write_def init_write_def)
  have "client_tx_data native stray fill ?c = (?c, [], Inr [])"
    using tx_data_idle [of ?c] assms(1) by (simp add: contents_def)
  then have r3: "write_routine native stray fill ?s2 =
      (if cl_start_disconnect (ss_client s)
       then (drained s)\<lparr>ss_tx_routine_done := True, ss_disconnects := ss_disconnects s + 1\<rparr> else drained s, [], Inr ())"
    using assms(5) by (simp add: write_routine_def client_do_def check_shutdown_def Let_def drained_def)
  show thesis by (rule that [OF r1 _ r2 _ _ r3]) simp_all
qed

section \<open>Properties of disconnecting\<close>

lemmas action_defs = seq_def then_act_def emit_def change_def send_command_def

text \<open>A disconnection that starts outside the exchange of settings queues a GOAWAY and wakes the writer.\<close>

lemma async_disconnect_eq:
  assumes "\<not> cl_start_disconnect (ss_client s)" "sm_handler (cl_settings (ss_client s)) = None"
  shows "async_disconnect native fill d s =
    (init_write (s\<lparr>ss_client := (ss_client s)\<lparr>cl_start_disconnect := True,
       cl_settings := (cl_settings (ss_client s))\<lparr>sm_timer := False\<rparr>, cl_connection_error := no_error, cl_disconnect_handler := Some d,
       cl_tx_command_queue := cl_tx_command_queue (ss_client s) @ [goaway native fill (error_code_value native IS_OK) 1 []]\<rparr>\<rparr>), [], Inr ())"
  using assms by (simp add: async_disconnect_def client_do_def initiate_disconnect_def sm_cancel_def sm_finished_def action_defs)

text \<open>
  C40: disconnecting while the connection is being established. The disconnection wakes the writer; when the
  connection is there, \<open>co_init\<close> clears \<open>tx_running_flag\<close> although that writer is still pending, and wakes a second one:
  two write routines are pending, and with them two concurrent writes on one connection.
\<close>

theorem early_disconnect_two_writers:
  assumes "t \<in> set (ss_connecting s)" "\<not> cl_start_disconnect (ss_client s)" "sm_handler (cl_settings (ss_client s)) = None"
    and "\<not> ss_tx_running s" "ss_posted s = 0"
    and "async_disconnect native fill d s = (s1, out1, r1)" "co_init_connected native fill t no_error s1 = (s2, out2)"
  shows "ss_posted s2 = 2"
proof -
  have "ss_posted s1 = 1" "cl_start_disconnect (ss_client s1)" "sm_handler (cl_settings (ss_client s1)) = None"
    using assms(4-6) async_disconnect_eq [OF assms(2,3), of native fill d] assms(3) by (auto simp: init_write_def)
  then show ?thesis using assms(7)
    by (simp add: co_init_connected_def async_update_settings_def client_do_def write_initial_frames_def init_read_def client_sync_settings_def
        initiate_sync_settings_def action_defs init_write_def Let_def) auto
qed

theorem early_disconnect_two_writers_witness:
  "ss_posted (fst (co_init_connected little (\<lambda>_. 0) 1 no_error (fst (async_disconnect little (\<lambda>_. 0) 2 connecting_session)))) = 2"
proof -
  have s: "1 \<in> set (ss_connecting connecting_session)" "\<not> cl_start_disconnect (ss_client connecting_session)"
    "sm_handler (cl_settings (ss_client connecting_session)) = None" "\<not> ss_tx_running connecting_session" "ss_posted connecting_session = 0"
    by (simp_all add: connecting_session_eq session_new_def client_new_def settings_manager_new_def)
  obtain s1 out1 r1 where d: "async_disconnect little (\<lambda>_. 0) 2 connecting_session = (s1, out1, r1)" by (metis prod_cases3)
  obtain s2 out2 where c: "co_init_connected little (\<lambda>_. 0) 1 no_error s1 = (s2, out2)" by fastforce
  show ?thesis using early_disconnect_two_writers [OF s d c] d c by simp
qed

text \<open>
  C38: when reading fails while no write is pending, for example because the server has closed the connection, nothing
  is pending any more: the connection is not closed, the shutdown handler is not called and neither are the handlers of the
  requests. Asking to disconnect then calls back at once and does nothing else.
\<close>

theorem read_error_leaves_session_open:
  assumes "(session_step native)\<^sup>*\<^sup>* (session_new fill) s" "0 < ss_reads s" "ss_posted s = 0" "ss_writes s = []"
    and "\<not> cl_start_disconnect (ss_client s)" "ec_failed ec"
  shows "\<exists>s'. on_data_read native fill' out ec bytes s = (s', [], Inr ()) \<and> ss_reads s' = 0 \<and> ss_posted s' = 0 \<and> ss_writes s' = [] \<and>
    ss_disconnects s' = 0 \<and> ss_connecting s' = [] \<and> cl_registry (ss_client s') = cl_registry (ss_client s) \<and>
    async_disconnect native fill' d s' = (s', [Client_Call (Disconnect_Done d)], Inr ())"
proof -
  have ok: "session_ok s" by (rule session_reachable_ok [OF assms(1)])
  then have r: "ss_reads s = 1" "ss_disconnects s = 0" using assms(2,5) by (auto simp: session_ok_def)
  then have "ss_connecting s = []"
    using ok assms(5) by (cases "cl_start_connecting (ss_client s)"; simp add: session_ok_def)
  then show ?thesis using assms(3-6) r
    by (simp add: on_data_read_def async_disconnect_def client_do_def initiate_disconnect_def emit_def)
qed

text \<open>A session on which the preface and the settings have been sent and the writer is idle.\<close>

lemma connected_session_state:
  "ss_reads connected_session = 1" "ss_posted connected_session = 1" "ss_writes connected_session = []" "ss_tx_running connected_session"
  "ss_tx_queue_sent connected_session = []" "ss_disconnects connected_session = 0"
  "reg_queue (cl_registry (ss_client connected_session)) = []" "cl_server_window_size (ss_client connected_session) = 65535"
  "\<not> cl_start_disconnect (ss_client connected_session)" "ss_connecting connected_session = []"
  "cl_tx_command_queue (ss_client connected_session) = [fst (commit_span preambula (buffer_new (\<lambda>_. 0) (length preambula))),
     settings_frame little (\<lambda>_. 0) (settings_fields little settings_default)]"
  by (simp_all add: connected_session_def connecting_session_eq session_new_def client_new_def co_init_connected_def async_update_settings_def
      client_do_def write_initial_frames_def init_read_def client_sync_settings_def INITIAL_WINDOW_SIZE_def
      initiate_sync_settings_def settings_manager_new_def action_defs init_write_def Let_def) (simp add: registry_new_def)

lemma connected_session_fits:
  "length (contents (cl_tx_command_queue (ss_client connected_session))) \<le> unat (cl_server_window_size (ss_client connected_session))"
  by (simp add: connected_session_state contents_def data_view_commit_span settings_frame_bytes settings_fields_def preambula_def str_bytes_def
      item_bytes_def header_size_def)

definition idle_session :: session where
  "idle_session = drained connected_session"

lemma idle_session_reachable: "(session_step little)\<^sup>*\<^sup>* (session_new (\<lambda>_. 0)) idle_session"
proof (rule writer_drains [OF _ _ connected_session_fits, of little "\<lambda>_ _. 0" "\<lambda>_. 0"])
  fix s1 s2
  assume w: "write_routine little (\<lambda>_ _. 0) (\<lambda>_. 0) connected_session = (s1, [], Inr ())"
    "ss_writes s1 = [cl_tx_command_queue (ss_client connected_session)]"
    "on_data_write no_error (cl_tx_command_queue (ss_client connected_session)) s1 = s2" "ss_posted s2 = 1"
    "write_routine little (\<lambda>_ _. 0) (\<lambda>_. 0) s2 = (if cl_start_disconnect (ss_client connected_session)
       then (drained connected_session)\<lparr>ss_tx_routine_done := True, ss_disconnects := ss_disconnects connected_session + 1\<rparr>
       else drained connected_session, [], Inr ())"
  have "session_step little connected_session s1" using w(1) connected_session_state(2) by (intro session_step.Routine) simp_all
  moreover have "session_step little s1 s2" using w(2) unfolding w(3) [symmetric] by (intro session_step.Written) simp
  moreover have "session_step little s2 idle_session"
    using w(4,5) connected_session_state(9) by (intro session_step.Routine) (simp_all add: idle_session_def)
  ultimately show ?thesis using connected_session_reachable by (meson rtranclp.rtrancl_into_rtrancl)
qed (simp_all add: connected_session_state)

lemma idle_session_state:
  "ss_reads idle_session = 1" "ss_posted idle_session = 0" "ss_writes idle_session = []" "\<not> ss_tx_running idle_session"
  "ss_tx_queue_sent idle_session = []" "\<not> cl_start_disconnect (ss_client idle_session)" "ss_disconnects idle_session = 0"
  "reg_queue (cl_registry (ss_client idle_session)) = []" "cl_tx_command_queue (ss_client idle_session) = []"
  by (simp_all add: idle_session_def drained_def connected_session_state)

theorem read_error_leaves_session_open_witness:
  "\<exists>s'. on_data_read little (\<lambda>_. 0) (\<lambda>_. 0) (io_error 104) [] idle_session = (s', [], Inr ()) \<and> ss_disconnects s' = 0 \<and>
     async_disconnect little (\<lambda>_. 0) 3 s' = (s', [Client_Call (Disconnect_Done 3)], Inr ())"
  using read_error_leaves_session_open [OF idle_session_reachable, of "io_error 104" "\<lambda>_. 0" "\<lambda>_. 0" "[]" 3] idle_session_state by auto

text \<open>
  C12: a disconnection by the user on an idle session without streams completes: the writer is woken, it sends exactly
  a GOAWAY, and when that has been written it closes the connection; then the shutdown handler is called without
  an error, and after it the handler of the disconnection.
\<close>

theorem graceful_disconnect:
  assumes "\<not> cl_start_disconnect (ss_client s)" "sm_handler (cl_settings (ss_client s)) = None"
    and "cl_tx_command_queue (ss_client s) = []" "reg_queue (cl_registry (ss_client s)) = []" "reg_map (cl_registry (ss_client s)) = []"
    and "17 \<le> cl_server_window_size (ss_client s)"
    and "\<not> ss_tx_running s" "ss_posted s = 0" "ss_writes s = []" "ss_tx_queue_sent s = []" "ss_shutdown_handler s"
  shows "\<exists>s1 s2 g s3 s4 s5. async_disconnect native fill d s = (s1, [], Inr ()) \<and> ss_posted s1 = 1 \<and>
    write_routine native stray fill s1 = (s2, [], Inr ()) \<and> ss_writes s2 = [[g]] \<and>
    data_view g = wire_frame native (frame_type_value GOAWAY) 0 0 (store_native native 4 (1 :: u32) @ store_native native 4 (0 :: u32)) \<and>
    on_data_write no_error [g] s2 = s3 \<and> ss_posted s3 = 1 \<and>
    write_routine native stray fill s3 = (s4, [], Inr ()) \<and> ss_disconnects s4 = ss_disconnects s + 1 \<and>
    on_disconnected s4 = (s5, [Shutdown no_error, Client_Call (Disconnect_Done d)])"
proof -
  let ?g = "goaway native fill (error_code_value native IS_OK) 1 []"
  have g: "data_view ?g = wire_frame native (frame_type_value GOAWAY) 0 0 (store_native native 4 (1 :: u32) @ store_native native 4 (0 :: u32))"
    by (simp add: goaway_bytes error_code_value_def native_to_big32_def)
  let ?s1 = "fst (async_disconnect native fill d s)"
  note eq = async_disconnect_eq [OF assms(1,2), of native fill d]
  have s1: "async_disconnect native fill d s = (?s1, [], Inr ())" using eq by simp
  have st: "cl_tx_command_queue (ss_client ?s1) = [?g]" "cl_server_window_size (ss_client ?s1) = cl_server_window_size (ss_client s)"
    "cl_start_disconnect (ss_client ?s1)" "reg_queue (cl_registry (ss_client ?s1)) = []" "reg_map (cl_registry (ss_client ?s1)) = []"
    "cl_disconnect_handler (ss_client ?s1) = Some d" "cl_connection_error (ss_client ?s1) = no_error" "ss_posted ?s1 = 1"
    "ss_writes ?s1 = []" "ss_tx_running ?s1" "ss_tx_queue_sent ?s1 = []" "ss_disconnects ?s1 = ss_disconnects s" "ss_shutdown_handler ?s1"
    unfolding eq using assms by (simp_all add: init_write_def)
  have fits: "length (contents (cl_tx_command_queue (ss_client ?s1))) \<le> unat (cl_server_window_size (ss_client ?s1))"
    using assms(6) by (simp add: st contents_def goaway_bytes header_size_def word_le_nat_alt)
  obtain s2 s3 where w: "write_routine native stray fill ?s1 = (s2, [], Inr ())" "ss_writes s2 = [[?g]]"
      "on_data_write no_error [?g] s2 = s3" "ss_posted s3 = 1"
      "write_routine native stray fill s3 = ((drained ?s1)\<lparr>ss_tx_routine_done := True, ss_disconnects := ss_disconnects s + 1\<rparr>, [], Inr ())"
    by (rule writer_drains [OF st(4) _ fits st(8-11), of native stray fill]) (simp_all add: st)
  let ?s4 = "(drained ?s1)\<lparr>ss_tx_routine_done := True, ss_disconnects := ss_disconnects s + 1\<rparr>"
  have "snd (on_disconnected ?s4) = [Shutdown no_error, Client_Call (Disconnect_Done d)]"
    by (simp add: on_disconnected_def client_do_def cleanup_after_disconnect_def reg_reset_def drained_def st Let_def)
  then have "on_disconnected ?s4 = (fst (on_disconnected ?s4), [Shutdown no_error, Client_Call (Disconnect_Done d)])"
    by (simp only: prod_eq_iff fst_conv snd_conv simp_thms)
  moreover have "ss_disconnects ?s4 = ss_disconnects s + 1" by simp
  ultimately show ?thesis using s1 st(8) w g by (intro exI conjI) assumption+
qed

section \<open>Properties of connecting\<close>

lemma window_received_eq:
  "\<exists>w bs. window_received native fill n c =
     (c\<lparr>cl_local_window := w, cl_tx_command_queue := cl_tx_command_queue c @ bs\<rparr>, [], Inr ())"
proof -
  obtain w upd where d: "dw_update native fill 0 (dw_dec (of_nat n) (cl_local_window c)) = (w, upd)" by fastforce
  show ?thesis
    by (rule exI [of _ w], rule exI [of _ "opt_list upd"], cases upd) (simp_all add: window_received_def d action_defs)
qed

lemma client_receives_settings:
  assumes "span_bytes s = wire_frame native (frame_type_value SETTINGS) flags sid payload" "length payload < 2 ^ 24" "\<not> has_flag flags ACK"
  shows "on_receive_settings native fill s c =
    (c\<lparr>cl_settings := (cl_settings c)\<lparr>sm_remote := fold (apply_item native) (settings_items native s) (sm_remote (cl_settings c)),
         sm_remote_settings_got := True\<rparr>,
       cl_tx_command_queue := cl_tx_command_queue c @ [settings_ack native fill]\<rparr>, [], Inr ())"
  using assms wire_frame_header(1) [of s native "frame_type_value SETTINGS" flags sid payload "[]"] analyze_wire(1) [OF assms(1,2)]
  by (simp add: on_receive_settings_def on_settings_frame_def get_frame_def action_defs)

lemma client_receives_ack:
  assumes "span_bytes s = wire_frame native (frame_type_value SETTINGS) flags sid []" "has_flag flags ACK"
    and "sm_handler (cl_settings c) = Some t" "sm_remote_settings_got (cl_settings c)"
  shows "\<exists>w b. on_receive_settings native fill s c =
    (c\<lparr>cl_settings := (cl_settings c)\<lparr>sm_local_settings_ack := True, sm_timer := False, sm_handler := None\<rparr>, cl_local_window := w,
       cl_tx_command_queue := cl_tx_command_queue c @ [b]\<rparr>, [Init_Write, Sync_Done t no_error], Inr ())"
  using assms wire_frame_header(1) [of s native "frame_type_value SETTINGS" flags sid "[]" "[]"] analyze_wire(1) [OF assms(1)]
  by (simp add: on_receive_settings_def on_settings_frame_def get_frame_def sm_finished_def settings_synced_def action_defs Let_def) (intro exI, rule refl)

text \<open>Well-formed frames one after the other are split into these frames.\<close>

definition is_wire_frame :: "byte_order \<Rightarrow> byte list \<Rightarrow> bool" where
  "is_wire_frame native f \<longleftrightarrow> (\<exists>t flags sid payload. f = wire_frame native t flags sid payload \<and> length payload < 2 ^ 24)"

lemma is_wire_frameI: "length payload < 2 ^ 24 \<Longrightarrow> is_wire_frame native (wire_frame native t flags sid payload)"
  by (auto simp: is_wire_frame_def)

lemma split_wire_frames: "list_all (is_wire_frame native) fs \<Longrightarrow> split_frames (concat fs) = (fs, [])"
proof (induction fs)
  case (Cons f fs)
  then have "next_frame (f @ concat fs) = Some (f, concat fs)" by (auto simp: is_wire_frame_def next_frame_wire)
  then show ?case using Cons by (simp add: split_frames.simps [of "f @ concat fs"])
qed (simp add: split_frames_Nil)

lemma handle_settings:
  assumes "span_bytes f = wire_frame native (frame_type_value SETTINGS) flags sid payload" "length payload < 2 ^ 24"
    and "length payload \<le> unat (set_max_frame_size (sm_local (cl_settings c)))"
  shows "\<exists>w bs. handle_frame native fill out (f, b) c =
    on_receive_settings native fill f (c\<lparr>cl_local_window := w, cl_tx_command_queue := cl_tx_command_queue c @ bs\<rparr>)"
proof -
  obtain w bs where w: "window_received native fill (header_size + length payload) c =
      (c\<lparr>cl_local_window := w, cl_tx_command_queue := cl_tx_command_queue c @ bs\<rparr>, [], Inr ())"
    using window_received_eq by blast
  have "handle_frame native fill out (f, b) c = seq (window_received native fill (header_size + length payload)) (on_receive_settings native fill f) c"
    using handle_frame_wire [OF assms, of fill out b] by (simp add: frame_handlers_def)
  then have "handle_frame native fill out (f, b) c =
      on_receive_settings native fill f (c\<lparr>cl_local_window := w, cl_tx_command_queue := cl_tx_command_queue c @ bs\<rparr>)"
    using w by (simp add: seq_def then_act_def)
  then show ?thesis by blast
qed

text \<open>The settings of the server and the acknowledgement of the client's own, handled one after the other.\<close>

lemma handshake_frames:
  assumes "span_bytes f1 = wire_frame native (frame_type_value SETTINGS) 0 0 payload"
    and "span_bytes f2 = wire_frame native (frame_type_value SETTINGS) ACK 0 []"
    and "length payload < 2 ^ 24" "length payload \<le> unat (set_max_frame_size (sm_local (cl_settings c)))"
    and "sm_handler (cl_settings c) = Some t" "sp_len tail = 0"
  shows "\<exists>w q. seq (each (handle_frame native fill out) [(f1, b1), (f2, b2)]) (handle_rest native tail) c =
    (c\<lparr>cl_settings := (cl_settings c)\<lparr>sm_remote := fold (apply_item native) (settings_items native f1) (sm_remote (cl_settings c)),
         sm_remote_settings_got := True, sm_local_settings_ack := True, sm_timer := False, sm_handler := None\<rparr>,
       cl_local_window := w, cl_tx_command_queue := q\<rparr>, [Init_Write, Sync_Done t no_error], Inr ()) \<and> settings_ack native fill \<in> set q"
proof -
  let ?sm = "(cl_settings c)\<lparr>sm_remote := fold (apply_item native) (settings_items native f1) (sm_remote (cl_settings c)),
    sm_remote_settings_got := True\<rparr>"
  obtain w1 bs1 where "handle_frame native fill out (f1, b1) c =
      on_receive_settings native fill f1 (c\<lparr>cl_local_window := w1, cl_tx_command_queue := cl_tx_command_queue c @ bs1\<rparr>)"
    using handle_settings [OF assms(1,3,4), of fill out b1] by auto
  then have h1: "handle_frame native fill out (f1, b1) c = (c\<lparr>cl_settings := ?sm, cl_local_window := w1,
      cl_tx_command_queue := cl_tx_command_queue c @ bs1 @ [settings_ack native fill]\<rparr>, [], Inr ())"
    using client_receives_settings [OF assms(1,3)] by (simp add: has_flag_def)
  let ?c1 = "c\<lparr>cl_settings := ?sm, cl_local_window := w1, cl_tx_command_queue := cl_tx_command_queue c @ bs1 @ [settings_ack native fill]\<rparr>"
  obtain w2 bs2 where h2: "handle_frame native fill out (f2, b2) ?c1 =
      on_receive_settings native fill f2 (?c1\<lparr>cl_local_window := w2, cl_tx_command_queue := cl_tx_command_queue ?c1 @ bs2\<rparr>)"
    using handle_settings [OF assms(2), of ?c1 fill out b2] by auto
  let ?c2 = "?c1\<lparr>cl_local_window := w2, cl_tx_command_queue := cl_tx_command_queue ?c1 @ bs2\<rparr>"
  have pre: "has_flag ACK ACK" "sm_handler (cl_settings ?c2) = Some t" "sm_remote_settings_got (cl_settings ?c2)"
    using assms(5) by (simp_all add: has_flag_def ACK_def)
  obtain w3 b3 where h3: "on_receive_settings native fill f2 ?c2 =
      (?c2\<lparr>cl_settings := (cl_settings ?c2)\<lparr>sm_local_settings_ack := True, sm_timer := False, sm_handler := None\<rparr>, cl_local_window := w3,
         cl_tx_command_queue := cl_tx_command_queue ?c2 @ [b3]\<rparr>, [Init_Write, Sync_Done t no_error], Inr ())"
    using client_receives_ack [OF assms(2) pre] by blast
  show ?thesis
    by (rule exI [of _ w3], rule exI [of _ "cl_tx_command_queue ?c2 @ [b3]"])
      (use h1 h2 h3 assms(6) in \<open>simp add: seq_def then_act_def emit_def handle_rest_def header_size_def\<close>)
qed

lemma data_view_filled:
  assumes "buffer_ok b" "length bytes \<le> length (prepare b)"
  shows "data_view (fst (commit (length bytes) (b\<lparr>buf_memory := poke (buf_offset b) bytes (buf_memory b)\<rparr>))) = data_view b @ bytes"
proof -
  have "buf_offset b + length bytes \<le> length (buf_memory b)" "length (buf_memory b) = buf_maxsize b"
    using assms length_prepare [OF assms(1)] unfolding buffer_ok_def by linarith+
  then show ?thesis by (simp add: commit_def prepare_def data_view_def Let_def) (simp add: poke_def)
qed

lemma settings_connect:
  assumes "sm_handler (cl_settings (ss_client s)) = Some t" "\<not> cl_start_disconnect (ss_client s)"
    and "buffer_ok (ss_input_buffer s)" "data_view (ss_input_buffer s) = []" "header_size \<le> buf_maxsize (ss_input_buffer s)"
    and "length payload < 2 ^ 24" "length payload \<le> unat (set_max_frame_size (sm_local (cl_settings (ss_client s))))"
    and "data = wire_frame native (frame_type_value SETTINGS) 0 0 payload @ wire_frame native (frame_type_value SETTINGS) ACK 0 []"
    and "length data \<le> length (prepare (ss_input_buffer s))" "0 < ss_reads s"
  shows "\<exists>s' f. on_data_read native fill out no_error data s = (s', [Connect_Done t (Inr no_error)], Inr ()) \<and>
    cl_is_connected (ss_client s') \<and> span_bytes f = wire_frame native (frame_type_value SETTINGS) 0 0 payload \<and>
    sm_remote (cl_settings (ss_client s')) = fold (apply_item native) (settings_items native f) (sm_remote (cl_settings (ss_client s))) \<and>
    settings_ack native fill \<in> set (cl_tx_command_queue (ss_client s')) \<and> ss_reads s' = ss_reads s"
proof -
  let ?b = "ss_input_buffer s" and ?c = "ss_client s"
  let ?f = "fst (commit (length data) (?b\<lparr>buf_memory := poke (buf_offset ?b) data (buf_memory ?b)\<rparr>))"
  have view: "data_view ?f = data" using data_view_filled [OF assms(3,9)] assms(4) by simp
  have max: "header_size \<le> buf_maxsize ?f" using filled_ok(2) [OF assms(3,9)] assms(5) by simp
  obtain items tail c' ev r where x: "frames_in items tail data"
      "seq (each (handle_frame native fill out) items) (handle_rest native tail) ?c = (c', ev, r)"
      "case r of
         Inr _ \<Rightarrow> \<exists>b'. keeps_unread (span_bytes tail) b' \<and>
           on_read native fill out ?f ?c = Some (c', ev @ (if length (data_view ?f) < header_size then [] else [Init_Write]), Inr b')
       | Inl e \<Rightarrow>
           if e = undefined_behaviour then on_read native fill out ?f ?c = Some (c', ev, Inl e)
           else case initiate_disconnect native fill (exception_code native e) None c' of (c'', ev', _) \<Rightarrow>
             \<exists>b'. on_read native fill out ?f ?c = Some (c'', ev @ ev' @ [Init_Write], Inr b')"
    using on_read_frames [OF filled_ok(1) [OF assms(3,9)] max, of native fill out ?c] unfolding view by blast
  have split: "split_frames data = ([wire_frame native (frame_type_value SETTINGS) 0 0 payload, wire_frame native (frame_type_value SETTINGS) ACK 0 []], [])"
    using split_wire_frames [of native "[wire_frame native (frame_type_value SETTINGS) 0 0 payload, wire_frame native (frame_type_value SETTINGS) ACK 0 []]"]
      assms(6,8) by (simp add: is_wire_frameI)
  have "span_bytes tail = []" using x(1) split by (simp add: frames_in_def)
  then have tail: "sp_len tail = 0" by (simp only: span_bytes_Nil_iff)
  obtain f1 b1 f2 b2 where items: "items = [(f1, b1), (f2, b2)]" "span_bytes f1 = wire_frame native (frame_type_value SETTINGS) 0 0 payload"
      "span_bytes f2 = wire_frame native (frame_type_value SETTINGS) ACK 0 []"
    using x(1) split by (auto simp: frames_in_def)
  note h = handshake_frames [OF items(2,3) assms(6,7,1) tail, of fill out b1 b2]
  obtain w q where c': "c' = ?c\<lparr>cl_settings := (cl_settings ?c)\<lparr>sm_remote := fold (apply_item native) (settings_items native f1) (sm_remote (cl_settings ?c)),
         sm_remote_settings_got := True, sm_local_settings_ack := True, sm_timer := False, sm_handler := None\<rparr>,
       cl_local_window := w, cl_tx_command_queue := q\<rparr>" "ev = [Init_Write, Sync_Done t no_error]" "r = Inr ()" "settings_ack native fill \<in> set q"
    using h x(2) items(1) by auto
  obtain b' where on: "on_read native fill out ?f ?c = Some (c', [Init_Write, Sync_Done t no_error, Init_Write], Inr b')"
    using x(3) c'(2,3) view assms(8) by auto
  then have "\<exists>s'. on_data_read native fill out no_error data s = (s', [Connect_Done t (Inr no_error)], Inr ()) \<and>
      ss_reads s' = ss_reads s \<and> ss_client s' = c'\<lparr>cl_is_connected := True, cl_connection_error := no_error\<rparr>"
    using assms(2,10) c'(1) by (simp add: on_data_read_def Let_def init_read_def init_write_def)
  then show ?thesis using items(2) c'(1,4) by auto
qed

text \<open>
  C11: connecting succeeds. A session that waits for the settings of the server and receives them together with the
  acknowledgement of its own, whatever the settings are, reports success to the token of \<open>async_connect\<close>, accepts
  requests from then on, has stored the settings, has queued their acknowledgement, and reads on.
\<close>

theorem connect_succeeds:
  assumes "sm_handler (cl_settings (ss_client s)) = Some t" "\<not> cl_start_disconnect (ss_client s)"
    and "buffer_ok (ss_input_buffer s)" "data_view (ss_input_buffer s) = []" "header_size \<le> buf_maxsize (ss_input_buffer s)"
    and "length payload < 2 ^ 24" "length payload \<le> unat (set_max_frame_size (sm_local (cl_settings (ss_client s))))"
    and "data = wire_frame native (frame_type_value SETTINGS) 0 0 payload @ wire_frame native (frame_type_value SETTINGS) ACK 0 []"
    and "length data \<le> length (prepare (ss_input_buffer s))" "0 < ss_reads s"
  shows "\<exists>s' f. on_data_read native fill out no_error data s = (s', [Connect_Done t (Inr no_error)], Inr ()) \<and>
    cl_is_connected (ss_client s') \<and> span_bytes f = wire_frame native (frame_type_value SETTINGS) 0 0 payload \<and>
    sm_remote (cl_settings (ss_client s')) = fold (apply_item native) (settings_items native f) (sm_remote (cl_settings (ss_client s))) \<and>
    settings_ack native fill \<in> set (cl_tx_command_queue (ss_client s')) \<and> ss_reads s' = ss_reads s"
  by (rule settings_connect [OF assms])

lemma connected_session_more:
  "sm_handler (cl_settings (ss_client connected_session)) = Some 1" "ss_input_buffer connected_session = buffer_new (\<lambda>_. 0) 64"
  "set_max_frame_size (sm_local (cl_settings (ss_client connected_session))) = 16384" "ss_shutdown_handler connected_session"
  "reg_map (cl_registry (ss_client connected_session)) = []"
  by (simp_all add: connected_session_def connecting_session_eq session_new_def client_new_def co_init_connected_def async_update_settings_def
      client_do_def write_initial_frames_def init_read_def client_sync_settings_def settings_default_def
      initiate_sync_settings_def settings_manager_new_def action_defs init_write_def Let_def) (simp add: registry_new_def)

lemma idle_session_more:
  "sm_handler (cl_settings (ss_client idle_session)) = Some 1" "ss_input_buffer idle_session = buffer_new (\<lambda>_. 0) 64"
  "set_max_frame_size (sm_local (cl_settings (ss_client idle_session))) = 16384" "ss_shutdown_handler idle_session"
  "reg_map (cl_registry (ss_client idle_session)) = []" "cl_server_window_size (ss_client idle_session) = 65466"
  by (simp_all add: idle_session_def drained_def connected_session_more)
    (simp add: connected_session_state contents_def data_view_commit_span settings_frame_bytes settings_fields_def preambula_def
      str_bytes_def item_bytes_def header_size_def)

theorem connect_succeeds_witness:
  "\<exists>s'. on_data_read little (\<lambda>_. 0) (\<lambda>_. 0) no_error (wire_frame little 4 0 0 [] @ wire_frame little 4 ACK 0 []) idle_session =
     (s', [Connect_Done 1 (Inr no_error)], Inr ()) \<and> cl_is_connected (ss_client s')"
  using connect_succeeds [of idle_session 1 "[]" "wire_frame little 4 0 0 [] @ wire_frame little 4 ACK 0 []" little "\<lambda>_. 0" "\<lambda>_. 0"]
    idle_session_more idle_session_state
  by (auto simp: header_size_def length_prepare_new)

theorem graceful_disconnect_witness:
  "let s = idle_session\<lparr>ss_client := (ss_client idle_session)\<lparr>cl_settings := settings_manager_new\<rparr>\<rparr>
   in \<exists>s1 s2 g s3 s4 s5. async_disconnect little (\<lambda>_. 0) 9 s = (s1, [], Inr ()) \<and>
     write_routine little (\<lambda>_ _. 0) (\<lambda>_. 0) s1 = (s2, [], Inr ()) \<and> on_data_write no_error [g] s2 = s3 \<and>
     write_routine little (\<lambda>_ _. 0) (\<lambda>_. 0) s3 = (s4, [], Inr ()) \<and>
     on_disconnected s4 = (s5, [Shutdown no_error, Client_Call (Disconnect_Done 9)])"
proof -
  let ?s = "idle_session\<lparr>ss_client := (ss_client idle_session)\<lparr>cl_settings := settings_manager_new\<rparr>\<rparr>"
  have "\<not> cl_start_disconnect (ss_client ?s)" "sm_handler (cl_settings (ss_client ?s)) = None" "cl_tx_command_queue (ss_client ?s) = []"
    "reg_queue (cl_registry (ss_client ?s)) = []" "reg_map (cl_registry (ss_client ?s)) = []" "17 \<le> cl_server_window_size (ss_client ?s)"
    "\<not> ss_tx_running ?s" "ss_posted ?s = 0" "ss_writes ?s = []" "ss_tx_queue_sent ?s = []" "ss_shutdown_handler ?s"
    using idle_session_more idle_session_state by (simp_all add: settings_manager_new_def)
  from graceful_disconnect [OF this, of little "\<lambda>_. 0" 9 "\<lambda>_ _. 0"] show ?thesis unfolding Let_def by blast
qed

end
