(* ===== verification/Http2_Reading.thy ===== *)
theory Http2_Reading
  imports Http2_Session_Runs
begin

text \<open>
  Reading a stream of bytes in pieces: the connection may cut what the server sends anywhere, also inside a
  header. What the client (\<open>lib/base_client.cpp\<close>) then handles is the same sequence of frames.
\<close>

section \<open>Frames of a stream of bytes\<close>

lemma next_frame_append: "next_frame bs = Some (f, rest) \<Longrightarrow> next_frame (bs @ cs) = Some (f, rest @ cs)"
proof -
  assume n: "next_frame bs = Some (f, rest)"
  then have "header_size \<le> length bs" by (auto simp: next_frame_def Let_def split: if_splits)
  then have "take 3 (bs @ cs) = take 3 bs" by (simp add: header_size_def)
  then show ?thesis using n unfolding next_frame_def Let_def by (auto split: if_splits)
qed

lemma split_frames_append:
  "split_frames bs = (fs, rest) \<Longrightarrow> split_frames (bs @ cs) = (fs @ fst (split_frames (rest @ cs)), snd (split_frames (rest @ cs)))"
proof (induction bs arbitrary: fs rest rule: split_frames.induct)
  case (1 bs)
  show ?case
  proof (cases "next_frame bs")
    case None
    then show ?thesis using "1.prems" by (simp add: split_frames.simps [of bs])
  next
    case (Some p)
    obtain f tail where p: "p = (f, tail)" by fastforce
    obtain fs' rest' where r: "split_frames tail = (fs', rest')" by fastforce
    have eq: "fs = f # fs'" "rest = rest'" using "1.prems" Some p r by (simp_all add: split_frames.simps [of bs])
    show ?thesis
      using "1.IH" [OF Some p [symmetric] r] next_frame_append [OF Some [unfolded p], of cs] eq by (simp add: split_frames.simps [of "bs @ cs"])
  qed
qed

lemma each_append: "each m (xs @ ys) = seq (each m xs) (each m ys)"
  by (induction xs) (simp_all add: seq_assoc)

section \<open>Reading in pieces\<close>

text \<open>
  The pieces are put into the buffer one after the other, each no longer than its space, and \<open>on_read\<close> is called after each. As in
  \<open>init_read\<close>, reading goes on while no disconnection has started.
\<close>

definition fill_buffer :: "byte list \<Rightarrow> buffer \<Rightarrow> buffer" where
  "fill_buffer bytes b = fst (commit (length bytes) (b\<lparr>buf_memory := poke (buf_offset b) bytes (buf_memory b)\<rparr>))"

inductive reads_pieces ::
  "byte_order \<Rightarrow> (nat \<Rightarrow> byte) \<Rightarrow> (int \<Rightarrow> byte) \<Rightarrow> client \<Rightarrow> buffer \<Rightarrow> byte list list \<Rightarrow> client \<Rightarrow> client_event list \<Rightarrow> buffer \<Rightarrow> bool"
  for native fill out where
  Done: "reads_pieces native fill out c b [] c [] b"
| Piece: "length bytes \<le> length (prepare b) \<Longrightarrow> on_read native fill out (fill_buffer bytes b) c = Some (c1, ev1, Inr b1) \<Longrightarrow>
    \<not> cl_start_disconnect c1 \<Longrightarrow> reads_pieces native fill out c1 b1 pieces c2 ev2 b2 \<Longrightarrow> reads_pieces native fill out c b (bytes # pieces) c2 (ev1 @ ev2) b2"

abbreviation calls_of :: "client_event list \<Rightarrow> client_event list" where
  "calls_of ev \<equiv> filter (\<lambda>e. e \<noteq> Init_Write) ev"

definition handles :: "byte_order \<Rightarrow> (nat \<Rightarrow> byte) \<Rightarrow> (int \<Rightarrow> byte) \<Rightarrow> byte list list \<Rightarrow> client \<Rightarrow> client \<Rightarrow> client_event list \<Rightarrow> bool" where
  "handles native fill out fs c c' ev \<longleftrightarrow> (\<exists>items. map (\<lambda>(s, b). span_bytes s) items = fs \<and>
     list_all (\<lambda>(s, b). buffer_ok b \<and> data_view b = span_bytes s) items \<and> each (handle_frame native fill out) items c = (c', ev, Inr ()))"

lemma handles_append:
  assumes "handles native fill out fs c c1 ev1" "handles native fill out gs c1 c2 ev2"
  shows "handles native fill out (fs @ gs) c c2 (ev1 @ ev2)"
proof -
  obtain xs ys where x: "map (\<lambda>(s, b). span_bytes s) xs = fs" "list_all (\<lambda>(s, b). buffer_ok b \<and> data_view b = span_bytes s) xs"
      "each (handle_frame native fill out) xs c = (c1, ev1, Inr ())"
    and y: "map (\<lambda>(s, b). span_bytes s) ys = gs" "list_all (\<lambda>(s, b). buffer_ok b \<and> data_view b = span_bytes s) ys"
      "each (handle_frame native fill out) ys c1 = (c2, ev2, Inr ())"
    using assms unfolding handles_def by blast
  show ?thesis unfolding handles_def
    by (rule exI [of _ "xs @ ys"]) (use x y in \<open>simp add: each_append\<close>)
qed

text \<open>One read that does not start to disconnect.\<close>

lemma read_handles:
  assumes "on_read native fill out b c = Some (c', ev, Inr b')" "buffer_ok b" "header_size \<le> buf_maxsize b" "\<not> cl_start_disconnect c'"
  shows "\<exists>ev'. handles native fill out (fst (split_frames (data_view b))) c c' ev' \<and> calls_of ev = calls_of ev' \<and>
    keeps_unread (snd (split_frames (data_view b))) b'"
proof -
  obtain items tail c1 ev1 r where x: "frames_in items tail (data_view b)"
    "seq (each (handle_frame native fill out) items) (handle_rest native tail) c = (c1, ev1, r)"
    "case r of
       Inr _ \<Rightarrow> \<exists>b'. keeps_unread (span_bytes tail) b' \<and>
         on_read native fill out b c = Some (c1, ev1 @ (if length (data_view b) < header_size then [] else [Init_Write]), Inr b')
     | Inl e \<Rightarrow>
         if e = undefined_behaviour then on_read native fill out b c = Some (c1, ev1, Inl e)
         else case initiate_disconnect native fill (exception_code native e) None c1 of (c'', ev', _) \<Rightarrow>
           \<exists>b'. on_read native fill out b c = Some (c'', ev1 @ ev' @ [Init_Write], Inr b')"
    using on_read_frames [OF assms(2,3), of native fill out c] by blast
  have r: "r = Inr ()"
    using x(3) assms(1,4) disconnect_flags by (cases r) (auto split: if_splits prod.splits)
  then have c1: "c1 = c'" "calls_of ev = calls_of ev1" "keeps_unread (span_bytes tail) b'"
    using x(3) assms(1) by (auto split: if_splits)
  obtain c2 ev2 where h: "each (handle_frame native fill out) items c = (c2, ev2, Inr ())"
    using x(2) r by (auto simp: seq_def then_act_def split: prod.splits sum.splits)
  have rest: "handle_rest native tail c2 = (c2, [], snd (snd (handle_rest native tail c2)))"
    by (simp add: handle_rest_def check_header_def try_act_def emit_def)
  have "c2 = c'" "ev1 = ev2" using x(2) h rest r c1(1) by (auto simp: seq_def then_act_def split: prod.splits sum.splits)
  then show ?thesis using h c1 x(1) by (auto simp: handles_def frames_in_def)
qed

lemma split_frames_rest: "split_frames (snd (split_frames bs)) = ([], snd (split_frames bs))"
proof (induction bs rule: split_frames.induct)
  case (1 bs)
  then show ?case by (auto simp: split_frames.simps [of bs] split: option.splits prod.splits)
qed

lemma fill_buffer_view: "buffer_ok b \<Longrightarrow> length bytes \<le> length (prepare b) \<Longrightarrow> data_view (fill_buffer bytes b) = data_view b @ bytes"
  unfolding fill_buffer_def by (rule data_view_filled)

lemma pieces_irrelevant_frames:
  assumes "reads_pieces native fill out c b pieces c' ev b'" "keeps_unread bs b" "split_frames bs = ([], bs)"
  shows "\<exists>ev'. handles native fill out (fst (split_frames (bs @ concat pieces))) c c' ev' \<and> calls_of ev = calls_of ev' \<and>
    keeps_unread (snd (split_frames (bs @ concat pieces))) b'"
  using assms
proof (induction arbitrary: bs rule: reads_pieces.induct)
  case (Done c b)
  then show ?case by (auto simp: handles_def emit_def intro!: exI [of _ "[]"])
next
  case (Piece bytes b c c1 ev1 b1 pieces c2 ev2 b2)
  have b: "buffer_ok b" "data_view b = bs" "header_size \<le> buf_maxsize b" using Piece.prems(1) by (simp_all add: keeps_unread_def)
  have f: "buffer_ok (fill_buffer bytes b)" "header_size \<le> buf_maxsize (fill_buffer bytes b)" "data_view (fill_buffer bytes b) = bs @ bytes"
    using filled_ok [OF b(1) Piece.hyps(1)] fill_buffer_view [OF b(1) Piece.hyps(1)] b(2,3) by (simp_all add: fill_buffer_def)
  obtain ev1' where r: "handles native fill out (fst (split_frames (bs @ bytes))) c c1 ev1'" "calls_of ev1 = calls_of ev1'"
      "keeps_unread (snd (split_frames (bs @ bytes))) b1"
    using read_handles [OF Piece.hyps(2) f(1,2) Piece.hyps(3)] f(3) by auto
  let ?rest = "snd (split_frames (bs @ bytes))"
  obtain ev2' where i: "handles native fill out (fst (split_frames (?rest @ concat pieces))) c1 c2 ev2'" "calls_of ev2 = calls_of ev2'"
      "keeps_unread (snd (split_frames (?rest @ concat pieces))) b2"
    using Piece.IH [OF r(3) split_frames_rest] by blast
  have "split_frames (bs @ concat (bytes # pieces)) =
      (fst (split_frames (bs @ bytes)) @ fst (split_frames (?rest @ concat pieces)), snd (split_frames (?rest @ concat pieces)))"
    using split_frames_append [of "bs @ bytes" "fst (split_frames (bs @ bytes))" ?rest "concat pieces"] by simp
  then show ?case using handles_append [OF r(1) i(1)] r(2) i(2,3) by auto
qed

section \<open>Properties\<close>

text \<open>
  C5: how the connection cuts what the server sends does not matter. Reading it in any pieces, the client handles exactly the
  frames of all the bytes in order, each once, with the same calls of handlers as if they were handled one after the
  other; and the buffer holds exactly the bytes of the frame that is not complete yet, with space to go on.
\<close>

theorem pieces_irrelevant:
  assumes "reads_pieces native fill out c b pieces c' ev b'" "keeps_unread bs b" "split_frames bs = ([], bs)"
  shows "\<exists>ev'. handles native fill out (fst (split_frames (bs @ concat pieces))) c c' ev' \<and> calls_of ev = calls_of ev' \<and>
    keeps_unread (snd (split_frames (bs @ concat pieces))) b'"
  by (rule pieces_irrelevant_frames [OF assms])

theorem pieces_irrelevant_witness:
  "\<exists>c' ev b'. reads_pieces little (\<lambda>_. 0) (\<lambda>_. 0) client_new (buffer_new (\<lambda>_. 0) 64) [[0, 0], [5, 2], [0]] c' ev b' \<and>
     keeps_unread [0, 0, 5, 2, 0] b'"
proof -
  have small: "on_read little (\<lambda>_. 0) (\<lambda>_. 0) b client_new = Some (client_new, [], Inr b)" if "length (data_view b) < 9" for b
    using that by (simp add: on_read_def header_size_def)
  let ?b1 = "fill_buffer [0, 0] (buffer_new (\<lambda>_. 0) 64)"
  let ?b2 = "fill_buffer [5, 2] ?b1"
  let ?b3 = "fill_buffer [0] ?b2"
  have b1: "data_view ?b1 = [0, 0]" "buffer_ok ?b1" "length (prepare ?b1) = 62"
    by (simp_all add: fill_buffer_def buffer_defs poke_def Let_def)
  have b2: "data_view ?b2 = [0, 0, 5, 2]" "buffer_ok ?b2" "length (prepare ?b2) = 60"
    by (simp_all add: fill_buffer_def buffer_defs poke_def Let_def)
  have b3: "data_view ?b3 = [0, 0, 5, 2, 0]" by (simp add: fill_buffer_def buffer_defs poke_def Let_def)
  have nd: "\<not> cl_start_disconnect client_new" by (simp add: client_new_def)
  have "reads_pieces little (\<lambda>_. 0) (\<lambda>_. 0) client_new ?b2 [[0]] client_new ([] @ []) ?b3"
    by (rule reads_pieces.Piece [OF _ small nd reads_pieces.Done]) (simp_all add: b2 b3)
  then have "reads_pieces little (\<lambda>_. 0) (\<lambda>_. 0) client_new ?b1 [[5, 2], [0]] client_new ([] @ [] @ []) ?b3"
    by (rule reads_pieces.Piece [OF _ small nd, rotated 2]) (simp_all add: b1 b2)
  then have "reads_pieces little (\<lambda>_. 0) (\<lambda>_. 0) client_new (buffer_new (\<lambda>_. 0) 64) [[0, 0], [5, 2], [0]] client_new ([] @ [] @ [] @ []) ?b3"
    by (rule reads_pieces.Piece [OF _ small nd, rotated 2]) (simp_all add: b1 length_prepare_new)
  from pieces_irrelevant [OF this keeps_unread_new split_frames_Nil] this show ?thesis
    by (auto simp: split_frames.simps [of "[0, 0, 5, 2, 0]"] next_frame_def header_size_def)
qed

end
