(* ===== verification/Http2_Exchange.thy ===== *)
theory Http2_Exchange
  imports Hpack_Coding Http2_Reading
begin

text \<open>
  A request and its response through all layers: the session and the client (\<open>lib/client_session.h\<close>,
  \<open>lib/base_client.cpp\<close>), the registry and the stream (\<open>lib/stream_registry.cpp\<close>, \<open>lib/stream.cpp\<close>), the frames and the
  header compression (\<open>lib/frame.cpp\<close>, \<open>lib/frame_builder.cpp\<close>, \<open>lib/hpack\<close>).
\<close>

section \<open>A request on the wire\<close>

lemma map_find_emplace: "map_find k m = None \<Longrightarrow> map_find k (map_emplace k v m) = Some v"
  by (induction k v m rule: map_emplace.induct) (auto split: if_splits)

lemma hpack_sizes: "32 * length fs \<le> sum_list (map hf_hpack_size fs)"
  by (induction fs) (simp_all add: hf_hpack_size_def)

lemma request_flags:
  "\<not> has_flag (END_HEADERS OR END_STREAM) PADDED" "\<not> has_flag (END_HEADERS OR END_STREAM) PRIORITY_FLAG"
  by (simp_all add: has_flag_def END_HEADERS_def END_STREAM_def PADDED_def PRIORITY_FLAG_def)

lemma prepare_headers_whole:
  assumes rq: "rq_header_list (stm_request s) = hs" "hs \<noteq> []" "rq_body_list (stm_request s) = []" "\<not> stm_is_continuation s"
    and enc: "encoder_ok enc" "\<forall>f\<in>set hs. encodable (dt_hpack_max_size (enc_table enc)) f"
    and limit: "sum_list (map hf_hpack_size hs) + 9 \<le> unat limit" "limit \<le> 2 ^ 23"
  shows "\<exists>enc' frames block used. prepare_headers native stray fill limit enc s =
      (enc', s\<lparr>stm_request := (stm_request s)\<lparr>rq_header_list := []\<rparr>, stm_is_continuation := False, stm_timer := True\<rparr>, Inr (frames, used)) \<and>
    contents frames = wire_frame native (frame_type_value HEADERS) (END_HEADERS OR END_STREAM) (stm_http_id s) block \<and>
    length block < 2 ^ 24 \<and> encoder_ok enc' \<and> header_coding (encoder_state enc) hs block (encoder_state enc') \<and> frames \<noteq> []"
proof -
  have ul: "unat limit \<le> 2 ^ 23" "9 \<le> unat limit" using limit by (simp_all add: word_le_nat_alt)
  then have lim: "unat (limit - of_nat header_size) = unat limit - 9"
    by (simp add: header_size_def unat_sub word_le_nat_alt)
  obtain enc' bufs k where e: "hpack_encode stray fill enc hs (unat limit - 9) = (enc', Inr (bufs, k))" "encoder_ok enc'"
      "length (contents bufs) \<le> unat limit - 9 + k" "header_coding (encoder_state enc) (take k hs) (contents bufs) (encoder_state enc')"
      "sum_list (map hf_hpack_size hs) \<le> unat limit - 9 \<longrightarrow> k = length hs"
    using hpack_encode_coding [OF enc, of stray fill "unat limit - 9"] by blast
  have k: "k = length hs" using e(5) limit(1) by simp
  have "length hs \<le> unat limit - 9" using hpack_sizes [of hs] limit(1) by linarith
  then have len: "length (contents bufs) < 2 ^ 24" using e(3) k ul by simp
  have commit: "commit_headers (length hs) (stm_request s) = Inr ((stm_request s)\<lparr>rq_header_list := []\<rparr>)"
    by (simp add: commit_headers_eq rq(1))
  let ?frame = "headers_frame native fill (stm_http_id s) (END_HEADERS OR END_STREAM) (of_nat (length (contents bufs)))"
  have view: "data_view ?frame = wire_header native (of_nat (length (contents bufs))) 1 (END_HEADERS OR END_STREAM) (stm_http_id s)"
    by (rule headers_frame_bytes) (rule request_flags)+
  have "\<exists>used. prepare_headers native stray fill limit enc s =
      (enc', s\<lparr>stm_request := (stm_request s)\<lparr>rq_header_list := []\<rparr>, stm_is_continuation := False, stm_timer := True\<rparr>, Inr (?frame # bufs, used))"
    using e(1) k rq by (simp add: prepare_headers_def lim commit Let_def)
  then show ?thesis using e k len view
    by (intro exI [of _ enc'] exI [of _ "?frame # bufs"] exI [of _ "contents bufs"]) (simp add: wire_frame_eq)
qed

lemma get_tx_data_request:
  assumes "s = stream_new i remote_size local_size rq h" "4 \<le> local_size"
    and rq: "rq_header_list rq \<noteq> []" "rq_body_list rq = []" "rq_size rq = 0"
    and enc: "encoder_ok enc" "\<forall>f\<in>set (rq_header_list rq). encodable (dt_hpack_max_size (enc_table enc)) f"
    and limit: "sum_list (map hf_hpack_size (rq_header_list rq)) + 9 \<le> unat limit" "limit \<le> 2 ^ 23"
      "sum_list (map hf_hpack_size (rq_header_list rq)) + 9 \<le> unat remote_size"
  shows "\<exists>enc' s' frames block used. get_tx_data native stray fill limit enc s = (enc', s', Inr (frames, used)) \<and>
    contents frames = wire_frame native (frame_type_value HEADERS) (END_HEADERS OR END_STREAM) i block \<and>
    length block < 2 ^ 24 \<and> encoder_ok enc' \<and> header_coding (encoder_state enc) (rq_header_list rq) block (encoder_state enc') \<and> frames \<noteq> [] \<and>
    \<not> has_tx_data s' \<and> stm_http_state s' = OPEN \<and> stm_handler s' = Some h \<and> stm_response s' = response_new"
proof -
  let ?w = "dummy_window_new local_size (local_size div 4)"
  have "0 < local_size div 4"
    using assms(2) by (simp add: word_less_nat_alt word_le_nat_alt unat_div div_greater_zero_iff)
  then have w: "\<not> need_update ?w" by (simp add: need_update_def dummy_window_new_def)
  have "32 \<le> sum_list (map hf_hpack_size (rq_header_list rq))"
    using hpack_sizes [of "rq_header_list rq"] rq(1) by (cases "rq_header_list rq") auto
  moreover have m: "unat (min limit (ucast remote_size)) = min (unat limit) (unat remote_size)"
    by (simp add: min_def word_le_nat_alt)
  ultimately have big: "\<not> min limit (ucast remote_size) \<le> 16" using limit(1,3) by (simp add: word_le_nat_alt)
  let ?s = "s\<lparr>stm_is_scheduled := False, stm_http_state := OPEN, stm_local_window := ?w\<rparr>"
  obtain enc' frames block used where p: "prepare_headers native stray fill (min limit (ucast remote_size)) enc ?s =
      (enc', ?s\<lparr>stm_request := (stm_request ?s)\<lparr>rq_header_list := []\<rparr>, stm_is_continuation := False, stm_timer := True\<rparr>, Inr (frames, used))"
      "contents frames = wire_frame native (frame_type_value HEADERS) (END_HEADERS OR END_STREAM) i block" "length block < 2 ^ 24"
      "encoder_ok enc'" "header_coding (encoder_state enc) (rq_header_list rq) block (encoder_state enc')" "frames \<noteq> []"
    using prepare_headers_whole [of ?s "rq_header_list rq" enc "min limit (ucast remote_size)" native stray fill] assms m
    by (auto simp: stream_new_def request_move_def min_le_iff_disj)
  then show ?thesis
    using assms(1) big w rq
    by (simp add: get_tx_data_def tx_headers_def tx_body_def stream_new_def request_move_def dw_update_def Let_def has_tx_data_def) blast
qed

lemma get_data_single:
  assumes "reg_queue r = [Some a]" "has_tx_data (reg_heap r a)" "16 \<le> limit"
    and "get_tx_data native stray fill limit enc (reg_heap r a) = (enc', s, Inr (frames, used))" "\<not> has_tx_data s"
  shows "get_data native stray fill limit enc r = (r\<lparr>reg_queue := [], reg_heap := (reg_heap r)(a := s)\<rparr>, enc', Inr (frames, used))"
proof -
  have "check_tx_data s = (s, False)" using assms(5) by (simp add: check_tx_data_def)
  moreover have "\<not> limit < 16" using assms(3) by simp
  ultimately show ?thesis using assms
    by (simp add: get_data_def get_data_loop.simps [of _ _ _ limit r] get_data_loop.simps [of _ _ _ limit "r\<lparr>reg_queue := [], reg_heap := _\<rparr>"] Let_def)
qed

text \<open>A stream that waits for its response and has received these fields and this body of it.\<close>

definition status_of :: "header \<Rightarrow> byte list" where
  "status_of hs = (case List.find (\<lambda>hf. hf_name hf = str_bytes '':status'') hs of Some hf \<Rightarrow> hf_value hf | None \<Rightarrow> [])"

definition collected :: "header \<Rightarrow> byte list \<Rightarrow> response \<Rightarrow> bool" where
  "collected hs body r \<longleftrightarrow> rs_header_list r = hs \<and> rs_status_view r = status_of hs \<and> body_range r = body \<and> rs_size r = of_nat (length body)"

definition awaiting :: "u32 \<Rightarrow> handler \<Rightarrow> header \<Rightarrow> byte list \<Rightarrow> client \<Rightarrow> bool" where
  "awaiting sid h hs body c \<longleftrightarrow> (\<exists>a. get_stream sid (cl_registry c) = Some a \<and>
     (let s = reg_heap (cl_registry c) a
      in stm_http_state s \<noteq> CLOSED \<and> stm_handler s = Some h \<and> collected hs body (stm_response s)))"

lemma collected_new: "collected [] [] response_new"
  by (simp add: collected_def response_new_def status_of_def body_range_def)

definition fits :: "request \<Rightarrow> u64 \<Rightarrow> bool" where
  "fits rq n \<longleftrightarrow> sum_list (map hf_hpack_size (rq_header_list rq)) + header_size \<le> unat n"

lemma client_sends_request:
  assumes "cl_is_connected c" "cl_tx_command_queue c = []" "reg_queue (cl_registry c) = []"
    and "sid = native_to_big32 native (cl_client_id_order c * 2 - 1)" "get_stream sid (cl_registry c) = None"
    and rq: "rq_header_list rq \<noteq> []" "rq_body_list rq = []" "rq_size rq = 0"
    and enc: "encoder_ok (cl_encoder c)" "\<forall>f\<in>set (rq_header_list rq). encodable (dt_hpack_max_size (enc_table (cl_encoder c))) f"
    and fits: "fits rq (cl_server_window_size c)" "fits rq (ucast (set_max_frame_size (sm_local (cl_settings c))))"
      "fits rq (ucast (set_initial_window_size (sm_remote (cl_settings c))))"
    and "set_max_frame_size (sm_local (cl_settings c)) \<le> 2 ^ 23" "4 \<le> set_initial_window_size (sm_local (cl_settings c))"
  shows "\<exists>c1 c2 frames block. initiate_send native rq h c = (c1, [Init_Write], Inr ()) \<and>
    client_tx_data native stray fill c1 = (c2, [], Inr frames) \<and> frames \<noteq> [] \<and>
    contents frames = wire_frame native (frame_type_value HEADERS) (END_HEADERS OR END_STREAM) sid block \<and>
    length block < 2 ^ 24 \<and> encoder_ok (cl_encoder c2) \<and>
    header_coding (encoder_state (cl_encoder c)) (rq_header_list rq) block (encoder_state (cl_encoder c2)) \<and>
    awaiting sid h [] [] c2 \<and> cl_decoder c2 = cl_decoder c"
proof -
  let ?s = "stream_new sid (set_initial_window_size (sm_remote (cl_settings c))) (set_initial_window_size (sm_local (cl_settings c))) rq h"
  let ?a = "reg_next (cl_registry c)"
  let ?r = "add_stream sid ?a (fst (alloc_stream ?s (cl_registry c)))"
  let ?c1 = "c\<lparr>cl_client_id_order := cl_client_id_order c + 1, cl_registry := ?r\<rparr>"
  have send: "initiate_send native rq h c = (?c1, [Init_Write], Inr ())"
    using assms(1,4) by (simp add: initiate_send_def get_next_stream_id_def alloc_stream_def emit_def Let_def)
  have r: "reg_queue ?r = [Some ?a]" "reg_heap ?r ?a = ?s" "has_tx_data ?s" "map_find sid (reg_map ?r) = Some ?a"
    using assms(3,5) rq(1)
    by (simp_all add: add_stream_def alloc_stream_def has_tx_data_def stream_new_def request_move_def get_stream_def map_find_emplace)
  let ?limit = "min (cl_server_window_size c) (ucast (set_max_frame_size (sm_local (cl_settings c))))"
  have m: "unat ?limit = min (unat (cl_server_window_size c)) (unat (set_max_frame_size (sm_local (cl_settings c))))"
    by (simp add: min_def word_le_nat_alt)
  then have lim: "sum_list (map hf_hpack_size (rq_header_list rq)) + 9 \<le> unat ?limit" "?limit \<le> 2 ^ 23"
    using fits(1,2) assms(14) by (simp_all add: fits_def header_size_def word_le_nat_alt)
  have "32 \<le> sum_list (map hf_hpack_size (rq_header_list rq))"
    using hpack_sizes [of "rq_header_list rq"] rq(1) by (cases "rq_header_list rq") auto
  then have big: "18 \<le> ?limit" "16 \<le> ?limit" using lim(1) m by (simp_all add: word_le_nat_alt)
  obtain enc' s' frames block used where tx: "get_tx_data native stray fill ?limit (cl_encoder c) ?s = (enc', s', Inr (frames, used))"
      "contents frames = wire_frame native (frame_type_value HEADERS) (END_HEADERS OR END_STREAM) sid block" "length block < 2 ^ 24"
      "encoder_ok enc'" "header_coding (encoder_state (cl_encoder c)) (rq_header_list rq) block (encoder_state enc')" "frames \<noteq> []"
      "\<not> has_tx_data s'" "stm_http_state s' = OPEN" "stm_handler s' = Some h" "stm_response s' = response_new"
    using get_tx_data_request [OF refl assms(15) rq enc lim, of "set_initial_window_size (sm_remote (cl_settings c))" native stray fill sid h]
      fits(3) by (auto simp: fits_def header_size_def)
  have get: "get_data native stray fill ?limit (cl_encoder c) ?r =
      (?r\<lparr>reg_queue := [], reg_heap := (reg_heap ?r)(?a := s')\<rparr>, enc', Inr (frames, used))"
    using get_data_single [OF r(1) _ big(2), of native stray fill "cl_encoder c" enc' s' frames used] r(2,3) tx(1,7) by simp
  let ?c2 = "?c1\<lparr>cl_registry := ?r\<lparr>reg_queue := [], reg_heap := (reg_heap ?r)(?a := s')\<rparr>, cl_encoder := enc',
    cl_server_window_size := cl_server_window_size c - used\<rparr>"
  have "client_tx_data native stray fill ?c1 = (?c2, [], Inr frames)"
    using get big(1) assms(2) by (simp add: client_tx_data_def Let_def)
  moreover have "awaiting sid h [] [] ?c2" using r(4) tx(8-10) collected_new by (simp add: awaiting_def get_stream_def)
  ultimately show ?thesis using send tx
    by (intro exI [of _ ?c1] exI [of _ ?c2] exI [of _ frames] exI [of _ block]) simp
qed

section \<open>A response from the wire\<close>

text \<open>What a receiving member function does to the stream of an identifier, and which calls it makes.\<close>

lemma stream_act_open:
  assumes "get_stream sid (cl_registry c) = Some a" "receive_member native out op (reg_heap (cl_registry c) a) = (s, Inr calls)"
    and "stm_http_state s \<noteq> CLOSED"
  shows "\<exists>r s'. stream_act native out sid op c = (c\<lparr>cl_registry := r\<rparr>, map (\<lambda>(h, e, rs). Response_Done h e rs) calls, Inr ()) \<and>
    get_stream sid r = Some a \<and> reg_heap r a = s' \<and> s' = s\<lparr>stm_is_scheduled := stm_is_scheduled s'\<rparr>"
proof -
  obtain s' again where c: "check_tx_data s = (s', again)" by fastforce
  then have "s' = s\<lparr>stm_is_scheduled := stm_is_scheduled s'\<rparr>" by (auto simp: check_tx_data_def split: if_splits)
  then show ?thesis using assms c
    by (auto simp: stream_act_def invoke_for_stream_def is_finished_def get_stream_def enqueue_def Let_def)
qed

text \<open>The outcome of a part of a response: the handler is called with what has been collected, or the stream waits for more.\<close>

definition part_outcome :: "bool \<Rightarrow> u32 \<Rightarrow> handler \<Rightarrow> header \<Rightarrow> byte list \<Rightarrow> client \<Rightarrow> client_event list \<Rightarrow> bool" where
  "part_outcome fin sid h hs body c ev \<longleftrightarrow>
     (if fin then \<exists>rs. ev = [Response_Done h no_error rs] \<and> collected hs body rs else ev = [] \<and> awaiting sid h hs body c)"

lemma awaiting_cong [simp]:
  "awaiting sid h hs body (c\<lparr>cl_local_window := w\<rparr>) = awaiting sid h hs body c"
  "awaiting sid h hs body (c\<lparr>cl_tx_command_queue := q\<rparr>) = awaiting sid h hs body c"
  "awaiting sid h hs body (c\<lparr>cl_decoder := d\<rparr>) = awaiting sid h hs body c"
  by (simp_all add: awaiting_def)

lemma stream_act_part:
  assumes "awaiting sid h hs body c"
    and "\<And>s. stm_http_state s \<noteq> CLOSED \<Longrightarrow> stm_handler s = Some h \<Longrightarrow> collected hs body (stm_response s) \<Longrightarrow>
      \<exists>t. receive_member native out op s = (case end_stream flags t of (s1, calls) \<Rightarrow> (s1, Inr calls)) \<and>
        stm_http_state t \<noteq> CLOSED \<and> stm_handler t = Some h \<and> collected hs' body' (stm_response t)"
  shows "\<exists>r ev. stream_act native out sid op c = (c\<lparr>cl_registry := r\<rparr>, ev, Inr ()) \<and>
    part_outcome (has_flag flags END_STREAM) sid h hs' body' (c\<lparr>cl_registry := r\<rparr>) ev"
proof -
  obtain a where a: "get_stream sid (cl_registry c) = Some a" "stm_http_state (reg_heap (cl_registry c) a) \<noteq> CLOSED"
      "stm_handler (reg_heap (cl_registry c) a) = Some h" "collected hs body (stm_response (reg_heap (cl_registry c) a))"
    using assms(1) by (auto simp: awaiting_def Let_def)
  obtain t where t: "receive_member native out op (reg_heap (cl_registry c) a) = (case end_stream flags t of (s1, calls) \<Rightarrow> (s1, Inr calls))"
      "stm_http_state t \<noteq> CLOSED" "stm_handler t = Some h" "collected hs' body' (stm_response t)"
    using assms(2) [OF a(2-4)] by blast
  obtain s1 calls where e: "end_stream flags t = (s1, calls)" by fastforce
  have s1: "stm_http_state s1 \<noteq> CLOSED"
    "if has_flag flags END_STREAM then calls = [(h, no_error, stm_response t)] else calls = [] \<and> s1 = t"
    using e t(2,3) by (auto simp: end_stream_def stream_finished_def split: if_splits)
  obtain r s' where r: "stream_act native out sid op c = (c\<lparr>cl_registry := r\<rparr>, map (\<lambda>(h, e, rs). Response_Done h e rs) calls, Inr ())"
      "get_stream sid r = Some a" "reg_heap r a = s'" "s' = s1\<lparr>stm_is_scheduled := stm_is_scheduled s'\<rparr>"
    using stream_act_open [OF a(1) _ s1(1), of native out op calls] t(1) e by auto
  have "awaiting sid h hs' body' (c\<lparr>cl_registry := r\<rparr>)" if "s1 = t"
    using r(2,3) t(2-4) that by (subst (asm) r(4)) (simp add: awaiting_def)
  then have "part_outcome (has_flag flags END_STREAM) sid h hs' body' (c\<lparr>cl_registry := r\<rparr>) (map (\<lambda>(h, e, rs). Response_Done h e rs) calls)"
    using s1(2) t(4) by (simp add: part_outcome_def split: if_splits)
  then show ?thesis using r(1) by blast
qed

lemma collected_headers: "collected [] body r \<Longrightarrow> collected hs body (insert_headers hs r)"
proof -
  assume c: "collected [] body r"
  then have "rs_status_view r = (case List.find (\<lambda>hf. hf_name hf = str_bytes '':status'') (rs_header_list r) of
      Some hf \<Rightarrow> hf_value hf | None \<Rightarrow> [])" by (simp add: collected_def status_of_def)
  note i = insert_headers_status [OF this, of hs]
  show ?thesis using c i(1) by (subst i(2)) (simp add: collected_def status_of_def body_range_def)
qed

lemma collected_body:
  assumes "collected hs body r" "span_bytes span = p"
  shows "collected hs (body @ p) (r\<lparr>rs_body_blocks := rs_body_blocks r @ [(b, span)], rs_size := rs_size r + of_nat (length p)\<rparr>)"
  using assms by (simp add: collected_def body_range_def)

lemma handle_headers:
  assumes "span_bytes f = wire_frame native (frame_type_value HEADERS) flags sid block" "length block < 2 ^ 24"
    and "length block \<le> unat (set_max_frame_size (sm_local (cl_settings c)))" "\<not> has_flag flags PADDED" "\<not> has_flag flags PRIORITY_FLAG"
    and "header_coding st hs block st'" "decoder_sim (cl_decoder c) st" "awaiting sid h [] [] c"
  shows "\<exists>c' ev. handle_frame native fill out (f, b) c = (c', ev, Inr ()) \<and> part_outcome (has_flag flags END_STREAM) sid h hs [] c' ev \<and>
    decoder_sim (cl_decoder c') st' \<and> cl_settings c' = cl_settings c"
proof -
  obtain w bs where w: "window_received native fill (header_size + length block) c =
      (c\<lparr>cl_local_window := w, cl_tx_command_queue := cl_tx_command_queue c @ bs\<rparr>, [], Inr ())"
    using window_received_eq by blast
  have "span_bytes (headers_block native f) = block" using headers_block_wire(1) [OF assms(1,2,4)] assms(5) by simp
  then obtain d where d: "hpack_decode (cl_decoder c) (headers_block native f) = (d, Inr hs)" "decoder_sim d st'"
    using hpack_decode_coding [OF assms(6,7)] by blast
  let ?c = "c\<lparr>cl_local_window := w, cl_tx_command_queue := cl_tx_command_queue c @ bs, cl_decoder := d\<rparr>"
  have "\<exists>t. receive_member native out (Receive_Headers hs flags (sp_len f)) s = (case end_stream flags t of (s1, calls) \<Rightarrow> (s1, Inr calls)) \<and>
      stm_http_state t \<noteq> CLOSED \<and> stm_handler t = Some h \<and> collected hs [] (stm_response t)"
    if "stm_http_state s \<noteq> CLOSED" "stm_handler s = Some h" "collected [] [] (stm_response s)" for s
    using that collected_headers [OF that(3), of hs]
    by (intro exI [of _ "s\<lparr>stm_local_window := dw_dec (of_nat (sp_len f)) (stm_local_window s), stm_response := insert_headers hs (stm_response s)\<rparr>"])
      (simp add: plain_def on_receive_headers_def)
  then obtain r ev where act: "stream_act native out sid (Receive_Headers hs flags (sp_len f)) ?c = (?c\<lparr>cl_registry := r\<rparr>, ev, Inr ())"
      "part_outcome (has_flag flags END_STREAM) sid h hs [] (?c\<lparr>cl_registry := r\<rparr>) ev"
    using stream_act_part [of sid h "[]" "[]" ?c native out "Receive_Headers hs flags (sp_len f)" flags hs "[]"] assms(8) by auto
  have "handle_frame native fill out (f, b) c = (?c\<lparr>cl_registry := r\<rparr>, ev, Inr ())"
    using handle_frame_wire [OF assms(1-3), of fill out b] w d(1) act(1) get_frame_wire [OF assms(1,2)] analyze_wire(1) [OF assms(1,2)]
    by (simp add: frame_handlers_def client_receive_headers_def open_frame_def decode_fields_def action_defs try_act_def)
  then show ?thesis using act(2) d(2) by (intro exI conjI) (assumption, simp_all)
qed

lemma receive_data_collects:
  assumes "data_view b = wire_frame native (frame_type_value DATA) flags sid p" "buffer_ok b" "length p < 2 ^ 24" "\<not> has_flag flags PADDED"
    and "stm_http_state s \<noteq> CLOSED" "stm_handler s = Some h" "collected hs body (stm_response s)"
  shows "\<exists>t. receive_member native out (Receive_Data b) s = (case end_stream flags t of (s1, calls) \<Rightarrow> (s1, Inr calls)) \<and>
    stm_http_state t \<noteq> CLOSED \<and> stm_handler t = Some h \<and> collected hs (body @ p) (stm_response t)"
proof -
  let ?f = "buffer_span out b"
  have f: "span_bytes ?f = wire_frame native (frame_type_value DATA) flags sid p" using assms(1,2) by (simp add: span_bytes_buffer_span)
  note h = get_frame_wire [OF f assms(3)] analyze_wire(1) [OF f assms(3)]
  let ?s = "s\<lparr>stm_local_window := dw_dec (of_nat (length (data_view b))) (stm_local_window s)\<rparr>"
  show ?thesis
  proof (cases "p = []")
    case True
    then show ?thesis using h assms(5-7) by (intro exI [of _ ?s]) (simp add: on_receive_data_def Let_def)
  next
    case False
    obtain span where i: "insert_body native out b (stm_response s) =
        Inr ((stm_response s)\<lparr>rs_body_blocks := rs_body_blocks (stm_response s) @ [(b, span)],
          rs_size := rs_size (stm_response s) + of_nat (length p)\<rparr>)" "span_bytes span = p"
      using insert_body_wire [OF assms(2,1,3,4)] by blast
    show ?thesis using h assms(5,6) i(1) False collected_body [OF assms(7) i(2), of b]
      by (intro exI [of _ "?s\<lparr>stm_response := (stm_response s)\<lparr>rs_body_blocks := rs_body_blocks (stm_response s) @ [(b, span)],
          rs_size := rs_size (stm_response s) + of_nat (length p)\<rparr>\<rparr>"]) (simp add: on_receive_data_def Let_def)
  qed
qed

lemma handle_data:
  assumes "span_bytes f = wire_frame native (frame_type_value DATA) flags sid p" "length p < 2 ^ 24"
    and "length p \<le> unat (set_max_frame_size (sm_local (cl_settings c)))" "\<not> has_flag flags PADDED"
    and "buffer_ok b" "data_view b = span_bytes f" "awaiting sid h hs body c"
  shows "\<exists>c' ev. handle_frame native fill out (f, b) c = (c', ev, Inr ()) \<and> part_outcome (has_flag flags END_STREAM) sid h hs (body @ p) c' ev \<and>
    cl_decoder c' = cl_decoder c \<and> cl_settings c' = cl_settings c"
proof -
  obtain w bs where w: "window_received native fill (length (data_view b)) c =
      (c\<lparr>cl_local_window := w, cl_tx_command_queue := cl_tx_command_queue c @ bs\<rparr>, [], Inr ())"
    using window_received_eq by blast
  have view: "data_view b = wire_frame native (frame_type_value DATA) flags sid p" using assms(1,6) by simp
  have g: "span_bytes (buffer_span out b) = wire_frame native (frame_type_value DATA) flags sid p"
    using view assms(5) by (simp add: span_bytes_buffer_span)
  let ?c = "c\<lparr>cl_local_window := w, cl_tx_command_queue := cl_tx_command_queue c @ bs\<rparr>"
  obtain r ev where act: "stream_act native out sid (Receive_Data b) ?c = (?c\<lparr>cl_registry := r\<rparr>, ev, Inr ())"
      "part_outcome (has_flag flags END_STREAM) sid h hs (body @ p) (?c\<lparr>cl_registry := r\<rparr>) ev"
    using stream_act_part [of sid h hs body ?c native out "Receive_Data b" flags hs "body @ p"] assms(7)
      receive_data_collects [OF view assms(5,2,4)] by auto
  have "fh_type (frame_header native f) = frame_type_value DATA"
    using wire_frame_header(1) [of f native "frame_type_value DATA" flags sid p "[]"] assms(1,2) by simp
  then have "handle_frame native fill out (f, b) c = (?c\<lparr>cl_registry := r\<rparr>, ev, Inr ())"
    using frame_check_wire [OF assms(1-3)] w act(1) get_frame_wire [OF g assms(2)] analyze_wire(1) [OF g assms(2)]
    by (simp add: handle_frame_eq on_receive_data_frame_def client_receive_data_def open_frame_def action_defs try_act_def)
  then show ?thesis using act(2) by (intro exI conjI) (assumption, simp_all)
qed

text \<open>A response as a server sends it: one HEADERS frame, and the body in DATA frames, the last frame with END_STREAM.\<close>

fun response_body_frames :: "byte_order \<Rightarrow> u32 \<Rightarrow> byte list list \<Rightarrow> byte list list" where
  "response_body_frames native sid [] = []"
| "response_body_frames native sid (p # ps) =
     wire_frame native (frame_type_value DATA) (if ps = [] then END_STREAM else 0) sid p # response_body_frames native sid ps"

definition response_frames :: "byte_order \<Rightarrow> u32 \<Rightarrow> byte list \<Rightarrow> byte list list \<Rightarrow> byte list list" where
  "response_frames native sid block ps =
     wire_frame native (frame_type_value HEADERS) (if ps = [] then END_HEADERS OR END_STREAM else END_HEADERS) sid block #
     response_body_frames native sid ps"

definition sendable :: "client \<Rightarrow> byte list \<Rightarrow> bool" where
  "sendable c p \<longleftrightarrow> length p < 2 ^ 24 \<and> length p \<le> unat (set_max_frame_size (sm_local (cl_settings c)))"

lemma more_flags [simp]:
  "\<not> has_flag END_HEADERS PADDED" "\<not> has_flag END_HEADERS PRIORITY_FLAG" "\<not> has_flag END_HEADERS END_STREAM"
  "has_flag (END_HEADERS OR END_STREAM) END_STREAM"
  by (simp_all add: has_flag_def END_HEADERS_def END_STREAM_def PADDED_def PRIORITY_FLAG_def)

lemma response_frames_wire: "\<forall>p\<in>set (block # ps). sendable c p \<Longrightarrow> list_all (is_wire_frame native) (response_frames native sid block ps)"
proof -
  have "\<forall>p\<in>set ps. sendable c p \<Longrightarrow> list_all (is_wire_frame native) (response_body_frames native sid ps)"
    by (induction ps) (simp_all add: sendable_def is_wire_frameI)
  then show "\<forall>p\<in>set (block # ps). sendable c p \<Longrightarrow> list_all (is_wire_frame native) (response_frames native sid block ps)"
    by (simp add: response_frames_def sendable_def is_wire_frameI)
qed

lemma handle_bodies:
  assumes "map (\<lambda>(s, b). span_bytes s) items = response_body_frames native sid ps" "ps \<noteq> []"
    and "list_all (\<lambda>(s, b). buffer_ok b \<and> data_view b = span_bytes s) items" "\<forall>p\<in>set ps. sendable c p" "awaiting sid h hs body c"
  shows "\<exists>c' rs. each (handle_frame native fill out) items c = (c', [Response_Done h no_error rs], Inr ()) \<and>
    collected hs (body @ concat ps) rs \<and> cl_decoder c' = cl_decoder c \<and> cl_settings c' = cl_settings c"
  using assms
proof (induction ps arbitrary: items body c)
  case (Cons p ps)
  obtain f b items' where i: "items = (f, b) # items'"
      "span_bytes f = wire_frame native (frame_type_value DATA) (if ps = [] then END_STREAM else 0) sid p"
      "map (\<lambda>(s, b). span_bytes s) items' = response_body_frames native sid ps" "buffer_ok b" "data_view b = span_bytes f"
      "list_all (\<lambda>(s, b). buffer_ok b \<and> data_view b = span_bytes s) items'"
    using Cons.prems(1,3) by (cases items) auto
  have flags: "\<not> has_flag (if ps = [] then END_STREAM else 0) PADDED" by simp
  obtain c1 ev where h: "handle_frame native fill out (f, b) c = (c1, ev, Inr ())"
      "part_outcome (has_flag (if ps = [] then END_STREAM else 0) END_STREAM) sid h hs (body @ p) c1 ev"
      "cl_decoder c1 = cl_decoder c" "cl_settings c1 = cl_settings c"
    using handle_data [OF i(2) _ _ flags i(4,5) Cons.prems(5), of fill out] Cons.prems(4) by (auto simp: sendable_def)
  show ?case
  proof (cases "ps = []")
    case True
    then show ?thesis using h i(1,3) by (auto simp: part_outcome_def emit_def)
  next
    case False
    then have "awaiting sid h hs (body @ p) c1" "ev = []" "\<forall>p\<in>set ps. sendable c1 p"
      using h(2,4) Cons.prems(4) by (simp_all add: part_outcome_def sendable_def)
    then show ?thesis using Cons.IH [OF i(3) False i(6), of c1 "body @ p"] h i(1) by auto
  qed
qed simp

lemma handle_response:
  assumes "map (\<lambda>(s, b). span_bytes s) items = response_frames native sid block ps"
    and "list_all (\<lambda>(s, b). buffer_ok b \<and> data_view b = span_bytes s) items" "\<forall>p\<in>set (block # ps). sendable c p"
    and "header_coding st hs block st'" "decoder_sim (cl_decoder c) st" "awaiting sid h [] [] c"
  shows "\<exists>c' rs. each (handle_frame native fill out) items c = (c', [Response_Done h no_error rs], Inr ()) \<and>
    collected hs (concat ps) rs \<and> decoder_sim (cl_decoder c') st'"
proof -
  obtain f b items' where i: "items = (f, b) # items'"
      "span_bytes f = wire_frame native (frame_type_value HEADERS) (if ps = [] then END_HEADERS OR END_STREAM else END_HEADERS) sid block"
      "map (\<lambda>(s, b). span_bytes s) items' = response_body_frames native sid ps"
      "list_all (\<lambda>(s, b). buffer_ok b \<and> data_view b = span_bytes s) items'"
    using assms(1,2) by (cases items) (auto simp: response_frames_def)
  have flags: "\<not> has_flag (if ps = [] then END_HEADERS OR END_STREAM else END_HEADERS) PADDED"
    "\<not> has_flag (if ps = [] then END_HEADERS OR END_STREAM else END_HEADERS) PRIORITY_FLAG"
    using request_flags by simp_all
  obtain c1 ev where h: "handle_frame native fill out (f, b) c = (c1, ev, Inr ())"
      "part_outcome (has_flag (if ps = [] then END_HEADERS OR END_STREAM else END_HEADERS) END_STREAM) sid h hs [] c1 ev"
      "decoder_sim (cl_decoder c1) st'" "cl_settings c1 = cl_settings c"
    using handle_headers [OF i(2) _ _ flags assms(4-6), of fill out b] assms(3) by (auto simp: sendable_def)
  show ?thesis
  proof (cases "ps = []")
    case True
    then show ?thesis using h i(1,3) by (auto simp: part_outcome_def emit_def)
  next
    case False
    then have "awaiting sid h hs [] c1" "ev = []" "\<forall>p\<in>set ps. sendable c1 p"
      using h(2,4) assms(3) by (simp_all add: part_outcome_def sendable_def)
    then show ?thesis using handle_bodies [OF i(3) False i(4), of c1 h hs "[]" fill out] h i(1) by auto
  qed
qed

lemma collected_body_as: "collected hs body r \<Longrightarrow> length body < 2 ^ 64 \<Longrightarrow> body_as r = body"
proof -
  assume r: "collected hs body r" "length body < 2 ^ 64"
  have "unat (of_nat (length body) :: u64) = length body" using r(2) by (simp only: unat_of_nat) simp
  then show ?thesis using r(1) body_as_range [of r] by (simp add: collected_def)
qed

text \<open>The same for a response that arrives in any pieces: the handler is called once, when its last byte has been read.\<close>

lemma response_in_pieces:
  assumes "reads_pieces native fill out c b pieces c' ev b'" "keeps_unread [] b" "concat pieces = concat (response_frames native sid block ps)"
    and "\<forall>p\<in>set (block # ps). sendable c p"
    and "header_coding st hs block st'" "decoder_sim (cl_decoder c) st" "awaiting sid h [] [] c"
  shows "\<exists>rs. calls_of ev = [Response_Done h no_error rs] \<and> collected hs (concat ps) rs \<and> decoder_sim (cl_decoder c') st'"
proof -
  have split: "split_frames (concat pieces) = (response_frames native sid block ps, [])"
    unfolding assms(3) by (rule split_wire_frames [OF response_frames_wire [OF assms(4)]])
  obtain ev' where e: "handles native fill out (response_frames native sid block ps) c c' ev'" "calls_of ev = calls_of ev'"
    using pieces_irrelevant_frames [OF assms(1,2) split_frames_Nil] split by auto
  then obtain items where i: "map (\<lambda>(s, b). span_bytes s) items = response_frames native sid block ps"
      "list_all (\<lambda>(s, b). buffer_ok b \<and> data_view b = span_bytes s) items" "each (handle_frame native fill out) items c = (c', ev', Inr ())"
    unfolding handles_def by blast
  then show ?thesis using handle_response [OF i(1,2) assms(4-7), of fill out] e(2) by auto
qed

section \<open>Requests that can be encoded\<close>

definition printable :: "string \<Rightarrow> bool" where
  "printable s \<longleftrightarrow> (\<forall>c\<in>set s. 32 \<le> (of_char c :: nat) \<and> (of_char c :: nat) \<le> 126)"

lemma printable_codes: "\<forall>e\<in>set (take 95 (drop 32 huffman_table)). snd e \<le> 24"
  by (simp add: huffman_table_def huffman_table_0_def huffman_table_1_def)

lemma readable_printable: "printable s \<Longrightarrow> readable offset (str_bytes s)"
proof (rule readable_short)
  fix b :: byte
  assume s: "printable s" and "b \<in> set (str_bytes s)"
  then obtain c where c: "c \<in> set s" "b = of_char c" by (auto simp: str_bytes_def)
  have "(of_char c :: byte) = of_nat (of_char c)" by (simp add: of_char_def)
  moreover have "(of_char c :: nat) < 2 ^ 8" using s c(1) by (auto simp: printable_def)
  ultimately have "unat b = (of_char c :: nat)" using c(2) by (simp add: unat_of_nat)
  then have i: "32 \<le> unat b" "unat b \<le> 126" using s c(1) by (auto simp: printable_def)
  then have "huffman_table ! unat b = take 95 (drop 32 huffman_table) ! (unat b - 32)" by simp
  also have "\<dots> \<in> set (take 95 (drop 32 huffman_table))" using i by (intro nth_mem) simp
  finally show "length (code_bits (unat b)) \<le> 24" using printable_codes i by (simp add: length_code_bits)
qed

lemma plain_field_encodable:
  assumes "printable n" "printable v" "static_name (str_bytes n)" "length n + length v + 32 \<le> m" "m \<le> 2 ^ 20"
  shows "encodable m (plain_field (n, v))"
  using assms readable_printable
  by (auto simp: encodable_def plain_field_def field_ok_def header_field_new_ok entry_size_def str_bytes_def)

lemma pseudo_names: "\<forall>(n, v)\<in>set (pseudo_headers url m). printable n \<and> static_name (str_bytes n) \<and> length n \<le> 10"
  by (simp add: pseudo_headers_def printable_def static_name_def field_table_def field_literals_def str_bytes_def sp_def)

lemma url_request:
  assumes "request_new url m = Inr rq" "\<forall>(n, v)\<in>set (pseudo_headers url m). printable v \<and> length v + 42 \<le> k" "k \<le> 2 ^ 20"
  shows "rq_header_list rq = map plain_field (pseudo_headers url m)" "rq_body_list rq = []" "rq_size rq = 0"
    "\<forall>f\<in>set (rq_header_list rq). encodable k f"
proof -
  show h: "rq_header_list rq = map plain_field (pseudo_headers url m)" "rq_body_list rq = []" "rq_size rq = 0"
    using assms(1) by (auto simp: request_new_iff rq_headers_def request_empty_def plain_field_def)
  have "encodable k (plain_field (n, v))" if "(n, v) \<in> set (pseudo_headers url m)" for n v
    using pseudo_names [of url m] assms(2,3) that by (intro plain_field_encodable) fastforce+
  then show "\<forall>f\<in>set (rq_header_list rq). encodable k f" unfolding h(1) by auto
qed

text \<open>A connected session whose writer is idle, with nothing queued.\<close>

definition ready :: "byte_order \<Rightarrow> session \<Rightarrow> bool" where
  "ready native s \<longleftrightarrow> (let c = ss_client s
     in cl_is_connected c \<and> cl_tx_command_queue c = [] \<and> reg_queue (cl_registry c) = [] \<and>
        get_stream (native_to_big32 native (cl_client_id_order c * 2 - 1)) (cl_registry c) = None \<and>
        set_max_frame_size (sm_local (cl_settings c)) \<le> 2 ^ 23 \<and> 4 \<le> set_initial_window_size (sm_local (cl_settings c))) \<and>
     \<not> ss_tx_running s \<and> ss_posted s = 0 \<and> ss_writes s = []"

text \<open>The headers of a request with the header of a frame fit the windows of the server and a frame.\<close>

definition fits_windows :: "request \<Rightarrow> client \<Rightarrow> bool" where
  "fits_windows rq c \<longleftrightarrow> fits rq (cl_server_window_size c) \<and> fits rq (ucast (set_max_frame_size (sm_local (cl_settings c)))) \<and>
     fits rq (ucast (set_initial_window_size (sm_remote (cl_settings c))))"

section \<open>Properties\<close>

text \<open>
  C2: a request reaches the wire. On a connected session whose writer is idle, \<open>async_send\<close> of a request
  without a body wakes the writer, and the write routine hands exactly one HEADERS frame with END_HEADERS and END_STREAM to the
  connection, on the next identifier. A decoder in step with the encoder reads from it exactly the headers of the
  request and is in step again. The stream then waits for its response.
\<close>

theorem request_sent:
  assumes "ready native s" "sid = native_to_big32 native (cl_client_id_order (ss_client s) * 2 - 1)"
    and "rq_header_list rq \<noteq> []" "rq_body_list rq = []" "rq_size rq = 0" "fits_windows rq (ss_client s)"
    and "encoder_ok (cl_encoder (ss_client s))" "decoder_sim dec (encoder_state (cl_encoder (ss_client s)))"
    and "\<forall>f\<in>set (rq_header_list rq). encodable (dt_hpack_max_size (enc_table (cl_encoder (ss_client s)))) f"
  shows "\<exists>s1 s2 frames block. async_send native rq h s = (s1, [], Inr ()) \<and> ss_posted s1 = 1 \<and>
    write_routine native stray fill s1 = (s2, [], Inr ()) \<and> ss_writes s2 = [frames] \<and>
    contents frames = wire_frame native (frame_type_value HEADERS) (END_HEADERS OR END_STREAM) sid block \<and>
    (\<forall>src. span_bytes src = block \<longrightarrow> (\<exists>dec'. hpack_decode dec src = (dec', Inr (rq_header_list rq)) \<and>
      decoder_sim dec' (encoder_state (cl_encoder (ss_client s2))))) \<and>
    encoder_ok (cl_encoder (ss_client s2)) \<and> awaiting sid h [] [] (ss_client s2)"
proof -
  obtain c1 c2 frames block where x: "initiate_send native rq h (ss_client s) = (c1, [Init_Write], Inr ())"
      "client_tx_data native stray fill c1 = (c2, [], Inr frames)" "frames \<noteq> []"
      "contents frames = wire_frame native (frame_type_value HEADERS) (END_HEADERS OR END_STREAM) sid block"
      "encoder_ok (cl_encoder c2)"
      "header_coding (encoder_state (cl_encoder (ss_client s))) (rq_header_list rq) block (encoder_state (cl_encoder c2))"
      "awaiting sid h [] [] c2"
    using client_sends_request [OF _ _ _ assms(2) _ assms(3-5,7,9), of h stray fill] assms(1,2,6)
    by (auto simp: ready_def fits_windows_def Let_def)
  let ?s1 = "s\<lparr>ss_client := c1, ss_tx_running := True, ss_posted := 1\<rparr>"
  let ?s2 = "s\<lparr>ss_client := c2, ss_tx_running := True, ss_posted := 0, ss_tx_queue_sent := ss_tx_queue_sent s @ frames, ss_writes := [frames]\<rparr>"
  have "async_send native rq h s = (?s1, [], Inr ())" using x(1) assms(1) by (simp add: ready_def async_send_def client_do_def init_write_def)
  moreover have "write_routine native stray fill ?s1 = (?s2, [], Inr ())"
    using x(2,3) assms(1) by (simp add: ready_def write_routine_def client_do_def)
  ultimately show ?thesis using x(4,5,7) hpack_decode_coding [OF x(6) assms(8)]
    by (intro exI [of _ ?s1] exI [of _ ?s2] exI [of _ frames] exI [of _ block]) simp
qed

definition ready_session :: session where
  "ready_session = idle_session\<lparr>ss_client := client_new\<lparr>cl_is_connected := True\<rparr>\<rparr>"

definition example_url :: url_view where
  "example_url = \<lparr>url_scheme = ''https'', url_authority = ''localhost'', url_path = ''/'',
     url_encoded_authority = ''localhost'', url_encoded_resource = ''/''\<rparr>"

lemma example_url_request:
  "\<exists>rq. request_new example_url GET = Inr rq \<and> rq_header_list rq = map plain_field (pseudo_headers example_url GET) \<and> rq_body_list rq = [] \<and>
     rq_size rq = 0 \<and> (\<forall>f\<in>set (rq_header_list rq). encodable 4096 f) \<and> fits_windows rq (client_new\<lparr>cl_is_connected := True\<rparr>)"
proof -
  have get: "to_string GET = ''GET''" by (simp add: to_string_def method_strings_def methods_def)
  then obtain rq where rq: "request_new example_url GET = Inr rq"
    by (simp add: request_new_iff pseudo_headers_def example_url_def)
  have "\<forall>(n, v)\<in>set (pseudo_headers example_url GET). printable v \<and> length v + 42 \<le> 4096"
    by (simp add: pseudo_headers_def example_url_def get printable_def)
  note r = url_request [OF rq this]
  have "fits_windows rq (client_new\<lparr>cl_is_connected := True\<rparr>)"
    using r(1) by (simp add: fits_windows_def fits_def client_new_def settings_manager_new_def settings_default_def pseudo_headers_def
        example_url_def get plain_field_def hf_hpack_size_def str_bytes_def header_size_def INITIAL_WINDOW_SIZE_def)
  then show ?thesis using rq r by simp
qed

theorem request_sent_witness:
  "\<exists>rq s1 s2 frames block. request_new example_url GET = Inr rq \<and> async_send little rq 5 ready_session = (s1, [], Inr ()) \<and>
     write_routine little (\<lambda>_ _. 0) (\<lambda>_. 0) s1 = (s2, [], Inr ()) \<and> ss_writes s2 = [frames] \<and>
     contents frames = wire_frame little (frame_type_value HEADERS) (END_HEADERS OR END_STREAM) (native_to_big32 little 1) block \<and>
     snd (hpack_decode decoder_new (span_of (\<lambda>_. 0) block)) = Inr (map plain_field (pseudo_headers example_url GET))"
proof -
  obtain rq where rq: "request_new example_url GET = Inr rq" "rq_header_list rq = map plain_field (pseudo_headers example_url GET)"
      "rq_body_list rq = []" "rq_size rq = 0" "\<forall>f\<in>set (rq_header_list rq). encodable 4096 f"
      "fits_windows rq (client_new\<lparr>cl_is_connected := True\<rparr>)"
    using example_url_request by blast
  have s: "ready little ready_session" "cl_encoder (ss_client ready_session) = encoder_new" "cl_client_id_order (ss_client ready_session) = 1"
    by (simp_all add: ready_def ready_session_def idle_session_state client_new_def registry_new_def get_stream_def
        settings_manager_new_def settings_default_def INITIAL_WINDOW_SIZE_def)
  have ne: "rq_header_list rq \<noteq> []" using rq(2) by (simp add: pseudo_headers_def)
  have c: "ss_client ready_session = client_new\<lparr>cl_is_connected := True\<rparr>" by (simp add: ready_session_def)
  from request_sent [OF s(1) refl ne rq(3,4), of decoder_new 5 "\<lambda>_ _. 0" "\<lambda>_. 0"] obtain s1 s2 frames block where x:
      "async_send little rq 5 ready_session = (s1, [], Inr ())" "write_routine little (\<lambda>_ _. 0) (\<lambda>_. 0) s1 = (s2, [], Inr ())"
      "ss_writes s2 = [frames]"
      "contents frames = wire_frame little (frame_type_value HEADERS) (END_HEADERS OR END_STREAM) (native_to_big32 little (1 * 2 - 1)) block"
      "\<forall>src. span_bytes src = block \<longrightarrow> (\<exists>dec'. hpack_decode decoder_new src = (dec', Inr (rq_header_list rq)) \<and>
        decoder_sim dec' (encoder_state (cl_encoder (ss_client s2))))"
    using rq(5,6) encoder_new_ok s(2,3) c by auto
  moreover have "snd (hpack_decode decoder_new (span_of (\<lambda>_. 0) block)) = Inr (map plain_field (pseudo_headers example_url GET))"
    using x(5) [rule_format, OF span_bytes_span_of [of "\<lambda>_. 0" block]] rq(2) by auto
  ultimately show ?thesis using rq(1) by (intro exI conjI) (assumption+, simp)
qed

text \<open>
  C3: a response reaches the user. When the input buffer holds, after a read, a HEADERS frame with any encoding of
  a list of fields and the body in any number of DATA frames, for a stream that waits for its response, exactly the
  handler of that request is called, once, without an error, with these fields, the status among them and the whole body;
  the decoder is in step with the encoder of the server again.
\<close>

theorem response_delivered:
  assumes "awaiting sid h [] [] (ss_client s)" "header_coding st hs block st'" "decoder_sim (cl_decoder (ss_client s)) st"
    and "buffer_ok (ss_input_buffer s)" "header_size \<le> buf_maxsize (ss_input_buffer s)" "length bytes \<le> length (prepare (ss_input_buffer s))"
    and "data_view (ss_input_buffer s) @ bytes = concat (response_frames native sid block ps)"
    and "\<forall>p\<in>set (block # ps). sendable (ss_client s) p" "length (concat ps) < 2 ^ 64"
  shows "\<exists>s' rs. on_data_read native fill out no_error bytes s = (s', [Client_Call (Response_Done h no_error rs)], Inr ()) \<and>
    rs_header_list rs = hs \<and> rs_status_view rs = status_of hs \<and> body_as rs = concat ps \<and> decoder_sim (cl_decoder (ss_client s')) st'"
proof -
  let ?b = "ss_input_buffer s" and ?c = "ss_client s"
  let ?f = "fst (commit (length bytes) (?b\<lparr>buf_memory := poke (buf_offset ?b) bytes (buf_memory ?b)\<rparr>))"
  have view: "data_view ?f = concat (response_frames native sid block ps)" using data_view_filled [OF assms(4,6)] assms(7) by simp
  have split: "split_frames (data_view ?f) = (response_frames native sid block ps, [])"
    unfolding view by (rule split_wire_frames [OF response_frames_wire [OF assms(8)]])
  have long: "\<not> length (data_view ?f) < header_size" unfolding view by (simp add: response_frames_def)
  obtain items tail c' ev r where x: "frames_in items tail (data_view ?f)"
      "seq (each (handle_frame native fill out) items) (handle_rest native tail) ?c = (c', ev, r)"
      "case r of
         Inr _ \<Rightarrow> \<exists>b'. keeps_unread (span_bytes tail) b' \<and>
           on_read native fill out ?f ?c = Some (c', ev @ (if length (data_view ?f) < header_size then [] else [Init_Write]), Inr b')
       | Inl e \<Rightarrow>
           if e = undefined_behaviour then on_read native fill out ?f ?c = Some (c', ev, Inl e)
           else case initiate_disconnect native fill (exception_code native e) None c' of (c'', ev', _) \<Rightarrow>
             \<exists>b'. on_read native fill out ?f ?c = Some (c'', ev @ ev' @ [Init_Write], Inr b')"
    using on_read_frames [OF filled_ok(1) [OF assms(4,6)], of native fill out ?c] filled_ok(2) [OF assms(4,6)] assms(5) by auto
  have items: "map (\<lambda>(s, b). span_bytes s) items = response_frames native sid block ps" "sp_len tail = 0"
      "list_all (\<lambda>(s, b). buffer_ok b \<and> data_view b = span_bytes s) items"
    using x(1) split by (simp_all add: frames_in_def) (metis span_bytes_Nil_iff)
  obtain c1 rs where h: "each (handle_frame native fill out) items ?c = (c1, [Response_Done h no_error rs], Inr ())"
      "collected hs (concat ps) rs" "decoder_sim (cl_decoder c1) st'"
    using handle_response [OF items(1,3) assms(8,2,3,1), of fill out] by blast
  then have "c' = c1" "ev = [Response_Done h no_error rs]" "r = Inr ()"
    using x(2) items(2) by (auto simp: handle_rest_def header_size_def emit_def)
  then obtain b' where "on_read native fill out ?f ?c = Some (c1, [Response_Done h no_error rs, Init_Write], Inr b')"
    using x(3) long by auto
  then have "\<exists>s'. on_data_read native fill out no_error bytes s = (s', [Client_Call (Response_Done h no_error rs)], Inr ()) \<and> ss_client s' = c1"
    by (simp add: on_data_read_def Let_def init_read_def init_write_def)
  then show ?thesis using h(2,3) collected_body_as [OF h(2) assms(9)] by (auto simp: collected_def)
qed

definition waiting_session :: session where
  "waiting_session = idle_session\<lparr>ss_client := client_new\<lparr>cl_registry :=
     add_stream 1 0 (fst (alloc_stream (stream_new 1 65535 65535 request_empty 5) registry_new))\<rparr>\<rparr>"

theorem response_delivered_witness:
  "\<exists>s' rs. on_data_read little (\<lambda>_. 0) (\<lambda>_. 0) no_error (concat (response_frames little 1 [0x88] [[104], [105]])) waiting_session =
      (s', [Client_Call (Response_Done 5 no_error rs)], Inr ()) \<and> rs_status_view rs = str_bytes ''200'' \<and> body_as rs = [104, 105]"
proof -
  let ?f = "plain_field ('':status'', ''200'')"
  have "header_coding (4096, []) [?f] ([0x88] @ []) (4096, [])"
  proof (rule header_coding.index [where i = 8])
    show "index_space (snd (4096, [])) ! (8 - 1) = (hf_name ?f, hf_value ?f)"
      by (simp add: index_space_def field_table_def field_literals_def plain_field_def str_bytes_def sp_def)
    show "int_encode_cmd INDEX (of_nat 8) = Inr [0x88]"
      by (simp add: int_encode_cmd_def int_encode_def MAX_HPACK_INT_def make_mask_def)
  qed (simp_all add: index_space_def plain_field_def field_ok_def header_field_new_ok str_bytes_def header_coding.nil)
  then have code: "header_coding (4096, []) [?f] [0x88] (4096, [])" by simp
  have wait: "awaiting 1 5 [] [] (ss_client waiting_session)"
    by (simp add: waiting_session_def awaiting_def get_stream_def add_stream_def alloc_stream_def registry_new_def stream_new_def collected_new)
  have dec: "decoder_sim (cl_decoder (ss_client waiting_session)) (4096, [])"
    using encoder_new_ok(2,3) by (simp add: waiting_session_def client_new_def encoder_new_def tables_new encoder_config_default_def)
  have b: "ss_input_buffer waiting_session = buffer_new (\<lambda>_. 0) 64" by (simp add: waiting_session_def idle_session_more)
  have snd: "\<forall>p\<in>set ([0x88] # [[104], [105]]). sendable (ss_client waiting_session) p"
    by (simp add: sendable_def waiting_session_def client_new_def settings_manager_new_def settings_default_def)
  obtain s' rs where "on_data_read little (\<lambda>_. 0) (\<lambda>_. 0) no_error (concat (response_frames little 1 [0x88] [[104], [105]])) waiting_session =
      (s', [Client_Call (Response_Done 5 no_error rs)], Inr ())" "rs_status_view rs = status_of [?f]" "body_as rs = concat [[104], [105]]"
    using response_delivered [OF wait code dec, of "concat (response_frames little 1 [0x88] [[104], [105]])" little "[[104], [105]]" "\<lambda>_. 0" "\<lambda>_. 0"] snd
    by (auto simp: b header_size_def length_prepare_new response_frames_def)
  then show ?thesis by (auto simp: status_of_def plain_field_def)
qed

end
