(* ===== verification/Http2_Session_Life.thy ===== *)
theory Http2_Session_Life
  imports Http2_Session_Runs
begin

text \<open>
  The flags of a session over its life (\<open>lib/client_session.h\<close>, \<open>lib/base_client.cpp\<close>): which of them are ever
  cleared, and what follows for connecting again.
\<close>

section \<open>A session that has been connected\<close>

interpretation connected_view: client_lasting_view cl_is_connected
  by unfold_locales simp_all

interpretation connected_control: client_control_view cl_is_connected
  by unfold_locales simp_all

abbreviation connected :: "session \<Rightarrow> bool" where
  "connected s \<equiv> cl_is_connected (ss_client s)"

lemma connected_call: "client_call e s = (s', outs) \<Longrightarrow> connected s \<Longrightarrow> connected s'"
  by (cases e) (auto simp: init_write_def split: if_splits)

lemma connected_calls: "client_calls es s = (s', outs) \<Longrightarrow> connected s \<Longrightarrow> connected s'"
  by (induction es arbitrary: s s' outs) (auto split: prod.splits dest: connected_call)

lemma connected_do:
  assumes "client_do m s = (s', outs, r)" "keeps cl_is_connected m" "connected s"
  shows "connected s'"
proof -
  obtain c ev r' where m: "m (ss_client s) = (c, ev, r')" by (metis prod_cases3)
  have "cl_is_connected c" using keepsD [OF assms(2) m] assms(3) by simp
  then show ?thesis using assms(1) m connected_calls [of ev "s\<lparr>ss_client := c\<rparr>"] by (auto simp: client_do_def split: prod.splits)
qed

lemma keeps_connected_cleanup: "keeps cl_is_connected (cleanup_after_disconnect ec)"
  by (simp add: keeps_def cleanup_after_disconnect_def split: prod.split)

lemma connected_read:
  assumes "on_read native fill out b c = Some (c', ev, r)" "buffer_ok b" "header_size \<le> buf_maxsize b" "cl_is_connected c"
  shows "cl_is_connected c'"
proof -
  obtain items tail c1 ev1 r1 where x:
    "seq (each (handle_frame native fill out) items) (handle_rest native tail) c = (c1, ev1, r1)"
    "case r1 of
       Inr _ \<Rightarrow> \<exists>b'. keeps_unread (span_bytes tail) b' \<and>
         on_read native fill out b c = Some (c1, ev1 @ (if length (data_view b) < header_size then [] else [Init_Write]), Inr b')
     | Inl e \<Rightarrow>
         if e = undefined_behaviour then on_read native fill out b c = Some (c1, ev1, Inl e)
         else case initiate_disconnect native fill (exception_code native e) None c1 of (c'', ev', _) \<Rightarrow>
           \<exists>b'. on_read native fill out b c = Some (c'', ev1 @ ev' @ [Init_Write], Inr b')"
    using on_read_frames [OF assms(2,3), of native fill out c] by blast
  have k: "keeps cl_is_connected (seq (each (handle_frame native fill out) items) (handle_rest native tail))" by blast
  have c1: "cl_is_connected c1" using keepsD [OF k x(1)] assms(4) by simp
  have d: "cl_is_connected c2" if "initiate_disconnect native fill ec None c1 = (c2, ev2, r2)" for ec c2 ev2 r2
    using keepsD [OF connected_view.keeps_disconnect that] c1 by simp
  show ?thesis using x(2) assms(1) c1 d by (cases r1) (auto split: if_splits prod.splits)
qed

lemma connected_data_read:
  assumes "0 < ss_reads s" "length bytes \<le> length (prepare (ss_input_buffer s))"
    and "on_data_read native fill out ec bytes s = (s', outs, Inr ())" "session_ok s" "connected s"
  shows "connected s'"
proof (cases "ec_failed ec")
  case True
  then show ?thesis using assms(3,5) by (auto simp: on_data_read_def Let_def split: if_splits)
next
  case False
  let ?b = "ss_input_buffer s"
  let ?f = "fst (commit (length bytes) (?b\<lparr>buf_memory := poke (buf_offset ?b) bytes (buf_memory ?b)\<rparr>))"
  obtain c ev b' s1 where r: "on_read native fill out ?f (ss_client s) = Some (c, ev, Inr b')"
      "client_calls ev (s\<lparr>ss_reads := ss_reads s - 1, ss_client := c\<rparr>) = (s1, outs)" "s' = init_read (s1\<lparr>ss_input_buffer := b'\<rparr>)"
    using assms(3) False by (auto simp: on_data_read_def Let_def split: option.splits prod.splits sum.splits)
  have "buffer_ok ?b" "header_size \<le> buf_maxsize ?b" using assms(1,4) by (auto simp: session_ok_def has_space_def keeps_unread_def)
  then have "cl_is_connected c" using connected_read [OF r(1)] filled_ok [of ?b bytes] assms(2,5) by simp
  then show ?thesis using connected_calls [OF r(2)] r(3) by (simp add: init_read_def)
qed

lemma connected_established:
  assumes "co_init_connected native fill token ec s = (s', outs)" "connected s"
  shows "connected s'"
proof (cases "ec_failed ec")
  case True
  then show ?thesis using assms by (auto simp: co_init_connected_def async_update_settings_def)
next
  case False
  let ?s1 = "s\<lparr>ss_connecting := remove1 token (ss_connecting s), ss_tx_routine_done := False, ss_tx_running := False,
    ss_client := (ss_client s)\<lparr>cl_connection_error := no_error\<rparr>\<rparr>"
  obtain s2 out2 r2 where s2: "client_do (write_initial_frames fill) ?s1 = (s2, out2, r2)" by (metis prod_cases3)
  obtain s4 out4 r4 where s4: "client_do (client_sync_settings native fill True token) (init_read s2) = (s4, out4, r4)"
    by (metis prod_cases3)
  have "connected s2" by (rule connected_do [OF s2 connected_view.keeps_initial_frames]) (simp add: assms(2))
  then have "connected (init_read s2)" by (simp add: init_read_def)
  then have "connected s4" by (rule connected_do [OF s4 connected_view.keeps_sync_settings])
  then show ?thesis using assms(1) False s2 s4 by (auto simp: co_init_connected_def async_update_settings_def Let_def split: sum.splits)
qed

lemma connected_routine:
  assumes "write_routine native stray fill s = (s', outs, r)" "connected s"
  shows "connected s'"
proof -
  obtain s1 out1 r1 where d: "client_do (client_tx_data native stray fill) (s\<lparr>ss_posted := ss_posted s - 1\<rparr>) = (s1, out1, r1)"
    by (metis prod_cases3)
  have "connected s1" by (rule connected_do [OF d connected_control.keeps_tx_data]) (simp add: assms(2))
  then show ?thesis using assms(1) d by (auto simp: write_routine_def check_shutdown_def Let_def split: sum.splits if_splits)
qed

lemma connected_disconnected:
  assumes "on_disconnected s = (s', outs)" "connected s"
  shows "connected s'"
proof -
  obtain s1 out1 r1 where d:
    "client_do (cleanup_after_disconnect (cl_connection_error (ss_client s))) (s\<lparr>ss_disconnects := ss_disconnects s - 1\<rparr>) = (s1, out1, r1)"
    by (metis prod_cases3)
  have "connected s1" by (rule connected_do [OF d keeps_connected_cleanup]) (simp add: assms(2))
  then show ?thesis using assms(1) d by (auto simp: on_disconnected_def Let_def)
qed

lemma connected_step: "session_step native s s' \<Longrightarrow> session_ok s \<Longrightarrow> connected s \<Longrightarrow> connected s'"
proof (induction rule: session_step.induct)
  case (Read s bytes fill out ec s' outs)
  then show ?case by (rule connected_data_read)
next
  case (Established token s fill ec s' outs)
  then show ?case by (blast intro: connected_established)
next
  case (Routine s stray fill s' outs r)
  then show ?case by (blast intro: connected_routine)
next
  case (Disconnected s s' outs)
  then show ?case by (blast intro: connected_disconnected)
next
  case (User_Disconnect fill token s s' outs r)
  then show ?case unfolding async_disconnect_def by (blast intro: connected_do)
next
  case (User_Send rq token s s' outs r)
  then show ?case unfolding async_send_def by (blast intro: connected_do)
next
  case (User_Ping fill token s s' outs r)
  then show ?case unfolding session_ping_def by (blast intro: connected_do)
next
  case (Settings_Timeout fill aborted s s' outs r)
  then show ?case by (blast intro: connected_do)
qed (auto simp: async_connect_def co_init_def on_data_write_def init_write_def Let_def split: if_splits)

lemma connected_for_ever:
  assumes "(session_step native)\<^sup>*\<^sup>* s s'" "session_ok s" "connected s"
  shows "session_ok s' \<and> connected s'"
  using assms(1) by (induction rule: rtranclp_induct) (use assms(2,3) session_step_ok connected_step in blast)+

section \<open>Properties\<close>

text \<open>
  C27: a session connects once. After it has been connected, whatever happens to it, a disconnection included, every
  coroutine of \<open>async_connect\<close> that begins reports \<open>already_connected\<close> and does nothing else.
\<close>

theorem session_connects_once:
  assumes "(session_step native)\<^sup>*\<^sup>* (session_new fill) s" "cl_is_connected (ss_client s)" "(session_step native)\<^sup>*\<^sup>* s s'"
  shows "co_init token s' =
    (s'\<lparr>ss_spawned := remove1 token (ss_spawned s')\<rparr>, [Connect_Done token (Inr (asio_error already_connected))])"
  using connected_for_ever [OF assms(3) session_reachable_ok [OF assms(1)] assms(2)] by (simp add: co_init_def Let_def)

lemma connected_session_exists:
  "\<exists>s. (session_step little)\<^sup>*\<^sup>* (session_new (\<lambda>_. 0)) s \<and> cl_is_connected (ss_client s)"
proof -
  let ?data = "wire_frame little 4 0 0 [] @ wire_frame little 4 ACK 0 []"
  obtain s where r: "on_data_read little (\<lambda>_. 0) (\<lambda>_. 0) no_error ?data idle_session = (s, [Connect_Done 1 (Inr no_error)], Inr ())"
      "cl_is_connected (ss_client s)"
    using settings_connect [of idle_session 1 "[]" ?data little "\<lambda>_. 0" "\<lambda>_. 0"] idle_session_more idle_session_state
    by (auto simp: header_size_def length_prepare_new)
  have "session_step little idle_session s"
    by (rule session_step.Read [OF _ _ r(1)]) (simp_all add: idle_session_state idle_session_more length_prepare_new header_size_def)
  then show ?thesis using idle_session_reachable r(2) by (meson rtranclp.rtrancl_into_rtrancl)
qed

theorem session_connects_once_witness:
  "\<exists>s s'. (session_step little)\<^sup>*\<^sup>* (session_new (\<lambda>_. 0)) s \<and> s' = fst (async_disconnect little (\<lambda>_. 0) 5 s) \<and>
     snd (co_init 7 (async_connect 7 s')) = [Connect_Done 7 (Inr (asio_error already_connected))]"
proof -
  obtain s where s: "(session_step little)\<^sup>*\<^sup>* (session_new (\<lambda>_. 0)) s" "cl_is_connected (ss_client s)"
    using connected_session_exists by blast
  obtain s' outs r where d: "async_disconnect little (\<lambda>_. 0) 5 s = (s', outs, r)" by (metis prod_cases3)
  have "(session_step little)\<^sup>*\<^sup>* s (async_connect 7 s')"
    using session_step.User_Disconnect [OF d] session_step.Connect by (meson converse_rtranclp_into_rtranclp rtranclp.rtrancl_refl)
  from session_connects_once [OF s this, of 7] show ?thesis using s(1) d by (intro exI [of _ s] exI [of _ s']) simp
qed

section \<open>A connection that fails\<close>

text \<open>Attempts to connect one after the other, each as far as its coroutine gets at once.\<close>

fun connect_attempts :: "handler list \<Rightarrow> session \<Rightarrow> session \<times> session_event list" where
  "connect_attempts [] s = (s, [])"
| "connect_attempts (t # ts) s =
     (case co_init t (async_connect t s) of (s1, out1) \<Rightarrow> case connect_attempts ts s1 of (s2, out2) \<Rightarrow> (s2, out1 @ out2))"

lemma attempts_in_progress:
  assumes "cl_start_connecting (ss_client s)" "\<not> cl_is_connected (ss_client s)"
  shows "\<exists>s'. connect_attempts ts s = (s', map (\<lambda>t. Connect_Done t (Inr (asio_error in_progress))) ts) \<and>
    ss_client s' = ss_client s \<and> ss_connecting s' = ss_connecting s"
  using assms
proof (induction ts arbitrary: s)
  case (Cons t ts)
  let ?s = "(async_connect t s)\<lparr>ss_spawned := remove1 t (ss_spawned (async_connect t s))\<rparr>"
  have i: "co_init t (async_connect t s) = (?s, [Connect_Done t (Inr (asio_error in_progress))])"
    using Cons.prems by (simp add: co_init_def async_connect_def)
  have "ss_client ?s = ss_client s" "ss_connecting ?s = ss_connecting s" by (simp_all add: async_connect_def)
  with Cons.IH [of ?s] Cons.prems i show ?case by auto
qed simp

end
