(* ===== verification/Http2_Connection.thy ===== *)
theory Http2_Connection
  imports Http2_Session_Life
begin

text \<open>
  The connection over TLS (\<open>lib/connection.h\<close>) and the session on it. OpenSSL and Boost.Asio are third-party
  code: what their functions answer is a record of functions that the definitions take as an argument. What the
  model has is which of them the class calls, in which order, with which arguments, and what it does with the answers.
\<close>

section \<open>The connection\<close>

text \<open>
  The members that the class itself sets: of the SSL context the default verify paths; of the SSL stream the
  offered protocols, the name of the server, the verify mode and the callback; whether the socket is open and whether the
  TLS handshake on it has succeeded; and the endpoint.
\<close>

record 'e connection =
  cn_verify_paths :: bool
  cn_alpn :: "byte list"
  cn_server_name :: "string option"
  cn_verify_peer :: bool
  cn_verify_callback :: "(bool \<Rightarrow> bool) option"
  cn_open :: bool
  cn_secure :: bool
  cn_connected_epoint :: "'e option"

definition connection_new :: "'e connection" where
  "connection_new = \<lparr>cn_verify_paths = False, cn_alpn = [], cn_server_name = None, cn_verify_peer = False, cn_verify_callback = None,
     cn_open = False, cn_secure = False, cn_connected_epoint = None\<rparr>"

text \<open>
  The answers of the third parties: the results of \<open>SSL_set_alpn_protos\<close>, \<open>SSL_set_tlsext_host_name\<close>,
  \<open>ERR_get_error\<close>, \<open>async_resolve\<close>, \<open>async_connect\<close> on the endpoints, \<open>async_handshake\<close> on the stream as it is
  configured, \<open>async_shutdown\<close>, \<open>async_read\<close> with the least number of bytes it is to transfer and the size of the
  buffer, and \<open>async_write\<close>.
\<close>

record 'e transport =
  tp_set_alpn :: "byte list \<Rightarrow> int"
  tp_set_host_name :: "string \<Rightarrow> int"
  tp_get_error :: error_value
  tp_resolve :: "string \<Rightarrow> string \<Rightarrow> error_value + 'e list"
  tp_connect :: "'e list \<Rightarrow> error_value + 'e"
  tp_handshake :: "'e connection \<Rightarrow> error_value + unit"
  tp_shutdown :: "'e connection \<Rightarrow> error_value"
  tp_read :: "'e connection \<Rightarrow> nat \<Rightarrow> nat \<Rightarrow> error_value + byte list"
  tp_write :: "'e connection \<Rightarrow> byte list list \<Rightarrow> error_value"

text \<open>The subject name is written to a local array and not used.\<close>

definition verify_certificate :: "bool \<Rightarrow> bool" where
  "verify_certificate preverified = True"

definition HTTP2_PROTO :: "byte list" where
  "HTTP2_PROTO = [2, of_char (CHR ''h''), of_char (CHR ''2'')]"

definition prepare_ssl :: "'e transport \<Rightarrow> string \<Rightarrow> 'e connection \<Rightarrow> 'e connection \<times> unit result" where
  "prepare_ssl tp host cn0 =
     (let cn = cn0\<lparr>cn_verify_paths := True\<rparr>
      in if tp_set_alpn tp HTTP2_PROTO \<noteq> 0 then (cn, Inl (system_error (tp_get_error tp)))
         else
           let cn1 = cn\<lparr>cn_alpn := HTTP2_PROTO\<rparr>
           in if tp_set_host_name tp host = 0 then (cn1, Inl (system_error (tp_get_error tp)))
              else (cn1\<lparr>cn_server_name := Some host, cn_verify_peer := True, cn_verify_callback := Some verify_certificate\<rparr>, Inr ()))"

definition co_connect :: "'e transport \<Rightarrow> string \<Rightarrow> string \<Rightarrow> 'e connection \<Rightarrow> 'e connection \<times> unit result" where
  "co_connect tp host service cn =
     (case tp_resolve tp host service of
        Inl ec \<Rightarrow> (cn, Inl (system_error ec))
      | Inr endpoints \<Rightarrow>
          (case tp_connect tp endpoints of
             Inl ec \<Rightarrow> (cn, Inl (system_error ec))
           | Inr ep \<Rightarrow>
               let cn1 = cn\<lparr>cn_open := True, cn_connected_epoint := Some ep\<rparr>
               in case tp_handshake tp cn1 of
                    Inl ec \<Rightarrow> (cn1, Inl (system_error ec))
                  | Inr _ \<Rightarrow> (cn1\<lparr>cn_secure := True\<rparr>, Inr ())))"

text \<open>A new context and a new stream, which close the old ones; the endpoint is kept.\<close>

definition connection_connect :: "'e transport \<Rightarrow> string \<Rightarrow> string \<Rightarrow> 'e connection \<Rightarrow> 'e connection \<times> unit result" where
  "connection_connect tp host service cn0 =
     (case prepare_ssl tp host (connection_new\<lparr>cn_connected_epoint := cn_connected_epoint cn0\<rparr>) of
        (cn, Inl e) \<Rightarrow> (cn, Inl e)
      | (cn, Inr _) \<Rightarrow> co_connect tp host service cn)"

text \<open>The socket is closed first; the handler gets what the shutdown of TLS then answers.\<close>

definition connection_disconnect :: "'e transport \<Rightarrow> 'e connection \<Rightarrow> 'e connection \<times> error_value" where
  "connection_disconnect tp cn = (let cn1 = cn\<lparr>cn_open := False\<rparr> in (cn1, tp_shutdown tp cn1))"

definition connection_read :: "'e transport \<Rightarrow> nat \<Rightarrow> 'e connection \<Rightarrow> error_value + byte list" where
  "connection_read tp n cn = tp_read tp cn 1 n"

definition connection_write :: "'e transport \<Rightarrow> byte list list \<Rightarrow> 'e connection \<Rightarrow> error_value" where
  "connection_write tp buffers cn = tp_write tp cn buffers"

section \<open>The session on the connection\<close>

text \<open>
  The first \<open>co_await\<close> of \<open>co_init\<close> with this connection: an exception of it leaves the coroutine,
  otherwise the coroutine goes on.
\<close>

definition co_init_connect ::
  "'e transport \<Rightarrow> byte_order \<Rightarrow> (nat \<Rightarrow> byte) \<Rightarrow> string \<Rightarrow> string \<Rightarrow> handler \<Rightarrow> 'e connection \<Rightarrow> session \<Rightarrow>
   'e connection \<times> session \<times> session_event list" where
  "co_init_connect tp native fill host service token cn s =
     (case connection_connect tp host service cn of
        (cn', Inl e) \<Rightarrow> (cn', s\<lparr>ss_connecting := remove1 token (ss_connecting s)\<rparr>, [Connect_Done token (Inl e)])
      | (cn', Inr _) \<Rightarrow> (case co_init_connected native fill token no_error s of (s', outs) \<Rightarrow> (cn', s', outs)))"

text \<open>A read and a write of the session, from the buffers that it passes to the completion.\<close>

definition session_read ::
  "'e transport \<Rightarrow> byte_order \<Rightarrow> (nat \<Rightarrow> byte) \<Rightarrow> (int \<Rightarrow> byte) \<Rightarrow> 'e connection \<Rightarrow> session \<Rightarrow> session_result" where
  "session_read tp native fill out cn s =
     (case connection_read tp (length (prepare (ss_input_buffer s))) cn of
        Inl ec \<Rightarrow> on_data_read native fill out ec [] s
      | Inr bytes \<Rightarrow> on_data_read native fill out no_error bytes s)"

definition session_write :: "'e transport \<Rightarrow> buffer list \<Rightarrow> 'e connection \<Rightarrow> session \<Rightarrow> session" where
  "session_write tp data cn s = on_data_write (connection_write tp (map data_view data) cn) data s"

section \<open>Lemmas\<close>

definition configured :: "string \<Rightarrow> 'e connection \<Rightarrow> bool" where
  "configured host cn \<longleftrightarrow> cn_verify_paths cn \<and> cn_alpn cn = HTTP2_PROTO \<and> cn_server_name cn = Some host \<and> cn_verify_peer cn \<and>
     cn_verify_callback cn = Some verify_certificate"

lemma prepare_ssl_iff:
  "prepare_ssl tp host cn = (cn', Inr ()) \<longleftrightarrow> tp_set_alpn tp HTTP2_PROTO = 0 \<and> tp_set_host_name tp host \<noteq> 0 \<and>
     cn' = cn\<lparr>cn_verify_paths := True, cn_alpn := HTTP2_PROTO, cn_server_name := Some host, cn_verify_peer := True,
       cn_verify_callback := Some verify_certificate\<rparr>"
  by (auto simp: prepare_ssl_def Let_def)

lemma prepare_ssl_configured: "prepare_ssl tp host cn = (cn', Inr ()) \<Longrightarrow> configured host cn' \<and> cn_open cn' = cn_open cn"
  by (auto simp: prepare_ssl_iff configured_def)

lemma co_connect_success:
  "co_connect tp host service cn = (cn', Inr ()) \<longleftrightarrow>
     (\<exists>eps ep. tp_resolve tp host service = Inr eps \<and> tp_connect tp eps = Inr ep \<and>
        tp_handshake tp (cn\<lparr>cn_open := True, cn_connected_epoint := Some ep\<rparr>) = Inr () \<and>
        cn' = cn\<lparr>cn_open := True, cn_connected_epoint := Some ep, cn_secure := True\<rparr>)"
  by (auto simp: co_connect_def Let_def split: sum.splits)

lemma connection_connect_success:
  "connection_connect tp host service cn = (cn', Inr ()) \<longleftrightarrow>
     (\<exists>eps ep cn1. tp_resolve tp host service = Inr eps \<and> tp_connect tp eps = Inr ep \<and>
        tp_set_alpn tp HTTP2_PROTO = 0 \<and> tp_set_host_name tp host \<noteq> 0 \<and>
        cn1 = \<lparr>cn_verify_paths = True, cn_alpn = HTTP2_PROTO, cn_server_name = Some host, cn_verify_peer = True,
          cn_verify_callback = Some verify_certificate, cn_open = True, cn_secure = False, cn_connected_epoint = Some ep\<rparr> \<and>
        tp_handshake tp cn1 = Inr () \<and> cn' = cn1\<lparr>cn_secure := True\<rparr>)"
proof -
  have "connection_connect tp host service cn = (cn', Inr ()) \<longleftrightarrow>
      (\<exists>cn0. prepare_ssl tp host (connection_new\<lparr>cn_connected_epoint := cn_connected_epoint cn\<rparr>) = (cn0, Inr ()) \<and>
        co_connect tp host service cn0 = (cn', Inr ()))"
    by (auto simp: connection_connect_def split: prod.splits sum.splits)
  then show ?thesis by (auto simp: prepare_ssl_iff co_connect_success connection_new_def)
qed

text \<open>What OpenSSL documents of the handshake: with \<open>verify_peer\<close> the callback decides, once for every certificate of the chain.\<close>

definition checks_chain :: "'e transport \<Rightarrow> bool list \<Rightarrow> error_value \<Rightarrow> bool" where
  "checks_chain tp chain rejected \<longleftrightarrow> (\<forall>cn f. cn_verify_peer cn \<and> cn_verify_callback cn = Some f \<longrightarrow>
     tp_handshake tp cn = (if list_all f chain then Inr () else Inl rejected))"

text \<open>What Boost.Asio documents of \<open>async_read\<close>: without an error it has transferred the least number of bytes, or filled the buffer.\<close>

definition reads_enough :: "'e transport \<Rightarrow> bool" where
  "reads_enough tp \<longleftrightarrow> (\<forall>cn n k bytes. tp_read tp cn n k = Inr bytes \<longrightarrow> min n k \<le> length bytes \<and> length bytes \<le> k)"

lemma session_read_step:
  assumes "(session_step native)\<^sup>*\<^sup>* (session_new fill0) s" "0 < ss_reads s" "reads_enough tp"
    and "session_read tp native fill out cn s = (s', outs, Inr ())"
  shows "session_step native s s' \<and>
    (\<forall>bytes. connection_read tp (length (prepare (ss_input_buffer s))) cn = Inr bytes \<longrightarrow> bytes \<noteq> [])"
proof -
  let ?size = "length (prepare (ss_input_buffer s))"
  have "has_space (ss_input_buffer s)" using session_reachable_ok [OF assms(1)] assms(2) by (auto simp: session_ok_def)
  then have "0 < ?size" by (auto simp: has_space_def keeps_unread_def)
  then have bytes: "bytes \<noteq> [] \<and> length bytes \<le> ?size" if "connection_read tp ?size cn = Inr bytes" for bytes
  proof -
    have "min 1 ?size \<le> length bytes \<and> length bytes \<le> ?size"
      using assms(3) that unfolding reads_enough_def connection_read_def by blast
    then show ?thesis using \<open>0 < ?size\<close> by auto
  qed
  have "session_step native s s'"
  proof (cases "connection_read tp ?size cn")
    case (Inl ec)
    then show ?thesis using assms(2,4) session_step.Read [of s "[]" native fill out ec s' outs] by (simp add: session_read_def)
  next
    case (Inr bs)
    then show ?thesis using assms(2,4) bytes session_step.Read [of s bs native fill out no_error s' outs] by (simp add: session_read_def)
  qed
  then show ?thesis using bytes by blast
qed

section \<open>Properties\<close>

text \<open>
  C28: connecting, when the name is resolved and an endpoint found. The stream offers exactly HTTP/2, names the
  server and asks for its certificates to be verified. The callback then accepts all of them: the connection is established
  whatever chain the server presents, also one of which OpenSSL has accepted no certificate, where a callback that answers
  what OpenSSL has found would have stopped the handshake.
\<close>

theorem certificates_not_checked:
  assumes "tp_set_alpn tp HTTP2_PROTO = 0" "tp_set_host_name tp host \<noteq> 0"
    and "tp_resolve tp host service = Inr eps" "tp_connect tp eps = Inr ep" "checks_chain tp chain rejected"
  shows "\<exists>cn'. connection_connect tp host service cn = (cn', Inr ()) \<and> configured host cn' \<and> cn_open cn' \<and> cn_secure cn' \<and>
    cn_connected_epoint cn' = Some ep \<and>
    (False \<in> set chain \<longrightarrow> tp_handshake tp (cn'\<lparr>cn_verify_callback := Some (\<lambda>preverified. preverified)\<rparr>) = Inl rejected)"
proof -
  let ?cn = "\<lparr>cn_verify_paths = True, cn_alpn = HTTP2_PROTO, cn_server_name = Some host, cn_verify_peer = True,
    cn_verify_callback = Some verify_certificate, cn_open = True, cn_secure = False, cn_connected_epoint = Some ep\<rparr>"
  have "tp_handshake tp ?cn = Inr ()" using assms(5) by (simp add: checks_chain_def verify_certificate_def list_all_iff)
  then have "connection_connect tp host service cn = (?cn\<lparr>cn_secure := True\<rparr>, Inr ())"
    using assms(1-4) by (simp add: connection_connect_success)
  moreover have "tp_handshake tp (?cn\<lparr>cn_secure := True, cn_verify_callback := Some (\<lambda>preverified. preverified)\<rparr>) = Inl rejected"
    if "False \<in> set chain" using assms(5) that by (auto simp: checks_chain_def list_all_iff)
  ultimately show ?thesis by (auto simp: configured_def)
qed

definition self_signed :: "nat transport" where
  "self_signed = \<lparr>tp_set_alpn = (\<lambda>protos. if length protos = 3 then 0 else 1), tp_set_host_name = (\<lambda>host. if host = [] then 0 else 1),
     tp_get_error = no_error, tp_resolve = (\<lambda>host service. Inr [1, 2]), tp_connect = (\<lambda>eps. Inr (hd eps)),
     tp_handshake = (\<lambda>cn. case cn_verify_callback cn of Some f \<Rightarrow> if cn_verify_peer cn \<and> \<not> f False then Inl (io_error 18) else Inr () | None \<Rightarrow> Inr ()),
     tp_shutdown = (\<lambda>cn. no_error), tp_read = (\<lambda>cn n k. Inr (replicate k 0)), tp_write = (\<lambda>cn buffers. no_error)\<rparr>"

theorem certificates_not_checked_witness:
  "\<exists>cn'. connection_connect self_signed ''localhost'' ''443'' connection_new = (cn', Inr ()) \<and> cn_secure cn' \<and>
     tp_handshake self_signed (cn'\<lparr>cn_verify_callback := Some (\<lambda>preverified. preverified)\<rparr>) = Inl (io_error 18)"
proof -
  have "tp_set_alpn self_signed HTTP2_PROTO = 0" "tp_set_host_name self_signed ''localhost'' \<noteq> 0"
    "tp_resolve self_signed ''localhost'' ''443'' = Inr [1, 2]" "tp_connect self_signed [1, 2] = Inr 1"
    "checks_chain self_signed [False] (io_error 18)"
    by (simp_all add: self_signed_def HTTP2_PROTO_def checks_chain_def)
  from certificates_not_checked [OF this, of connection_new] show ?thesis by auto
qed


definition unreachable :: "nat transport" where
  "unreachable = self_signed\<lparr>tp_resolve := (\<lambda>host service. Inl (io_error 1))\<rparr>"


end
