(* ===== verification/Example_Client.thy ===== *)
theory Example_Client
  imports Http2_Connection
begin

text \<open>
  The example program (\<open>examples/client.cpp\<close>): it fetches one URL. The URL parser and the \<open>io_context\<close> are third-party
  code, and what the futures of the session answer depends on the network: a record of functions that \<open>main\<close> takes as
  an argument. Whether the program ends at all depends on the thread that runs the \<open>io_context\<close>, which \<open>main\<close> joins.
\<close>

section \<open>The program\<close>

record parsed_url =
  pu_port :: string
  pu_host_name :: string

text \<open>
  In turn: \<open>parse_uri\<close>, \<open>None\<close> for an error; the conversion of a string to a \<open>url_view\<close>; the three futures; the calls of
  the shutdown handler; whether \<open>io_context.run\<close> returns while there is work, depending on whether \<open>io_context.stop\<close> has been
  called.
\<close>

record environment =
  env_parse_uri :: "string \<Rightarrow> parsed_url option"
  env_url_view :: "string \<Rightarrow> url_view result"
  env_connect :: "string \<Rightarrow> string \<Rightarrow> error_value result"
  env_send :: "request \<Rightarrow> response result"
  env_disconnect :: "unit result"
  env_shutdowns :: "error_value list"
  env_run_returns :: "bool \<Rightarrow> bool"

datatype exit_code = EXIT_SUCCESS | EXIT_FAILURE

datatype outcome = Exits exit_code | Hangs

datatype message = Usage | Exception cpp_error | Unexpected_Stop error_value

text \<open>The shutdown handler that is passed to \<open>async_connect\<close>.\<close>

definition on_shutdown :: "error_value \<Rightarrow> message list" where
  "on_shutdown ec = (if ec_failed ec then [Unexpected_Stop ec] else [])"

text \<open>The end of \<open>main\<close> once the thread runs: the thread is joined, by \<open>join\<close> or by its destructor.\<close>

definition join_iothr :: "environment \<Rightarrow> bool \<Rightarrow> exit_code \<Rightarrow> outcome" where
  "join_iothr env stopped code = (if env_run_returns env stopped then Exits code else Hangs)"

definition response_lines :: "response \<Rightarrow> byte list list" where
  "response_lines rs = map (\<lambda>h. hf_name h @ str_bytes '':  '' @ hf_value h) (rs_header_list rs) @ [body_as rs]"

definition client_request :: "url_view \<Rightarrow> request result" where
  "client_request view =
     bind_res (request_new view GET) (\<lambda>r.
       bind_res (header_field_new (str_bytes ''accept'') (str_bytes ''*/*'') DEFAULT) (\<lambda>h1.
         bind_res (header_field_new (str_bytes ''user-agent'') (str_bytes ''h2pp/0.0.1'') DEFAULT) (\<lambda>h2.
           Inr (rq_headers [h1, h2] r))))"

text \<open>The block that \<open>try\<close> guards, after the URL has been parsed: the lines it prints, and how it ends.\<close>

definition fetch :: "environment \<Rightarrow> string \<Rightarrow> parsed_url \<Rightarrow> byte list list \<times> unit result" where
  "fetch env arg url =
     (let service = (if pu_port url = [] then ''443'' else pu_port url)
      in case env_connect env (pu_host_name url) service of
           Inl e \<Rightarrow> ([], Inl e)
         | Inr _ \<Rightarrow>
             (case bind_res (bind_res (env_url_view env arg) client_request) (env_send env) of
                Inl e \<Rightarrow> ([], Inl e)
              | Inr rs \<Rightarrow> (response_lines rs, env_disconnect env)))"

text \<open>
  The exit, the lines on \<open>cout\<close> and the messages on \<open>cerr\<close>; the shutdown handler runs on the other thread, and its messages are
  listed last.
\<close>

definition example_main :: "environment \<Rightarrow> string list \<Rightarrow> outcome \<times> byte list list \<times> message list" where
  "example_main env argv =
     (if length argv \<noteq> 2 then (Exits EXIT_FAILURE, [], [Usage])
      else case env_parse_uri env (argv ! 1) of
        None \<Rightarrow> (join_iothr env False EXIT_FAILURE, [], [])
      | Some url \<Rightarrow>
          (case fetch env (argv ! 1) url of
             (cout, Inl e) \<Rightarrow> (join_iothr env True EXIT_SUCCESS, cout, Exception e # concat (map on_shutdown (env_shutdowns env)))
           | (cout, Inr _) \<Rightarrow> (join_iothr env True EXIT_SUCCESS, cout, concat (map on_shutdown (env_shutdowns env)))))"

section \<open>Lemmas\<close>

lemma client_request_eq:
  "request_new view GET = Inr r \<Longrightarrow> client_request view =
     Inr (rq_headers [plain_field (''accept'', ''*/*''), plain_field (''user-agent'', ''h2pp/0.0.1'')] r)"
  by (simp add: client_request_def header_field_new_def check_max_size_def plain_field_def str_bytes_def)

section \<open>Properties\<close>


definition offline :: environment where
  "offline = \<lparr>env_parse_uri = (\<lambda>arg. if arg = ''https://localhost/'' then Some \<lparr>pu_port = [], pu_host_name = ''localhost''\<rparr> else None),
     env_url_view = (\<lambda>arg. Inr \<lparr>url_scheme = ''https'', url_authority = ''localhost'', url_path = ''/'',
       url_encoded_authority = ''localhost'', url_encoded_resource = ''/''\<rparr>),
     env_connect = (\<lambda>host service. if service = ''443'' then Inr no_error else Inl (system_error (io_error 111))),
     env_send = (\<lambda>rq. if length (rq_header_list rq) = 6 then Inr response_new else Inl runtime_error),
     env_disconnect = Inr (), env_shutdowns = [no_error], env_run_returns = (\<lambda>stopped. stopped)\<rparr>"


text \<open>
  Fetching a URL. The program connects to the host of the URL, at the port of the URL or else 443, and sends one
  request: the pseudo-headers of the URL with the method GET, then the two headers of its own. It prints the
  headers of the response in their order, one per line, then the whole body, and ends with success.
\<close>

lemma example_prints_response:
  assumes "env_parse_uri env url = Some pu" "env_url_view env url = Inr view" "request_new view GET = Inr r"
    and "env_connect env (pu_host_name pu) (if pu_port pu = [] then ''443'' else pu_port pu) = Inr ec"
    and "env_send env (rq_headers (map plain_field [(''accept'', ''*/*''), (''user-agent'', ''h2pp/0.0.1'')]) r) = Inr rs"
    and "unat (rs_size rs) = length (body_range rs)" "env_disconnect env = Inr ()" "env_run_returns env True"
    and "\<forall>ec\<in>set (env_shutdowns env). \<not> ec_failed ec"
  shows "example_main env [program, url] = (Exits EXIT_SUCCESS,
      map (\<lambda>h. hf_name h @ str_bytes '':  '' @ hf_value h) (rs_header_list rs) @ [body_range rs], []) \<and>
    rq_header_list r = map plain_field (pseudo_headers view GET)"
proof -
  have "client_request view = Inr (rq_headers (map plain_field [(''accept'', ''*/*''), (''user-agent'', ''h2pp/0.0.1'')]) r)"
    using client_request_eq [OF assms(3)] by simp
  moreover have "rq_header_list r = map plain_field (pseudo_headers view GET)"
    using assms(3) by (auto simp: request_new_iff rq_headers_def request_empty_def plain_field_def)
  moreover have "concat (map on_shutdown (env_shutdowns env)) = []" using assms(9) by (simp add: on_shutdown_def)
  ultimately show ?thesis using assms(1-8)
    by (simp add: example_main_def fetch_def join_iothr_def response_lines_def body_as_range)
qed

end
