(* ===== verification/Spec2Isabelle.thy ===== *)
theory Spec2Isabelle
  imports Http2_Frame_Members Http2_Exchange Example_Client
begin

text \<open>
  \<^bold>\<open>h2pp\<close>, an HTTP/2 client library in C++20.

  \<^bold>\<open>The program.\<close> The library has three layers. \<open>lib/utils\<close> holds byte buffers and bit helpers. \<open>lib/hpack\<close> implements
  header compression (RFC 7541): an encoder and a decoder, each with a table of recent fields that has to stay equal
  to the table of the peer. \<open>lib\<close> itself holds the frames, the settings handshake, the receive windows, requests and
  responses, the streams with their registry, the client that drives them, the session that runs the client on an
  asynchronous connection, and the connection over TLS. A request goes down through these layers: \<open>async_send\<close> makes a
  stream and wakes the writer; the writer asks the client for data, the client asks the registry, the registry its
  waiting streams, and a stream encodes its headers and cuts its body into frames as the windows allow. What is read goes up:
  the session fills a buffer, the client splits it into frames, decodes header blocks and passes each frame to its
  stream, which collects the response and calls the handler of the request.

  \<^bold>\<open>The model.\<close> Definitions are executable functions with the names of the source where possible. State is
  passed explicitly, a class is a record. An operation that can throw returns \<open>cpp_error + 'a\<close>; where the state after an
  exception matters it is returned with the exception. What C++ leaves undefined (a shift by the width, a null pointer, the first
  element of an empty deque) is the error \<open>undefined_behaviour\<close>. Sizes that can wrap are words of 32 or 64 bits. Three things that
  the source depends on and does not fix are arguments: the byte order of the host (\<open>native\<close>), what new memory
  holds (\<open>fill\<close>), what lies in memory outside a buffer (\<open>out\<close>); so is where \<open>lower_bound\<close> ends when its
  precondition fails (\<open>stray\<close>). A completion handler is a number, and calling it is an event that the operation returns.

  \<^bold>\<open>Helpers.\<close>
  \<^item> \<open>H2_Prelude\<close>: machine types, errors as values, words as bit strings, spans.
  \<^item> \<open>Utils\<close> (\<open>lib/utils/utils.h\<close>, \<open>endianess.h\<close>): masks, rounding, byte order.
  \<^item> \<open>Buffer\<close> (\<open>lib/utils/buffer.h\<close>, \<open>streambuf.{h,cpp}\<close>): the buffer as a bounded queue of bytes, the stream buffer as a
    byte sink (locale \<open>byte_sink\<close>).
  \<^item> \<open>Codec\<close>: the contract of a self-delimiting encoding (locale \<open>codec\<close>), which the integers and strings of HPACK provide.

  \<^bold>\<open>Header compression.\<close>
  \<^item> \<open>Hpack_Integer\<close> (\<open>constants.h\<close>, \<open>integer.{h,cpp}\<close>): commands and prefixed integers, which round-trip.
  \<^item> \<open>Hpack_Huffman\<close>, \<open>Huffman_Prefix\<close> (\<open>huffman.{h,cpp}\<close>): the 257 codes and the perfect hash; the table is a complete prefix
    code (locale \<open>prefix_code\<close>), and the hash finds exactly its codes.
  \<^item> \<open>Hpack_String\<close> (\<open>bitstream.{h,cpp}\<close>, \<open>string.{h,cpp}\<close>): the bit reader on the memory around a string, and exactly which
    texts it reads back.
  \<^item> \<open>Hpack_Static_Table\<close> (\<open>static_table.{h,cpp}\<close>): the 61 entries; the hashed searches agree with a linear search.
  \<^item> \<open>Hpack_Header_Field\<close> (\<open>header_field.{h,cpp}\<close>): fields and their size check.
  \<^item> \<open>Hpack_Dynamic_Table\<close> (\<open>dynamic_table.{h,cpp}\<close>, \<open>indexed_dynamic_table.{h,cpp}\<close>): both dynamic tables implement one reference
    list (locale \<open>entry_table\<close>), and how their eviction differs from RFC 7541.
  \<^item> \<open>Hpack_Table\<close> (\<open>hpack_table.h\<close>): one range of indices over both tables.
  \<^item> \<open>Hpack_Encoder_Stream\<close>, \<open>Hpack_Encoder\<close> (\<open>encoder_stream.{h,cpp}\<close>, \<open>encoder.{h,cpp}\<close>) and \<open>Hpack_Decoder\<close> (\<open>decoder.{h,cpp}\<close>):
    the encoder with its Huffman writer and its limit, the decoder with every command; on any input the decoder keeps its table
    consistent.
  \<^item> \<open>Hpack_Coding\<close>: the relation \<open>header_coding\<close> between lists of fields and their encodings. The decoder reads all of them, the
    encoder writes one of them, so that blocks round-trip and the tables stay equal.

  \<^bold>\<open>The protocol.\<close>
  \<^item> \<open>Http2_Protocol\<close> (\<open>protocol.h\<close>, \<open>error.{h,cpp}\<close>, \<open>method.{h,cpp}\<close>): constants, error codes and their category, methods.
  \<^item> \<open>Http2_Frame\<close>, \<open>Http2_Frame_Members\<close>, \<open>Http2_Frame_Builder\<close> (\<open>frame.{h,cpp}\<close>, \<open>frame_builder.{h,cpp}\<close>): reading and writing
    frames, which round-trip for both byte orders; when the content and the members of a frame lie inside it.
  \<^item> \<open>Http2_Window\<close> (\<open>dummy_window.{h,cpp}\<close>): a receive window gives back exactly what was received.
  \<^item> \<open>Http2_Completion\<close>: handlers are called at most once and never lost (locale \<open>one_shot\<close>).
  \<^item> \<open>Http2_Settings\<close> (\<open>settings_manager.{h,cpp}\<close>): which sequences of SETTINGS frames complete the handshake.
  \<^item> \<open>Http2_Message\<close> (\<open>request.{h,cpp}\<close>, \<open>response.{h,cpp}\<close>): which URLs make a request, what a response collects.
  \<^item> \<open>Http2_Stream\<close> (\<open>stream.{h,cpp}\<close>): sending a request, collecting a response, the timer.
  \<^item> \<open>Http2_Registry\<close> (\<open>stream_registry.{h,cpp}\<close>): the map and the queue of streams; being queued, being scheduled and having data to
    send are the same; every waiting stream is served once and in order.

  \<^bold>\<open>The client.\<close>
  \<^item> \<open>Http2_Client\<close> (\<open>base_client.{h,cpp}\<close>): every operation and frame handler, as an action on the client. \<open>on_read\<close> handles
    exactly the complete frames of its buffer.
  \<^item> \<open>Http2_Client_Frame\<close>: what the operations leave as it is, for every view of a client (locales \<open>client_view\<close>,
    \<open>client_lasting_view\<close>, \<open>client_control_view\<close>).
  \<^item> \<open>Http2_Client_Streams\<close>: the invariant of the streams of a client, for every sequence of steps.
  \<^item> \<open>Http2_Session\<close> (\<open>client_session.h\<close>): the session as a client with its pending operations. The relation \<open>session_step\<close>
    has the completions, the calls of the user and the timers in any order; at most one read and one write are pending.
  \<^item> \<open>Http2_Session_Runs\<close>, \<open>Http2_Session_Life\<close>: connecting, disconnecting and failing from end to end, and which flags are
    never cleared.
  \<^item> \<open>Http2_Reading\<close>: what is handled does not depend on how the connection cuts the bytes into reads.
  \<^item> \<open>Http2_Exchange\<close>: a request and its response through all layers, from \<open>async_send\<close> to the bytes of the HEADERS frame that a
    decoder reads back, and from the bytes of a response to the call of the handler.
  \<^item> \<open>Http2_Connection\<close> (\<open>connection.h\<close>): the connection over TLS, and the session on it.
  \<^item> \<open>Example_Client\<close> (\<open>examples/client.cpp\<close>): the example program.

  \<^bold>\<open>Loops.\<close> No definition uses fuel. Loops are structural recursions or functions with a termination proof, with two
  exceptions, \<open>push_back_loop\<close> and \<open>on_read_loop\<close>, which are partial functions with \<open>None\<close> for not returning; \<open>push_back_loop_returns\<close> and
  \<open>on_read_returns\<close> show that they return on every input. \<open>get_data_loop\<close> ends because the queue gets shorter, \<open>body_loop\<close> because
  every round copies bytes or takes a slice, \<open>decode_loop\<close> and \<open>read_huffman_loop\<close> because every round consumes input.

  \<^bold>\<open>Hypotheses on third-party code.\<close> The functions of OpenSSL, Boost.Asio and Boost.URL that \<open>Http2_Connection\<close> and
  \<open>Example_Client\<close> use are records of functions (\<open>transport\<close>, \<open>environment\<close>). \<open>checks_chain\<close> states that a TLS handshake asks the verify
  callback for every certificate, \<open>reads_enough\<close> that a read without an error transfers at least what it was asked
  for; concrete instances satisfy them.

  \<^bold>\<open>Bounds.\<close> A frame has less than \<open>2 ^ 24\<close> bytes of payload, since its length has 24 bits. The round trips of HPACK are stated for
  fields whose codes each lie within four bytes, which holds for all printable texts, and for indexed fields with a
  static name that fit the table: for others the source differs, as the theorems \<open>huffman_reader_exact\<close>, \<open>eviction_against_rfc\<close> and
  \<open>new_name_desynchronises\<close> say. \<open>request_sent\<close> is for a request without a body whose headers fit one frame;
  \<open>single_slice_body_sent\<close> is for the body of a stream.

  \<^bold>\<open>Not modelled.\<close>
  \<^item> Threads. Completions run one at a time, as on an \<open>io_context\<close> with one thread; the mutexes and the strand are left out.
  \<^item> User code that calls back into the library from a handler.
  \<^item> Time. A timer is whether it is pending, and its callback can run at any moment while it is.
  \<^item> The inside of sockets, TLS, name resolution and URL parsing, which is third-party code.
  \<^item> Running out of memory.
  \<^item> The texts of exceptions, except those of the error category.
\<close>

end
